(* ===== verification/OS_Prelude.thy ===== *)
theory OS_Prelude
  imports Main "HOL-Library.Monad_Syntax" "HOL-Library.Multiset" "HOL-Library.Word"
begin

text \<open>
  Shared vocabulary of the development: machine addresses, the C truth values of
  \<^verbatim>\<open>cs402.h\<close>, walks along a pointer field, and generic facts on lists
  and options that the component theories use.

  Every partial C operation is a value of \<^typ>\<open>'a option\<close>: \<^const>\<open>None\<close> is a run that has
  no result (a dereference of a null or unallocated pointer, or a loop that does not end).
\<close>

named_theorems heap_simps \<open>how the pointer fields of a heap react to a field update\<close>

type_synonym addr = nat

abbreviation (input) NULL :: addr where
  "NULL \<equiv> 0"

text \<open>The error numbers the kernel returns.\<close>

datatype errno = ENOMEM | EFAULT | EBADF | EISDIR | ENOTDIR | ENOENT | EEXIST | EINVAL | ENOTEMPTY | ENAMETOOLONG | EMFILE | ENOSPC
  | EACCES | ENODEV | EBUSY | ENOTSUP | ENXIO

definition TRUE :: int where
  "TRUE = 1"

definition FALSE :: int where
  "FALSE = 0"

lemma TRUE_neq_FALSE [simp]: "TRUE \<noteq> FALSE" "FALSE \<noteq> TRUE"
  by (simp_all add: TRUE_def FALSE_def)

section \<open>Walks along a partial successor function\<close>

text \<open>
  \<open>walk f ps\<close>: each element of \<open>ps\<close> is the \<open>f\<close>-successor of the one before it.
\<close>

fun walk :: "('a \<Rightarrow> 'a option) \<Rightarrow> 'a list \<Rightarrow> bool" where
  "walk f (p # q # ps) = (f p = Some q \<and> walk f (q # ps))"
| "walk f _ = True"

lemma walk_append: "walk f (us @ p # vs) \<longleftrightarrow> walk f (us @ [p]) \<and> walk f (p # vs)"
  by (induction us rule: induct_list012) auto

lemma walk_upd: "p \<notin> set (butlast ps) \<Longrightarrow> walk (f(p := v)) ps = walk f ps"
  by (induction f ps rule: walk.induct) auto

lemma walk_mono: "walk f ps \<Longrightarrow> (\<And>p. p \<in> set (butlast ps) \<Longrightarrow> g p = f p) \<Longrightarrow> walk g ps"
  by (induction f ps rule: walk.induct) auto

lemma walk_mid: "walk f (us @ p # q # vs) \<Longrightarrow> f p = Some q"
  by (subst (asm) walk_append) simp

lemma walk_insert:
  assumes "walk f (us @ p # q # vs)" "distinct (us @ p # butlast (q # vs))"
    and "t \<notin> set (us @ p # butlast (q # vs))"
  shows "walk (f(p \<mapsto> t, t \<mapsto> q)) (us @ p # t # q # vs)"
proof -
  have l: "walk f (us @ [p])" and r: "walk f (q # vs)"
    using assms(1) by (subst (asm) walk_append, simp)+
  have "walk (f(p \<mapsto> t, t \<mapsto> q)) (us @ [p])"
    using l assms(2,3) by (simp add: walk_upd)
  moreover have "walk (f(p \<mapsto> t, t \<mapsto> q)) (q # vs)"
    using r assms(2,3) by (subst walk_upd; simp add: walk_upd)
  moreover have "t \<noteq> p"
    using assms(3) by auto
  ultimately show ?thesis
    by (subst walk_append) simp
qed

lemma walk_delete:
  assumes "walk f (us @ p # e # q # vs)" "distinct (us @ p # e # butlast (q # vs))"
  shows "walk (f(p \<mapsto> q, e := None)) (us @ p # q # vs)"
proof -
  have l: "walk f (us @ [p])" and r: "walk f (q # vs)"
    using assms(1) by (subst (asm) walk_append, simp)+
  have "walk (f(p \<mapsto> q, e := None)) (us @ [p])"
    using l assms(2) by (simp add: walk_upd)
  moreover have "walk (f(p \<mapsto> q, e := None)) (q # vs)"
    using r assms(2) by (subst walk_upd; simp add: walk_upd)
  ultimately show ?thesis
    using assms(2) by (subst walk_append) simp
qed

section \<open>Results\<close>

text \<open>\<open>yields c Q\<close>: if \<open>c\<close> has a result, it satisfies \<open>Q\<close>.\<close>

definition yields :: "'a option \<Rightarrow> ('a \<Rightarrow> bool) \<Rightarrow> bool" where
  "yields c Q \<longleftrightarrow> (\<forall>x. c = Some x \<longrightarrow> Q x)"

lemma yields_simps [simp]:
  "yields None Q" "yields (Some x) Q = Q x" "yields (c \<bind> f) Q = yields c (\<lambda>x. yields (f x) Q)"
  by (auto simp: yields_def bind_eq_Some_conv)

lemma yieldsI: "(\<And>x. c = Some x \<Longrightarrow> Q x) \<Longrightarrow> yields c Q"
  by (simp add: yields_def)

lemma yieldsD: "yields c Q \<Longrightarrow> c = Some x \<Longrightarrow> Q x"
  by (simp add: yields_def)

lemma yields_mono: "yields c P \<Longrightarrow> (\<And>x. c = Some x \<Longrightarrow> P x \<Longrightarrow> Q x) \<Longrightarrow> yields c Q"
  by (simp add: yields_def)

lemma yields_if: "yields (if b then c else d) Q \<longleftrightarrow> (b \<longrightarrow> yields c Q) \<and> (\<not> b \<longrightarrow> yields d Q)"
  by simp

lemma yields_ifI: "(b \<Longrightarrow> yields c Q) \<Longrightarrow> (\<not> b \<Longrightarrow> yields d Q) \<Longrightarrow> yields (if b then c else d) Q"
  by simp

section \<open>Lists\<close>

lemma butlast_snoc2: "butlast (us @ [p, q]) = us @ [p]"
  by (simp add: butlast_append)

lemma distinct_map_fst_eq:
  "distinct (map fst xs) \<Longrightarrow> (p, x) \<in> set xs \<Longrightarrow> (p, y) \<in> set xs \<Longrightarrow> x = y"
  by (induction xs) (auto simp: rev_image_eqI)

end
