(* ===== verification/Heap402.thy ===== *)
theory Heap402
  imports OS_Prelude
begin

text \<open>
  The data of \<^verbatim>\<open>my402list.h\<close> (the same in \<^verbatim>\<open>src/warmup1\<close> and
  \<^verbatim>\<open>src/Threading\<close>) on a heap of list elements, and the sequence of
  (address, object) pairs that such a heap represents.

  A heap maps addresses to elements; the anchor element embedded in a \<open>My402List\<close> lives in the
  heap too, at the address \<open>anchor list\<close>.  An access through a null or unallocated pointer has
  no result.  \<open>repr h list xs\<close> says that the pointers form one ring through the anchor and the
  elements of \<open>xs\<close>, forwards by \<open>nxt\<close> and backwards by \<open>prv\<close>, and that \<open>num_members\<close> is their
  number.  The lemmas say what linking one element in and cutting one out does to the ring,
  and the locales at the end state what the two list implementations promise to their
  clients.
\<close>

section \<open>Data\<close>

record 'o My402ListElem =
  obj :: 'o
  nxt :: addr
  prv :: addr

record My402List =
  num_members :: int
  anchor :: addr

type_synonym 'o heap = "addr \<rightharpoonup> 'o My402ListElem"

type_synonym 'o malloc_fun = "'o heap \<Rightarrow> addr"

section \<open>Access to the heap\<close>

definition load :: "'o heap \<Rightarrow> addr \<Rightarrow> 'o My402ListElem option" where
  "load h p = (if p = NULL then None else h p)"

definition set_nxt :: "'o heap \<Rightarrow> addr \<Rightarrow> addr \<Rightarrow> 'o heap option" where
  "set_nxt h p v = do { e \<leftarrow> load h p; Some (h(p \<mapsto> e\<lparr>nxt := v\<rparr>)) }"

definition set_prv :: "'o heap \<Rightarrow> addr \<Rightarrow> addr \<Rightarrow> 'o heap option" where
  "set_prv h p v = do { e \<leftarrow> load h p; Some (h(p \<mapsto> e\<lparr>prv := v\<rparr>)) }"

text \<open>\<open>free\<close> of a pointer that is not allocated has no result.\<close>

definition free :: "'o heap \<Rightarrow> addr \<Rightarrow> 'o heap option" where
  "free h p = (if p = NULL then Some h else do { _ \<leftarrow> h p; Some (h(p := None)) })"

section \<open>The sequence a heap represents\<close>

definition nx :: "'o heap \<Rightarrow> addr \<Rightarrow> addr option" where
  "nx h p = map_option nxt (h p)"

definition pv :: "'o heap \<Rightarrow> addr \<Rightarrow> addr option" where
  "pv h p = map_option prv (h p)"

definition ob :: "'o heap \<Rightarrow> addr \<Rightarrow> 'o option" where
  "ob h p = map_option obj (h p)"

definition ring :: "'o heap \<Rightarrow> addr \<Rightarrow> (addr \<times> 'o) list \<Rightarrow> bool" where
  "ring h a xs \<longleftrightarrow>
     distinct (a # map fst xs) \<and> NULL \<notin> set (a # map fst xs) \<and>
     walk (nx h) (a # map fst xs @ [a]) \<and>
     walk (pv h) (a # rev (map fst xs) @ [a]) \<and>
     (\<forall>(p, x) \<in> set xs. ob h p = Some x)"

definition repr :: "'o heap \<Rightarrow> My402List \<Rightarrow> (addr \<times> 'o) list \<Rightarrow> bool" where
  "repr h list xs \<longleftrightarrow> ring h (anchor list) xs \<and> num_members list = int (length xs)"

definition lastp :: "addr \<Rightarrow> (addr \<times> 'o) list \<Rightarrow> addr" where
  "lastp a us = (if us = [] then a else fst (last us))"

definition firstp :: "addr \<Rightarrow> (addr \<times> 'o) list \<Rightarrow> addr" where
  "firstp a vs = (if vs = [] then a else fst (hd vs))"

definition malloc_ok :: "'o malloc_fun \<Rightarrow> bool" where
  "malloc_ok malloc \<longleftrightarrow> (\<forall>h. malloc h \<noteq> NULL \<longrightarrow> h (malloc h) = None)"

text \<open>
  Memory that is not exhausted: \<open>malloc\<close> finds room in every heap with finitely many elements.
  \<open>bump\<close> is such a \<open>malloc\<close>.
\<close>

definition malloc_total :: "'o malloc_fun \<Rightarrow> bool" where
  "malloc_total malloc \<longleftrightarrow> (\<forall>h. finite (dom h) \<longrightarrow> malloc h \<noteq> NULL)"

definition bump :: "'o malloc_fun" where
  "bump h = (if finite (dom h) then Suc (Max (insert 0 (dom h))) else NULL)"

definition frame :: "'o heap \<Rightarrow> 'o heap \<Rightarrow> addr set \<Rightarrow> bool" where
  "frame h h' S \<longleftrightarrow> (\<forall>p. p \<notin> S \<longrightarrow> h' p = h p)"

definition nodes :: "My402List \<Rightarrow> (addr \<times> 'o) list \<Rightarrow> addr set" where
  "nodes list xs = insert (anchor list) (fst ` set xs)"

text \<open>The heap after a new element is linked in between \<open>p\<close> and \<open>q\<close>, and after \<open>e\<close> is cut out.\<close>

definition linked :: "'o heap \<Rightarrow> addr \<Rightarrow> addr \<Rightarrow> addr \<Rightarrow> 'o \<Rightarrow> 'o heap" where
  "linked h p q t x =
     (let h1 = h(t \<mapsto> \<lparr>obj = x, nxt = q, prv = p\<rparr>);
          h2 = h1(p \<mapsto> (the (h1 p))\<lparr>nxt := t\<rparr>)
      in h2(q \<mapsto> (the (h2 q))\<lparr>prv := t\<rparr>))"

definition unlinked :: "'o heap \<Rightarrow> addr \<Rightarrow> addr \<Rightarrow> addr \<Rightarrow> 'o heap" where
  "unlinked h p e q =
     (let h1 = h(p \<mapsto> (the (h p))\<lparr>nxt := q\<rparr>)
      in (h1(q \<mapsto> (the (h1 q))\<lparr>prv := p\<rparr>))(e := None))"

abbreviation inc :: "My402List \<Rightarrow> My402List" where
  "inc list \<equiv> list\<lparr>num_members := num_members list + 1\<rparr>"

abbreviation dec :: "My402List \<Rightarrow> My402List" where
  "dec list \<equiv> list\<lparr>num_members := num_members list - 1\<rparr>"

definition first_addr :: "(addr \<times> 'o) list \<Rightarrow> addr" where
  "first_addr xs = (if xs = [] then NULL else fst (hd xs))"

definition last_addr :: "(addr \<times> 'o) list \<Rightarrow> addr" where
  "last_addr xs = (if xs = [] then NULL else fst (last xs))"

fun find_addr :: "'o \<Rightarrow> (addr \<times> 'o) list \<Rightarrow> addr" where
  "find_addr x [] = NULL"
| "find_addr x ((p, y) # xs) = (if y = x then p else find_addr x xs)"

section \<open>Facts about rings\<close>

lemma nx_upd [heap_simps]: "nx (h(p := v)) = (nx h)(p := map_option nxt v)"
  and pv_upd [heap_simps]: "pv (h(p := v)) = (pv h)(p := map_option prv v)"
  and ob_upd [heap_simps]: "ob (h(p := v)) = (ob h)(p := map_option obj v)"
  by (auto simp: nx_def pv_def ob_def)

lemma load_Some [simp]: "p \<noteq> NULL \<Longrightarrow> load h p = h p"
  by (simp add: load_def)

lemma ring_addrs:
  assumes "ring h a xs"
  shows "a \<noteq> NULL" "a \<notin> fst ` set xs" "NULL \<notin> fst ` set xs" "distinct (map fst xs)"
  using assms by (auto simp: ring_def)

lemma lastp_in: "lastp a us \<in> insert a (fst ` set us)"
  and firstp_in: "firstp a vs \<in> insert a (fst ` set vs)"
  by (auto simp: lastp_def firstp_def)

text \<open>
  Splitting the ring at a place between \<open>us\<close> and \<open>vs\<close>, with \<open>ms\<close> put in between; the third
  and fourth equations are the same ring walked backwards.
\<close>

lemma ring_split:
  obtains us' vs' where
    "\<And>ms. a # map fst us @ ms @ map fst vs @ [a] = us' @ lastp a us # ms @ firstp a vs # vs'"
    "\<And>ms. a # map fst us @ ms @ map fst vs = us' @ lastp a us # ms @ butlast (firstp a vs # vs')"
    "\<And>ms. a # rev (map fst vs) @ ms @ rev (map fst us) @ [a] =
       rev vs' @ firstp a vs # ms @ lastp a us # rev us'"
    "\<And>ms. a # rev (map fst vs) @ ms @ rev (map fst us) =
       rev vs' @ firstp a vs # ms @ butlast (lastp a us # rev us')"
proof -
  obtain us' where us': "a # map fst us = us' @ [lastp a us]"
    by (cases us rule: rev_cases) (auto simp: lastp_def)
  obtain vs' where vs': "map fst vs @ [a] = firstp a vs # vs'"
    by (cases vs) (auto simp: firstp_def)
  have us'': "rev (map fst us) @ [a] = lastp a us # rev us'"
    using arg_cong [where f = rev, OF us'] by simp
  have vs'': "a # rev (map fst vs) = rev vs' @ [firstp a vs]"
    using arg_cong [where f = rev, OF vs'] by simp
  have b: "map fst vs = butlast (firstp a vs # vs')" "rev (map fst us) = butlast (lastp a us # rev us')"
    using arg_cong [where f = butlast, OF vs'] arg_cong [where f = butlast, OF us'']
    by (simp_all add: butlast_append)
  show thesis
  proof (rule that)
    fix ms
    show "a # map fst us @ ms @ map fst vs @ [a] = us' @ lastp a us # ms @ firstp a vs # vs'"
      using us' vs' by (simp flip: append_Cons)
    show "a # map fst us @ ms @ map fst vs = us' @ lastp a us # ms @ butlast (firstp a vs # vs')"
      using us' b(1) by (simp flip: append_Cons)
    show "a # rev (map fst vs) @ ms @ rev (map fst us) @ [a] =
       rev vs' @ firstp a vs # ms @ lastp a us # rev us'"
      using us'' vs'' by (simp flip: append_Cons)
    show "a # rev (map fst vs) @ ms @ rev (map fst us) =
       rev vs' @ firstp a vs # ms @ butlast (lastp a us # rev us')"
      using vs'' b(2) by (simp flip: append_Cons)
  qed
qed

text \<open>The walks of a ring, cut at the gap \<open>ms\<close> between \<open>us\<close> and \<open>vs\<close>.\<close>

lemma ring_gap:
  assumes "ring h a (us @ ms @ vs)"
  obtains us' vs' where
    "walk (nx h) (us' @ lastp a us # map fst ms @ firstp a vs # vs')"
    "walk (pv h) (rev vs' @ firstp a vs # rev (map fst ms) @ lastp a us # rev us')"
    "distinct (us' @ lastp a us # map fst ms @ butlast (firstp a vs # vs'))"
    "distinct (rev vs' @ firstp a vs # rev (map fst ms) @ butlast (lastp a us # rev us'))"
    "set (us' @ lastp a us # map fst ms @ butlast (firstp a vs # vs')) = insert a (fst ` set (us @ ms @ vs))"
    "set (rev vs' @ firstp a vs # rev (map fst ms) @ butlast (lastp a us # rev us')) = insert a (fst ` set (us @ ms @ vs))"
    "\<And>ks :: (addr \<times> 'a) list. a # map fst (us @ ks @ vs) @ [a] = us' @ lastp a us # map fst ks @ firstp a vs # vs'"
    "\<And>ks :: (addr \<times> 'a) list. a # rev (map fst (us @ ks @ vs)) @ [a] =
       rev vs' @ firstp a vs # rev (map fst ks) @ lastp a us # rev us'"
proof -
  obtain us' vs' where s:
    "\<And>ms. a # map fst us @ ms @ map fst vs @ [a] = us' @ lastp a us # ms @ firstp a vs # vs'"
    "\<And>ms. a # map fst us @ ms @ map fst vs = us' @ lastp a us # ms @ butlast (firstp a vs # vs')"
    "\<And>ms. a # rev (map fst vs) @ ms @ rev (map fst us) @ [a] =
       rev vs' @ firstp a vs # ms @ lastp a us # rev us'"
    "\<And>ms. a # rev (map fst vs) @ ms @ rev (map fst us) =
       rev vs' @ firstp a vs # ms @ butlast (lastp a us # rev us')"
    using ring_split [of a us vs] by blast
  have w: "walk (nx h) (a # map fst us @ map fst ms @ map fst vs @ [a])"
    "walk (pv h) (a # rev (map fst vs) @ rev (map fst ms) @ rev (map fst us) @ [a])"
    "distinct (a # map fst us @ map fst ms @ map fst vs)"
    using assms by (simp_all add: ring_def)
  have "distinct (a # rev (map fst vs) @ rev (map fst ms) @ rev (map fst us))"
    using w(3) by auto
  moreover have "set (a # map fst us @ map fst ms @ map fst vs) = insert a (fst ` set (us @ ms @ vs))"
    "set (a # rev (map fst vs) @ rev (map fst ms) @ rev (map fst us)) = insert a (fst ` set (us @ ms @ vs))"
    by auto
  ultimately show thesis
    using w that unfolding s map_append rev_append append.assoc by blast
qed

lemma ring_neighbours:
  assumes "ring h a (us @ vs)"
  shows "nx h (lastp a us) = Some (firstp a vs)" "pv h (firstp a vs) = Some (lastp a us)"
proof -
  obtain us' vs' where "walk (nx h) (us' @ lastp a us # firstp a vs # vs')"
    "walk (pv h) (rev vs' @ firstp a vs # lastp a us # rev us')"
    using ring_gap [of h a us "[]" vs] assms by (metis append_Nil list.map(1) rev.simps(1))
  then show "nx h (lastp a us) = Some (firstp a vs)" "pv h (firstp a vs) = Some (lastp a us)"
    by (auto dest: walk_mid)
qed

lemma ring_ob: "ring h a xs \<Longrightarrow> (p, x) \<in> set xs \<Longrightarrow> ob h p = Some x"
  by (auto simp: ring_def)

lemma ring_insert:
  assumes r: "ring h a (us @ vs)" and t: "t \<noteq> NULL" "t \<noteq> a" "t \<notin> fst ` set (us @ vs)"
    and n: "nx h' = (nx h)(lastp a us \<mapsto> t, t \<mapsto> firstp a vs)"
    and p: "pv h' = (pv h)(firstp a vs \<mapsto> t, t \<mapsto> lastp a us)"
    and o: "ob h' = (ob h)(t \<mapsto> x)"
  shows "ring h' a (us @ (t, x) # vs)"
proof -
  have r': "ring h a (us @ [] @ vs)" using r by simp
  obtain us' vs' where g:
    "walk (nx h) (us' @ lastp a us # firstp a vs # vs')"
    "walk (pv h) (rev vs' @ firstp a vs # lastp a us # rev us')"
    "distinct (us' @ lastp a us # butlast (firstp a vs # vs'))"
    "distinct (rev vs' @ firstp a vs # butlast (lastp a us # rev us'))"
    "set (us' @ lastp a us # butlast (firstp a vs # vs')) = insert a (fst ` set (us @ vs))"
    "set (rev vs' @ firstp a vs # butlast (lastp a us # rev us')) = insert a (fst ` set (us @ vs))"
    "a # map fst (us @ [(t, x)] @ vs) @ [a] = us' @ lastp a us # [t] @ firstp a vs # vs'"
    "a # rev (map fst (us @ [(t, x)] @ vs)) @ [a] = rev vs' @ firstp a vs # [t] @ lastp a us # rev us'"
  proof (rule ring_gap [OF r'], goal_cases)
    case (1 us' vs')
    show ?case
      by (rule 1(1) [of us' vs']) (use 1(2-9) 1(8,9) [of "[(t, x)]"] in simp_all)
  qed
  have "walk (nx h') (us' @ lastp a us # t # firstp a vs # vs')"
    unfolding n
  proof (rule walk_insert)
    show "t \<notin> set (us' @ lastp a us # butlast (firstp a vs # vs'))"
      unfolding g(5) using t by simp
  qed (fact g)+
  moreover have "walk (pv h') (rev vs' @ firstp a vs # t # lastp a us # rev us')"
    unfolding p
  proof (rule walk_insert)
    show "t \<notin> set (rev vs' @ firstp a vs # butlast (lastp a us # rev us'))"
      unfolding g(6) using t by simp
  qed (fact g)+
  moreover have "ob h' q = Some y" if "(q, y) \<in> set (us @ [(t, x)] @ vs)" for q y
    using that ring_ob [OF r] t(3) by (force simp: o)
  moreover have "distinct (a # map fst (us @ [(t, x)] @ vs))" "NULL \<notin> fst ` set (us @ [(t, x)] @ vs)"
    using ring_addrs [OF r] t by auto
  ultimately have "ring h' a (us @ [(t, x)] @ vs)"
    unfolding ring_def list.set(2) set_map g(7,8) using ring_addrs(1) [OF r] by auto
  then show ?thesis by simp
qed


lemma ring_delete:
  assumes r: "ring h a (us @ (e, x) # vs)"
    and n: "nx h' = (nx h)(lastp a us \<mapsto> firstp a vs, e := None)"
    and p: "pv h' = (pv h)(firstp a vs \<mapsto> lastp a us, e := None)"
    and o: "ob h' = (ob h)(e := None)"
  shows "ring h' a (us @ vs)"
proof -
  have r': "ring h a (us @ [(e, x)] @ vs)" using r by simp
  obtain us' vs' where g:
    "walk (nx h) (us' @ lastp a us # e # firstp a vs # vs')"
    "walk (pv h) (rev vs' @ firstp a vs # e # lastp a us # rev us')"
    "distinct (us' @ lastp a us # e # butlast (firstp a vs # vs'))"
    "distinct (rev vs' @ firstp a vs # e # butlast (lastp a us # rev us'))"
    "a # map fst (us @ vs) @ [a] = us' @ lastp a us # firstp a vs # vs'"
    "a # rev (map fst (us @ vs)) @ [a] = rev vs' @ firstp a vs # lastp a us # rev us'"
  proof (rule ring_gap [OF r'], goal_cases)
    case (1 us' vs')
    show ?case
      by (rule 1(1) [of us' vs']) (use 1(2-5) 1(8,9) [of "[]"] in simp_all)
  qed
  have "walk (nx h') (us' @ lastp a us # firstp a vs # vs')"
    unfolding n by (rule walk_delete) (fact g)+
  moreover have "walk (pv h') (rev vs' @ firstp a vs # lastp a us # rev us')"
    unfolding p by (rule walk_delete) (fact g)+
  moreover have "ob h' q = Some y" if "(q, y) \<in> set (us @ vs)" for q y
    using that ring_ob [OF r] ring_addrs(4) [OF r] by (force simp: o)
  moreover have "distinct (a # map fst (us @ vs))" "NULL \<notin> fst ` set (us @ vs)"
    using ring_addrs [OF r] by auto
  ultimately show "ring h' a (us @ vs)"
    unfolding ring_def list.set(2) set_map g(5,6) using ring_addrs(1) [OF r] by auto
qed

lemma ring_cong:
  assumes r: "ring h a xs" and eq: "\<And>p. p \<in> insert a (fst ` set xs) \<Longrightarrow> h' p = h p"
  shows "ring h' a xs"
proof -
  have b: "butlast (a # map fst xs @ [a]) = a # map fst xs"
    "butlast (a # rev (map fst xs) @ [a]) = a # rev (map fst xs)"
    by (simp_all add: butlast_append)
  have "nx h' p = nx h p \<and> pv h' p = pv h p \<and> ob h' p = ob h p" if "p \<in> insert a (fst ` set xs)" for p
    using eq [OF that] by (simp add: nx_def pv_def ob_def)
  then have e: "\<And>p. p \<in> set (butlast (a # map fst xs @ [a])) \<Longrightarrow> nx h' p = nx h p"
    "\<And>p. p \<in> set (butlast (a # rev (map fst xs) @ [a])) \<Longrightarrow> pv h' p = pv h p"
    "\<And>p x. (p, x) \<in> set xs \<Longrightarrow> ob h' p = ob h p"
    unfolding b by (auto simp: rev_image_eqI)
  have "walk (nx h') (a # map fst xs @ [a])" "walk (pv h') (a # rev (map fst xs) @ [a])"
    using r e(1,2) unfolding ring_def by (blast intro: walk_mono)+
  then show ?thesis
    using r e(3) unfolding ring_def by auto
qed

lemma nx_Some: "nx h p = Some q \<Longrightarrow> \<exists>e. h p = Some e \<and> nxt e = q"
  and pv_Some: "pv h p = Some q \<Longrightarrow> \<exists>e. h p = Some e \<and> prv e = q"
  by (auto simp: nx_def pv_def)

lemma ring_nodes_alloc: "ring h a xs \<Longrightarrow> (p, x) \<in> set xs \<Longrightarrow> \<exists>e. h p = Some e \<and> obj e = x"
  by (auto dest!: ring_ob simp: ob_def)

lemma ring_anchor_alloc: "ring h a xs \<Longrightarrow> \<exists>e. h a = Some e"
  using ring_neighbours(1) [of h a "[]" xs] by (auto simp: lastp_def nx_def)

lemma ring_not_fresh: "ring h a xs \<Longrightarrow> h t = None \<Longrightarrow> t \<noteq> a \<and> t \<notin> fst ` set xs"
  using ring_anchor_alloc ring_nodes_alloc by fastforce

lemma ring_lastp: "ring h a (us @ vs) \<Longrightarrow> lastp a us \<noteq> NULL \<and> firstp a vs \<noteq> NULL"
  using ring_addrs(1,3) [of h a "us @ vs"] lastp_in [of a us] firstp_in [of a vs]
  by (metis UnCI image_Un insertE set_append)

lemma set_nxt_Some: "p \<noteq> NULL \<Longrightarrow> h p = Some e \<Longrightarrow> set_nxt h p v = Some (h(p \<mapsto> e\<lparr>nxt := v\<rparr>))"
  and set_prv_Some: "p \<noteq> NULL \<Longrightarrow> h p = Some e \<Longrightarrow> set_prv h p v = Some (h(p \<mapsto> e\<lparr>prv := v\<rparr>))"
  and free_Some: "p \<noteq> NULL \<Longrightarrow> h p = Some e \<Longrightarrow> free h p = Some (h(p := None))"
  by (simp_all add: set_nxt_def set_prv_def free_def)

lemmas heap_exec = set_nxt_Some set_prv_Some free_Some

lemma ring_ends:
  assumes "ring h a xs"
  obtains ea el ef where "a \<noteq> NULL" "h a = Some ea" "nxt ea = firstp a xs" "prv ea = lastp a xs"
    "lastp a xs \<noteq> NULL" "h (lastp a xs) = Some el" "nxt el = a"
    "firstp a xs \<noteq> NULL" "h (firstp a xs) = Some ef" "prv ef = a"
    "firstp a xs = a \<longleftrightarrow> xs = []" "lastp a xs = a \<longleftrightarrow> xs = []"
proof -
  have 1: "nx h a = Some (firstp a xs)" "pv h (firstp a xs) = Some a"
    using ring_neighbours [of h a "[]" xs] assms by (simp_all add: lastp_def)
  have 2: "nx h (lastp a xs) = Some a" "pv h a = Some (lastp a xs)"
    using ring_neighbours [of h a xs "[]"] assms by (simp_all add: firstp_def)
  have 3: "a \<noteq> NULL" "a \<notin> fst ` set xs" "lastp a xs \<noteq> NULL" "firstp a xs \<noteq> NULL"
    using ring_addrs [OF assms] ring_lastp [of h a xs "[]"] ring_lastp [of h a "[]" xs] assms by auto
  have 4: "firstp a xs = a \<longleftrightarrow> xs = []" "lastp a xs = a \<longleftrightarrow> xs = []"
    using 3(2) by (auto simp: firstp_def lastp_def image_iff)
  show thesis
    using 1 2 3 4 that by (auto simp: nx_def pv_def)
qed

lemma gap_ends:
  assumes "ring h a (us @ vs)"
  obtains el ef where "lastp a us \<noteq> NULL" "h (lastp a us) = Some el" "nxt el = firstp a vs"
    "firstp a vs \<noteq> NULL" "h (firstp a vs) = Some ef" "prv ef = lastp a us"
  using ring_neighbours [OF assms] ring_lastp [OF assms] by (auto simp: nx_def pv_def)

lemma repr_linked:
  fixes x :: 'o
  assumes r: "repr h list (us @ vs)" and t: "t \<noteq> NULL" "h t = None"
  defines "h' \<equiv> linked h (lastp (anchor list) us) (firstp (anchor list) vs) t x"
  shows "repr h' (inc list) (us @ (t, x) # vs)" "frame h h' (insert t (nodes list (us @ vs)))"
proof -
  let ?a = "anchor list"
  have r': "ring h ?a (us @ vs)" using r by (simp add: repr_def)
  note ne = ring_not_fresh [OF r' t(2)]
  obtain el ef where e: "lastp ?a us \<noteq> NULL" "h (lastp ?a us) = Some el" "nxt el = firstp ?a vs"
    "firstp ?a vs \<noteq> NULL" "h (firstp ?a vs) = Some ef" "prv ef = lastp ?a us"
    by (rule gap_ends [OF r'])
  have lt: "lastp ?a us \<noteq> t" "firstp ?a vs \<noteq> t" using e t by auto
  have "ring h' ?a (us @ (t, x) # vs)"
    by (rule ring_insert [OF r' t(1)])
      (use ne e lt in \<open>auto simp: h'_def linked_def Let_def heap_simps fun_eq_iff nx_def pv_def ob_def\<close>)
  then show "repr h' (inc list) (us @ (t, x) # vs)"
    using r by (simp add: repr_def)
  show "frame h h' (insert t (nodes list (us @ vs)))"
    using lastp_in [of ?a us] firstp_in [of ?a vs]
    by (auto simp: frame_def nodes_def h'_def linked_def Let_def image_Un)
qed

lemma repr_unlinked:
  assumes r: "repr h list (us @ (e, x) # vs)"
  defines "h' \<equiv> unlinked h (lastp (anchor list) us) e (firstp (anchor list) vs)"
  shows "repr h' (dec list) (us @ vs)" "frame h h' (nodes list (us @ (e, x) # vs))" "h' e = None"
proof -
  let ?a = "anchor list"
  have r1: "ring h ?a (us @ (e, x) # vs)" using r by (simp add: repr_def)
  then have r2: "ring h ?a ((us @ [(e, x)]) @ vs)" by simp
  obtain el ee where e1: "lastp ?a us \<noteq> NULL" "h (lastp ?a us) = Some el"
    "h e = Some ee" "prv ee = lastp ?a us"
    by (rule gap_ends [OF r1]) (auto simp: firstp_def)
  obtain ef where e2: "firstp ?a vs \<noteq> NULL" "h (firstp ?a vs) = Some ef" "nxt ee = firstp ?a vs"
    using gap_ends [OF r2] e1(3) by (auto simp: lastp_def)
  have d: "lastp ?a us \<noteq> e" "firstp ?a vs \<noteq> e"
    using ring_addrs [OF r1] lastp_in [of ?a us] firstp_in [of ?a vs] by force+
  have "ring h' ?a (us @ vs)"
    by (rule ring_delete [OF r1])
      (use e1 e2 d in \<open>auto simp: h'_def unlinked_def Let_def heap_simps fun_eq_iff nx_def pv_def ob_def\<close>)
  then show "repr h' (dec list) (us @ vs)"
    using r by (simp add: repr_def)
  show "frame h h' (nodes list (us @ (e, x) # vs))"
    using lastp_in [of ?a us] firstp_in [of ?a vs]
    by (auto simp: frame_def nodes_def h'_def unlinked_def Let_def image_Un)
  show "h' e = None" by (simp add: h'_def unlinked_def Let_def)
qed

lemma node_ends:
  assumes r: "repr h list (us @ (p, y) # vs)"
  obtains ep el ef where "p \<noteq> NULL" "h p = Some ep" "obj ep = y"
    "nxt ep = firstp (anchor list) vs" "prv ep = lastp (anchor list) us"
    "lastp (anchor list) us \<noteq> NULL" "h (lastp (anchor list) us) = Some el" "nxt el = p"
    "firstp (anchor list) vs \<noteq> NULL" "h (firstp (anchor list) vs) = Some ef" "prv ef = p"
    "p \<noteq> anchor list" "lastp (anchor list) us \<noteq> p" "firstp (anchor list) vs \<noteq> p"
proof -
  let ?a = "anchor list"
  have r1: "ring h ?a (us @ (p, y) # vs)" using r by (simp add: repr_def)
  then have r2: "ring h ?a ((us @ [(p, y)]) @ vs)" by simp
  obtain el ee where e1: "lastp ?a us \<noteq> NULL" "h (lastp ?a us) = Some el"
    "h p = Some ee" "prv ee = lastp ?a us" "nxt el = p"
    by (rule gap_ends [OF r1]) (auto simp: firstp_def)
  obtain ef where e2: "firstp ?a vs \<noteq> NULL" "h (firstp ?a vs) = Some ef" "nxt ee = firstp ?a vs" "prv ef = p"
    using gap_ends [OF r2] e1(3) by (auto simp: lastp_def)
  have d: "lastp ?a us \<noteq> p" "firstp ?a vs \<noteq> p" "p \<noteq> ?a" "p \<noteq> NULL"
    using ring_addrs [OF r1] lastp_in [of ?a us] firstp_in [of ?a vs] by force+
  have "obj ee = y" using ring_nodes_alloc [OF r1, of p y] e1(3) by auto
  with e1 e2 d show thesis using that by blast
qed

lemma firstp_eq_anchor: "a \<notin> fst ` set vs \<Longrightarrow> firstp a vs = a \<longleftrightarrow> vs = []"
  and lastp_eq_anchor: "a \<notin> fst ` set us \<Longrightarrow> lastp a us = a \<longleftrightarrow> us = []"
  by (auto simp: firstp_def lastp_def image_iff)

lemma repr_anchor_notin: "repr h list (us @ vs) \<Longrightarrow> anchor list \<notin> fst ` set us \<and> anchor list \<notin> fst ` set vs"
  using ring_addrs(2) [of h "anchor list" "us @ vs"] by (auto simp: repr_def)

lemma repr_cong:
  assumes "repr h list xs" "frame h h' S" "S \<inter> nodes list xs = {}"
  shows "repr h' list xs"
proof -
  have "ring h' (anchor list) xs"
    by (rule ring_cong [of h]) (use assms in \<open>auto simp: repr_def frame_def nodes_def\<close>)
  then show ?thesis
    using assms(1) by (simp add: repr_def)
qed

lemma repr_allocated: "repr h list xs \<Longrightarrow> p \<in> nodes list xs \<Longrightarrow> h p \<noteq> None"
  using ring_anchor_alloc ring_nodes_alloc by (fastforce simp: repr_def nodes_def)

lemma malloc_fresh: "malloc_ok malloc \<Longrightarrow> malloc h \<noteq> NULL \<Longrightarrow> h (malloc h) = None"
  by (simp add: malloc_ok_def)

lemma malloc_gives:
  "malloc_ok malloc \<Longrightarrow> malloc_total malloc \<Longrightarrow> finite (dom h) \<Longrightarrow> malloc h \<noteq> NULL"
  "malloc_ok malloc \<Longrightarrow> malloc_total malloc \<Longrightarrow> finite (dom h) \<Longrightarrow> h (malloc h) = None"
  by (auto simp: malloc_ok_def malloc_total_def)

lemma bump_ok: "malloc_ok bump" and bump_total: "malloc_total bump"
proof -
  have "Suc (Max (insert 0 (dom h))) \<notin> dom h" if "finite (dom h)" for h :: "'a heap"
    using that Max_ge [of "insert 0 (dom h)" "Suc (Max (insert 0 (dom h)))"]
    by (metis finite_insert insertCI not_less_eq_eq order_refl)
  then show "malloc_ok (bump :: 'a malloc_fun)" by (auto simp: malloc_ok_def bump_def)
qed (simp add: malloc_total_def bump_def)

lemma frame_finite: "frame h h' S \<Longrightarrow> finite (dom h) \<Longrightarrow> finite S \<Longrightarrow> finite (dom h')"
  by (rule finite_subset [of _ "dom h \<union> S"]) (auto simp: frame_def dom_def)

lemma nodes_finite: "finite (nodes list xs)"
  by (simp add: nodes_def)

section \<open>What a list implementation promises\<close>

text \<open>
  The queue part of the interface: what the token-bucket emulation uses.  \<open>append\<close> adds at
  the end, \<open>unlink\<close> cuts one element out and frees it, \<open>first\<close> and \<open>len\<close> observe.
\<close>

locale elem_queue =
  fixes append :: "'o malloc_fun \<Rightarrow> My402List \<Rightarrow> 'o \<Rightarrow> 'o heap \<Rightarrow> (int \<times> My402List \<times> 'o heap) option"
    and unlink :: "My402List \<Rightarrow> addr \<Rightarrow> 'o heap \<Rightarrow> (My402List \<times> 'o heap) option"
    and first :: "My402List \<Rightarrow> 'o heap \<Rightarrow> addr option"
    and len :: "My402List \<Rightarrow> int"
  assumes append_law: "repr h list xs \<Longrightarrow> malloc h \<noteq> NULL \<Longrightarrow> h (malloc h) = None \<Longrightarrow>
      \<exists>h'. append malloc list x h = Some (TRUE, inc list, h') \<and>
        repr h' (inc list) (xs @ [(malloc h, x)]) \<and> frame h h' (insert (malloc h) (nodes list xs))"
    and append_fail: "malloc h = NULL \<Longrightarrow> append malloc list x h = Some (FALSE, list, h)"
    and unlink_law: "repr h list (us @ (p, y) # vs) \<Longrightarrow>
      \<exists>h'. unlink list p h = Some (dec list, h') \<and> repr h' (dec list) (us @ vs) \<and>
        frame h h' (nodes list (us @ (p, y) # vs)) \<and> h' p = None"
    and first_law: "repr h list xs \<Longrightarrow> first list h = Some (first_addr xs)"
    and len_law: "repr h list xs \<Longrightarrow> len list = int (length xs)"
begin

text \<open>
  Moving the head of one list to the tail of another list of the same heap, as both threads
  of the emulation do: the object arrives at the end of the second list, the rest of the
  first list and every other part of the heap stay as they are; when the second element
  cannot be allocated only the unlinking has happened.
\<close>

lemma move_head:
  assumes q1: "repr h l1 ((p, x) # xs)" and q2: "repr h l2 ys"
    and disj: "nodes l1 ((p, x) # xs) \<inter> nodes l2 ys = {}" and m: "malloc_ok malloc"
  shows "\<exists>h1. first l1 h = Some p \<and> unlink l1 p h = Some (dec l1, h1) \<and>
    (if malloc h1 = NULL
     then append malloc l2 x h1 = Some (FALSE, l2, h1) \<and> repr h1 (dec l1) xs \<and> repr h1 l2 ys
     else \<exists>h2. append malloc l2 x h1 = Some (TRUE, inc l2, h2) \<and>
       repr h2 (dec l1) xs \<and> repr h2 (inc l2) (ys @ [(malloc h1, x)]) \<and>
       nodes (dec l1) xs \<inter> nodes (inc l2) (ys @ [(malloc h1, x)]) = {} \<and>
       frame h h2 (insert (malloc h1) (nodes l1 ((p, x) # xs) \<union> nodes l2 ys)))"
proof -
  have "repr h l1 ([] @ (p, x) # xs)" using q1 by simp
  from unlink_law [OF this] obtain h1 where u: "unlink l1 p h = Some (dec l1, h1)"
    "repr h1 (dec l1) xs" "frame h h1 (nodes l1 ((p, x) # xs))" by auto
  have r2: "repr h1 l2 ys" by (rule repr_cong [OF q2 u(3) disj])
  have f: "first l1 h = Some p" using first_law [OF q1] by (simp add: first_addr_def)
  have "\<exists>h2. append malloc l2 x h1 = Some (TRUE, inc l2, h2) \<and>
       repr h2 (dec l1) xs \<and> repr h2 (inc l2) (ys @ [(malloc h1, x)]) \<and>
       nodes (dec l1) xs \<inter> nodes (inc l2) (ys @ [(malloc h1, x)]) = {} \<and>
       frame h h2 (insert (malloc h1) (nodes l1 ((p, x) # xs) \<union> nodes l2 ys))" if t1: "malloc h1 \<noteq> NULL"
  proof -
    have t: "malloc h1 \<noteq> NULL" "h1 (malloc h1) = None" using t1 malloc_fresh [OF m] by blast+
    from append_law [where malloc = malloc and x = x, OF r2 t] obtain h2 where a:
      "append malloc l2 x h1 = Some (TRUE, inc l2, h2)"
      "repr h2 (inc l2) (ys @ [(malloc h1, x)])" "frame h1 h2 (insert (malloc h1) (nodes l2 ys))" by blast
    have f: "malloc h1 \<notin> nodes (dec l1) xs" using repr_allocated [OF u(2)] t(2) by blast
    have s: "nodes (dec l1) xs \<subseteq> nodes l1 ((p, x) # xs)" by (auto simp: nodes_def)
    then have "insert (malloc h1) (nodes l2 ys) \<inter> nodes (dec l1) xs = {}" using f disj by auto
    then have "repr h2 (dec l1) xs" by (rule repr_cong [OF u(2) a(3)])
    moreover have "nodes (dec l1) xs \<inter> nodes (inc l2) (ys @ [(malloc h1, x)]) = {}"
      using s disj f by (auto simp: nodes_def)
    moreover have "frame h h2 (insert (malloc h1) (nodes l1 ((p, x) # xs) \<union> nodes l2 ys))"
      using u(3) a(3) by (auto simp: frame_def)
    ultimately show ?thesis using a(1,2) by blast
  qed
  then show ?thesis using u(1,2) r2 f append_fail [of malloc h1 l2 x] by (cases "malloc h1 = NULL") auto
qed

end

text \<open>
  The full interface: insertion next to a given element, and the traversal operations.
\<close>

locale elem_list = elem_queue append unlink first len
  for append :: "'o malloc_fun \<Rightarrow> My402List \<Rightarrow> 'o \<Rightarrow> 'o heap \<Rightarrow> (int \<times> My402List \<times> 'o heap) option"
    and unlink :: "My402List \<Rightarrow> addr \<Rightarrow> 'o heap \<Rightarrow> (My402List \<times> 'o heap) option"
    and first :: "My402List \<Rightarrow> 'o heap \<Rightarrow> addr option"
    and len :: "My402List \<Rightarrow> int" +
  fixes prepend :: "'o malloc_fun \<Rightarrow> My402List \<Rightarrow> 'o \<Rightarrow> 'o heap \<Rightarrow> (int \<times> My402List \<times> 'o heap) option"
    and insert_after insert_before ::
      "'o malloc_fun \<Rightarrow> My402List \<Rightarrow> 'o \<Rightarrow> addr \<Rightarrow> 'o heap \<Rightarrow> (int \<times> My402List \<times> 'o heap) option"
    and last_elem :: "My402List \<Rightarrow> 'o heap \<Rightarrow> addr option"
    and next_elem prev_elem :: "My402List \<Rightarrow> addr \<Rightarrow> 'o heap \<Rightarrow> addr option"
  assumes prepend_law: "repr h list xs \<Longrightarrow> malloc h \<noteq> NULL \<Longrightarrow> h (malloc h) = None \<Longrightarrow>
      \<exists>h'. prepend malloc list x h = Some (TRUE, inc list, h') \<and>
        repr h' (inc list) ((malloc h, x) # xs) \<and> frame h h' (insert (malloc h) (nodes list xs))"
    and insert_after_law: "repr h list (us @ (p, y) # vs) \<Longrightarrow> malloc h \<noteq> NULL \<Longrightarrow> h (malloc h) = None \<Longrightarrow>
      \<exists>h'. insert_after malloc list x p h = Some (TRUE, inc list, h') \<and>
        repr h' (inc list) (us @ (p, y) # (malloc h, x) # vs) \<and>
        frame h h' (insert (malloc h) (nodes list (us @ (p, y) # vs)))"
    and insert_before_law: "repr h list (us @ (p, y) # vs) \<Longrightarrow> malloc h \<noteq> NULL \<Longrightarrow> h (malloc h) = None \<Longrightarrow>
      \<exists>h'. insert_before malloc list x p h = Some (TRUE, inc list, h') \<and>
        repr h' (inc list) (us @ (malloc h, x) # (p, y) # vs) \<and>
        frame h h' (insert (malloc h) (nodes list (us @ (p, y) # vs)))"
    and last_law: "repr h list xs \<Longrightarrow> last_elem list h = Some (last_addr xs)"
    and next_law: "repr h list (us @ (p, y) # vs) \<Longrightarrow> next_elem list p h = Some (first_addr vs)"
    and prev_law: "repr h list (us @ (p, y) # vs) \<Longrightarrow> prev_elem list p h = Some (last_addr us)"
begin

text \<open>
  Putting an object back between what is before and what is after it, choosing the operation
  by whether there is an element before it (or after it), gives the same sequence each time.
\<close>

lemma put_after_prev:
  assumes r: "repr h list (us @ vs)" and t: "malloc h \<noteq> NULL" "h (malloc h) = None"
  shows "\<exists>h'. (if last_addr us = NULL then prepend malloc list x h
               else insert_after malloc list x (last_addr us) h) = Some (TRUE, inc list, h') \<and>
    repr h' (inc list) (us @ (malloc h, x) # vs) \<and> frame h h' (insert (malloc h) (nodes list (us @ vs)))"
proof (cases us rule: rev_cases)
  case Nil
  then show ?thesis using prepend_law [of h list vs malloc x] r t by (simp add: last_addr_def)
next
  case (snoc us' u)
  obtain p y where u: "u = (p, y)" by force
  have "p \<noteq> NULL" using r ring_addrs(3) [of h "anchor list" "us @ vs"] snoc u by (auto simp: repr_def)
  then show ?thesis
    using insert_after_law [of h list us' p y vs malloc x] r t snoc u by (simp add: last_addr_def)
qed

lemma put_before_next:
  assumes r: "repr h list (us @ vs)" and t: "malloc h \<noteq> NULL" "h (malloc h) = None"
  shows "\<exists>h'. (if first_addr vs = NULL then append malloc list x h
               else insert_before malloc list x (first_addr vs) h) = Some (TRUE, inc list, h') \<and>
    repr h' (inc list) (us @ (malloc h, x) # vs) \<and> frame h h' (insert (malloc h) (nodes list (us @ vs)))"
proof (cases vs)
  case Nil
  then show ?thesis using append_law [of h list us malloc x] r t by (simp add: first_addr_def)
next
  case (Cons v vs')
  obtain p y where v: "v = (p, y)" by force
  have "p \<noteq> NULL" using r ring_addrs(3) [of h "anchor list" "us @ vs"] Cons v by (auto simp: repr_def)
  then show ?thesis
    using insert_before_law [of h list us p y vs' malloc x] r t Cons v by (simp add: first_addr_def)
qed

text \<open>The element put there is found from the same neighbour.\<close>

lemma new_after_prev:
  assumes r: "repr h list (us @ (t, x) # vs)"
  shows "(if last_addr us = NULL then first list h else next_elem list (last_addr us) h) = Some t"
proof (cases us rule: rev_cases)
  case Nil
  then show ?thesis using first_law [OF r] by (simp add: last_addr_def first_addr_def)
next
  case (snoc us' u)
  obtain p y where u: "u = (p, y)" by force
  have "p \<noteq> NULL" using r ring_addrs(3) [of h "anchor list" "us @ (t, x) # vs"] snoc u by (auto simp: repr_def)
  then show ?thesis
    using next_law [of h list us' p y "(t, x) # vs"] r snoc u by (simp add: last_addr_def first_addr_def)
qed

lemma new_before_next:
  assumes r: "repr h list (us @ (t, x) # vs)"
  shows "(if first_addr vs = NULL then last_elem list h else prev_elem list (first_addr vs) h) = Some t"
proof (cases vs)
  case Nil
  then show ?thesis using last_law [OF r] by (simp add: last_addr_def first_addr_def)
next
  case (Cons v vs')
  obtain p y where v: "v = (p, y)" by force
  have "p \<noteq> NULL" using r ring_addrs(3) [of h "anchor list" "us @ (t, x) # vs"] Cons v by (auto simp: repr_def)
  then show ?thesis
    using prev_law [of h list "us @ [(t, x)]" p y vs'] r Cons v by (simp add: last_addr_def first_addr_def)
qed

end

end
