(* ===== verification/List402.thy ===== *)
theory List402
  imports Heap402
begin

text \<open>
  The operations of \<^verbatim>\<open>src/warmup1/my402list.c\<close>, pointer assignment by pointer
  assignment.  \<open>malloc\<close> is an argument: the address it returns for the heap it is called in,
  \<open>NULL\<close> when it fails.  The second half shows that each operation implements the obvious
  operation on the sequence of (address, object) pairs, leaves the rest of the heap alone
  and, for the loops, that they end.
\<close>

section \<open>The operations of my402list.c\<close>

definition My402ListLength :: "My402List \<Rightarrow> int" where
  "My402ListLength list = num_members list"

definition My402ListEmpty :: "My402List \<Rightarrow> 'o heap \<Rightarrow> int option" where
  "My402ListEmpty list h = do {
     a \<leftarrow> load h (anchor list);
     Some (if nxt a = anchor list then TRUE else FALSE)
   }"

definition My402ListAppend ::
  "'o malloc_fun \<Rightarrow> My402List \<Rightarrow> 'o \<Rightarrow> 'o heap \<Rightarrow> (int \<times> My402List \<times> 'o heap) option" where
  "My402ListAppend malloc list object h =
     (let temp = malloc h in
      if temp = NULL then Some (FALSE, list, h)
      else do {
        let h = h(temp \<mapsto> \<lparr>obj = object, nxt = NULL, prv = NULL\<rparr>);
        a \<leftarrow> load h (anchor list);
        if nxt a = anchor list then do {
          h \<leftarrow> set_nxt h temp (anchor list);
          h \<leftarrow> set_prv h temp (anchor list);
          h \<leftarrow> set_nxt h (anchor list) temp;
          h \<leftarrow> set_prv h (anchor list) temp;
          Some (TRUE, list\<lparr>num_members := num_members list + 1\<rparr>, h)
        } else do {
          let last_elem = prv a;
          h \<leftarrow> set_nxt h temp (anchor list);
          h \<leftarrow> set_prv h temp last_elem;
          h \<leftarrow> set_nxt h last_elem temp;
          h \<leftarrow> set_prv h (anchor list) temp;
          Some (TRUE, list\<lparr>num_members := num_members list + 1\<rparr>, h)
        }
      })"

definition My402ListPrepend ::
  "'o malloc_fun \<Rightarrow> My402List \<Rightarrow> 'o \<Rightarrow> 'o heap \<Rightarrow> (int \<times> My402List \<times> 'o heap) option" where
  "My402ListPrepend malloc list elem h =
     (let temp = malloc h in
      if temp = NULL then Some (FALSE, list, h)
      else do {
        let h = h(temp \<mapsto> \<lparr>obj = elem, nxt = NULL, prv = NULL\<rparr>);
        a \<leftarrow> load h (anchor list);
        if nxt a = anchor list then do {
          h \<leftarrow> set_nxt h temp (anchor list);
          h \<leftarrow> set_prv h temp (anchor list);
          h \<leftarrow> set_nxt h (anchor list) temp;
          h \<leftarrow> set_prv h (anchor list) temp;
          Some (TRUE, list\<lparr>num_members := num_members list + 1\<rparr>, h)
        } else do {
          let first_elem = nxt a;
          h \<leftarrow> set_nxt h temp first_elem;
          h \<leftarrow> set_prv h temp (anchor list);
          h \<leftarrow> set_nxt h (anchor list) temp;
          h \<leftarrow> set_prv h first_elem temp;
          Some (TRUE, list\<lparr>num_members := num_members list + 1\<rparr>, h)
        }
      })"

definition My402ListUnlink ::
  "My402List \<Rightarrow> addr \<Rightarrow> 'o heap \<Rightarrow> (My402List \<times> 'o heap) option" where
  "My402ListUnlink list elem h = do {
     e \<leftarrow> load h elem;
     let previous = prv e;
     let nextelement = nxt e;
     h \<leftarrow> set_nxt h previous nextelement;
     h \<leftarrow> set_prv h nextelement previous;
     h \<leftarrow> free h elem;
     Some (list\<lparr>num_members := num_members list - 1\<rparr>, h)
   }"

text \<open>The loop of \<open>My402ListUnlinkAll\<close>: the heap and \<open>header\<close> when it stops.\<close>

partial_function (option) UnlinkAll_loop :: "addr \<Rightarrow> addr \<Rightarrow> 'o heap \<Rightarrow> (addr \<times> 'o heap) option" where
  "UnlinkAll_loop a header h = do {
     e \<leftarrow> load h header;
     if nxt e \<noteq> a then do {
       let headernext = nxt e;
       h \<leftarrow> set_prv h headernext header;
       h \<leftarrow> set_nxt h a headernext;
       h \<leftarrow> set_prv h headernext a;
       h \<leftarrow> free h header;
       UnlinkAll_loop a headernext h
     } else Some (header, h)
   }"

definition My402ListUnlinkAll :: "My402List \<Rightarrow> 'o heap \<Rightarrow> (My402List \<times> 'o heap) option" where
  "My402ListUnlinkAll list h =
     (if num_members list = 0 then Some (list, h)
      else do {
        a \<leftarrow> load h (anchor list);
        let header = nxt a;
        _ \<leftarrow> load h header;
        (header, h) \<leftarrow> UnlinkAll_loop (anchor list) header h;
        h \<leftarrow> free h header;
        h \<leftarrow> set_nxt h (anchor list) (anchor list);
        h \<leftarrow> set_prv h (anchor list) (anchor list);
        Some (list\<lparr>num_members := 0\<rparr>, h)
      })"

definition My402ListInsertAfter ::
  "'o malloc_fun \<Rightarrow> My402List \<Rightarrow> 'o \<Rightarrow> addr \<Rightarrow> 'o heap \<Rightarrow> (int \<times> My402List \<times> 'o heap) option" where
  "My402ListInsertAfter malloc list object element h =
     (if element = NULL then My402ListAppend malloc list object h
      else let temp = malloc h in
      if temp = NULL then Some (FALSE, list, h)
      else do {
        let h = h(temp \<mapsto> \<lparr>obj = object, nxt = NULL, prv = NULL\<rparr>);
        e \<leftarrow> load h element;
        let nextelement = nxt e;
        h \<leftarrow> set_nxt h element temp;
        h \<leftarrow> set_prv h temp element;
        h \<leftarrow> set_nxt h temp nextelement;
        h \<leftarrow> set_prv h nextelement temp;
        Some (TRUE, list\<lparr>num_members := num_members list + 1\<rparr>, h)
      })"

definition My402ListInsertBefore ::
  "'o malloc_fun \<Rightarrow> My402List \<Rightarrow> 'o \<Rightarrow> addr \<Rightarrow> 'o heap \<Rightarrow> (int \<times> My402List \<times> 'o heap) option" where
  "My402ListInsertBefore malloc list object element h =
     (if element = NULL then My402ListPrepend malloc list object h
      else let temp = malloc h in
      if temp = NULL then Some (FALSE, list, h)
      else do {
        let h = h(temp \<mapsto> \<lparr>obj = object, nxt = NULL, prv = NULL\<rparr>);
        e \<leftarrow> load h element;
        let prevelement = prv e;
        h \<leftarrow> set_prv h element temp;
        h \<leftarrow> set_nxt h temp element;
        h \<leftarrow> set_prv h temp prevelement;
        h \<leftarrow> set_nxt h prevelement temp;
        Some (TRUE, list\<lparr>num_members := num_members list + 1\<rparr>, h)
      })"

definition My402ListFirst :: "My402List \<Rightarrow> 'o heap \<Rightarrow> addr option" where
  "My402ListFirst list h =
     (if num_members list = 0 then Some NULL
      else do { a \<leftarrow> load h (anchor list); Some (nxt a) })"

definition My402ListLast :: "My402List \<Rightarrow> 'o heap \<Rightarrow> addr option" where
  "My402ListLast list h =
     (if num_members list = 0 then Some NULL
      else do { a \<leftarrow> load h (anchor list); Some (prv a) })"

definition My402ListNext :: "My402List \<Rightarrow> addr \<Rightarrow> 'o heap \<Rightarrow> addr option" where
  "My402ListNext list element h = do {
     e \<leftarrow> load h element;
     Some (if nxt e = anchor list then NULL else nxt e)
   }"

definition My402ListPrev :: "My402List \<Rightarrow> addr \<Rightarrow> 'o heap \<Rightarrow> addr option" where
  "My402ListPrev list element h = do {
     e \<leftarrow> load h element;
     Some (if prv e = anchor list then NULL else prv e)
   }"

text \<open>
  The loop of \<open>My402ListFind\<close> returns the element found inside the loop, or the element
  \<open>temp\<close> at which it stops together with the fact that nothing was found before it.
\<close>

partial_function (option) Find_loop :: "addr \<Rightarrow> 'o \<Rightarrow> addr \<Rightarrow> 'o heap \<Rightarrow> (bool \<times> addr) option" where
  "Find_loop a object temp h = do {
     e \<leftarrow> load h temp;
     if nxt e \<noteq> a then
       (if obj e = object then Some (True, temp) else Find_loop a object (nxt e) h)
     else Some (False, temp)
   }"

definition My402ListFind :: "My402List \<Rightarrow> 'o \<Rightarrow> 'o heap \<Rightarrow> addr option" where
  "My402ListFind list object h = do {
     a \<leftarrow> load h (anchor list);
     (found, temp) \<leftarrow> Find_loop (anchor list) object (nxt a) h;
     if found then Some temp
     else do {
       e \<leftarrow> load h temp;
       Some (if obj e = object then temp else NULL)
     }
   }"

text \<open>\<open>list\<close> is the address of the anchor here; the member count is part of the result.\<close>

definition My402ListInit :: "My402List option \<Rightarrow> 'o heap \<Rightarrow> (int \<times> My402List option \<times> 'o heap) option" where
  "My402ListInit list h =
     (case list of
        None \<Rightarrow> Some (FALSE, None, h)
      | Some l \<Rightarrow> do {
          h \<leftarrow> set_nxt h (anchor l) (anchor l);
          h \<leftarrow> set_prv h (anchor l) (anchor l);
          Some (TRUE, Some (l\<lparr>num_members := 0\<rparr>), h)
        })"

section \<open>What the operations do\<close>

lemma Append_eq:
  assumes r: "repr h list xs" and t: "malloc h \<noteq> NULL" "h (malloc h) = None"
  shows "My402ListAppend malloc list x h =
    Some (TRUE, inc list, linked h (lastp (anchor list) xs) (anchor list) (malloc h) x)"
proof -
  have r': "ring h (anchor list) xs" using r by (simp add: repr_def)
  show ?thesis
    by (rule ring_ends [OF r'])
      (use ring_not_fresh [OF r' t(2)] t in \<open>auto simp: My402ListAppend_def linked_def heap_exec Let_def fun_eq_iff\<close>)
qed

lemma Prepend_eq:
  assumes r: "repr h list xs" and t: "malloc h \<noteq> NULL" "h (malloc h) = None"
  shows "My402ListPrepend malloc list x h =
    Some (TRUE, inc list, linked h (anchor list) (firstp (anchor list) xs) (malloc h) x)"
proof -
  have r': "ring h (anchor list) xs" using r by (simp add: repr_def)
  show ?thesis
    by (rule ring_ends [OF r'])
      (use ring_not_fresh [OF r' t(2)] t in \<open>auto simp: My402ListPrepend_def linked_def heap_exec Let_def fun_eq_iff\<close>)
qed

lemma InsertAfter_eq:
  assumes r: "repr h list (us @ (p, y) # vs)" and t: "malloc h \<noteq> NULL" "h (malloc h) = None"
  shows "My402ListInsertAfter malloc list x p h =
    Some (TRUE, inc list, linked h p (firstp (anchor list) vs) (malloc h) x)"
  by (rule node_ends [OF r])
    (use t in \<open>auto simp: My402ListInsertAfter_def linked_def heap_exec Let_def fun_eq_iff\<close>)

lemma InsertBefore_eq:
  assumes r: "repr h list (us @ (p, y) # vs)" and t: "malloc h \<noteq> NULL" "h (malloc h) = None"
  shows "My402ListInsertBefore malloc list x p h =
    Some (TRUE, inc list, linked h (lastp (anchor list) us) p (malloc h) x)"
  by (rule node_ends [OF r])
    (use t in \<open>auto simp: My402ListInsertBefore_def linked_def heap_exec Let_def fun_eq_iff\<close>)

lemma Unlink_eq:
  assumes r: "repr h list (us @ (p, y) # vs)"
  shows "My402ListUnlink list p h =
    Some (dec list, unlinked h (lastp (anchor list) us) p (firstp (anchor list) vs))"
  by (rule node_ends [OF r])
    (auto simp: My402ListUnlink_def unlinked_def heap_exec Let_def fun_eq_iff)

lemma First_eq: "repr h list xs \<Longrightarrow> My402ListFirst list h = Some (first_addr xs)"
  by (rule ring_ends [of h "anchor list" xs])
    (auto simp: repr_def My402ListFirst_def first_addr_def firstp_def)

lemma Last_eq: "repr h list xs \<Longrightarrow> My402ListLast list h = Some (last_addr xs)"
  by (rule ring_ends [of h "anchor list" xs])
    (auto simp: repr_def My402ListLast_def last_addr_def lastp_def)

lemma Next_eq:
  assumes "repr h list (us @ (p, y) # vs)"
  shows "My402ListNext list p h = Some (first_addr vs)"
proof -
  have "firstp (anchor list) vs = anchor list \<longleftrightarrow> vs = []"
    using repr_anchor_notin [OF assms] by (intro firstp_eq_anchor) auto
  note e = this
  show ?thesis
    by (rule node_ends [OF assms]) (use e in \<open>auto simp: My402ListNext_def first_addr_def firstp_def\<close>)
qed

lemma Prev_eq:
  assumes "repr h list (us @ (p, y) # vs)"
  shows "My402ListPrev list p h = Some (last_addr us)"
proof -
  have "lastp (anchor list) us = anchor list \<longleftrightarrow> us = []"
    using repr_anchor_notin [OF assms] by (intro lastp_eq_anchor) auto
  note e = this
  show ?thesis
    by (rule node_ends [OF assms]) (use e in \<open>auto simp: My402ListPrev_def last_addr_def lastp_def\<close>)
qed

lemma Empty_eq: "repr h list xs \<Longrightarrow> My402ListEmpty list h = Some (if xs = [] then TRUE else FALSE)"
  by (rule ring_ends [of h "anchor list" xs]) (auto simp: repr_def My402ListEmpty_def)

lemma Length_eq: "repr h list xs \<Longrightarrow> My402ListLength list = int (length xs)"
  by (simp add: repr_def My402ListLength_def)

lemma Find_loop_at:
  "p \<noteq> NULL \<Longrightarrow> h p = Some e \<Longrightarrow> Find_loop a x p h =
     (if nxt e \<noteq> a then if obj e = x then Some (True, p) else Find_loop a x (nxt e) h
      else Some (False, p))"
  by (subst Find_loop.simps) simp

lemma Find_loop_eq:
  assumes "repr h list (us @ (p, y) # vs)"
  shows "\<exists>found q e. Find_loop (anchor list) x p h = Some (found, q) \<and> h q = Some e \<and> q \<noteq> NULL \<and>
    (if found then q else if obj e = x then q else NULL) = find_addr x ((p, y) # vs)"
  using assms
proof (induction vs arbitrary: us p y)
  case Nil
  obtain ep where "p \<noteq> NULL" "h p = Some ep" "obj ep = y" "nxt ep = anchor list"
    by (rule node_ends [OF Nil]) (simp add: firstp_def)
  then show ?case
    using Find_loop_at [of p h ep "anchor list" x] by auto
next
  case (Cons v vs)
  obtain q z where v: "v = (q, z)" by force
  have "repr h list ((us @ [(p, y)]) @ (q, z) # vs)"
    using Cons.prems v by simp
  note IH = Cons.IH [OF this]
  have "q \<noteq> anchor list"
    using repr_anchor_notin [OF Cons.prems] v by auto
  moreover obtain ep where "p \<noteq> NULL" "h p = Some ep" "obj ep = y" "nxt ep = q"
    by (rule node_ends [OF Cons.prems]) (simp add: firstp_def v)
  ultimately show ?case
    using IH v Find_loop_at [of p h ep "anchor list" x] by (cases "y = x") auto
qed

lemma Find_eq:
  assumes "repr h list xs" "xs \<noteq> []"
  shows "My402ListFind list x h = Some (find_addr x xs)"
proof -
  obtain p y vs where xs: "xs = (p, y) # vs" using assms(2) by (cases xs) auto
  obtain ea where a: "anchor list \<noteq> NULL" "h (anchor list) = Some ea" "nxt ea = p"
    using assms xs by (auto simp: repr_def firstp_def elim!: ring_ends)
  obtain found q e where "Find_loop (anchor list) x p h = Some (found, q)" "h q = Some e" "q \<noteq> NULL"
    "(if found then q else if obj e = x then q else NULL) = find_addr x xs"
    using Find_loop_eq [of h list "[]" p y vs x] assms(1) xs by auto
  with a show ?thesis
    by (cases found) (simp_all add: My402ListFind_def)
qed

lemma Find_empty:
  assumes "repr h list []"
  shows "\<exists>ea. h (anchor list) = Some ea \<and>
    My402ListFind list x h = Some (if obj ea = x then anchor list else NULL)"
proof -
  obtain ea where a: "anchor list \<noteq> NULL" "h (anchor list) = Some ea" "nxt ea = anchor list"
    using assms by (auto simp: repr_def firstp_def elim!: ring_ends)
  then have "Find_loop (anchor list) x (anchor list) h = Some (False, anchor list)"
    using Find_loop_at [of "anchor list" h ea "anchor list" x] by simp
  with a show ?thesis
    by (simp add: My402ListFind_def)
qed

lemma UnlinkAll_loop_step:
  assumes "repr h list ((p, y) # (q, z) # vs)"
  shows "UnlinkAll_loop (anchor list) p h = UnlinkAll_loop (anchor list) q (unlinked h (anchor list) p q)"
proof -
  have r: "repr h list ([] @ (p, y) # (q, z) # vs)" using assms by simp
  have aq: "anchor list \<noteq> q"
    using repr_anchor_notin [of h list "[]" "(p, y) # (q, z) # vs"] assms by auto
  obtain ep el ef where e: "p \<noteq> NULL" "h p = Some ep" "nxt ep = q" "prv ep = anchor list"
    "anchor list \<noteq> NULL" "h (anchor list) = Some el" "nxt el = p" "q \<noteq> NULL" "h q = Some ef" "prv ef = p"
    "p \<noteq> anchor list" "q \<noteq> p"
    by (rule node_ends [OF r]) (auto simp: firstp_def lastp_def)
  have u: "unlinked h (anchor list) p q =
    h(q \<mapsto> ef\<lparr>prv := p\<rparr>, anchor list \<mapsto> el\<lparr>nxt := q\<rparr>, q \<mapsto> ef\<lparr>prv := anchor list\<rparr>, p := None)"
    using e aq by (auto simp: unlinked_def Let_def fun_eq_iff)
  show ?thesis
    unfolding u using e aq
    by (subst UnlinkAll_loop.simps) (simp add: heap_exec)
qed

lemma UnlinkAll_loop_ends:
  assumes "repr h list ((p, y) # vs)"
  shows "\<exists>list' h' q z. UnlinkAll_loop (anchor list) p h = Some (q, h') \<and> anchor list' = anchor list \<and>
    repr h' list' [(q, z)] \<and> frame h h' (nodes list ((p, y) # vs)) \<and>
    q \<in> fst ` set ((p, y) # vs) \<and> (\<forall>r \<in> fst ` set ((p, y) # vs). r \<noteq> q \<longrightarrow> h' r = None)"
  using assms
proof (induction vs arbitrary: h list p y)
  case Nil
  then have "repr h list ([] @ (p, y) # [])" by simp
  then have "UnlinkAll_loop (anchor list) p h = Some (p, h)"
    by (rule node_ends) (auto simp: UnlinkAll_loop.simps [of "anchor list" p h] firstp_def)
  then show ?case
    using Nil by (auto simp: frame_def)
next
  case (Cons v vs)
  obtain q z where v: "v = (q, z)" by force
  let ?h = "unlinked h (anchor list) p q"
  have r: "repr h list ([] @ (p, y) # (q, z) # vs)" using Cons.prems v by simp
  have u: "repr ?h (dec list) ((q, z) # vs)" "frame h ?h (nodes list ((p, y) # (q, z) # vs))" "?h p = None"
    using repr_unlinked [OF r] by (simp_all add: lastp_def firstp_def)
  obtain list' h' q' z' where IH: "UnlinkAll_loop (anchor (dec list)) q ?h = Some (q', h')"
    "anchor list' = anchor (dec list)" "repr h' list' [(q', z')]"
    "frame ?h h' (nodes (dec list) ((q, z) # vs))" "q' \<in> fst ` set ((q, z) # vs)"
    "\<forall>r \<in> fst ` set ((q, z) # vs). r \<noteq> q' \<longrightarrow> h' r = None"
    using Cons.IH [OF u(1)] by blast
  have d: "p \<notin> nodes (dec list) ((q, z) # vs)"
    using r ring_addrs [of h "anchor list" "(p, y) # (q, z) # vs"] by (auto simp: repr_def nodes_def)
  then have "h' p = None" using IH(4) u(3) by (simp add: frame_def)
  moreover have "frame h h' (nodes list ((p, y) # (q, z) # vs))"
    using IH(4) u(2) by (auto simp: frame_def nodes_def)
  moreover have "UnlinkAll_loop (anchor list) p h = Some (q', h')"
    using UnlinkAll_loop_step [OF Cons.prems [unfolded v]] IH(1) by simp
  ultimately show ?case
    using IH v by auto
qed

lemma UnlinkAll_repr:
  assumes "repr h list xs"
  shows "\<exists>h'. My402ListUnlinkAll list h = Some (list\<lparr>num_members := 0\<rparr>, h') \<and>
    repr h' (list\<lparr>num_members := 0\<rparr>) [] \<and> frame h h' (nodes list xs) \<and> (\<forall>p \<in> fst ` set xs. h' p = None)"
proof (cases xs)
  case Nil
  with assms show ?thesis
    by (intro exI [of _ h]) (auto simp: My402ListUnlinkAll_def repr_def frame_def)
next
  case (Cons v vs)
  obtain p y where v: "v = (p, y)" by force
  obtain list' h1 q z where l: "UnlinkAll_loop (anchor list) p h = Some (q, h1)"
    "anchor list' = anchor list" "repr h1 list' [(q, z)]" "frame h h1 (nodes list xs)" "q \<in> fst ` set xs"
    "\<forall>r \<in> fst ` set xs. r \<noteq> q \<longrightarrow> h1 r = None"
    using UnlinkAll_loop_ends [of h list p y vs] assms unfolding Cons v by blast
  obtain ea ep where a: "anchor list \<noteq> NULL" "h (anchor list) = Some ea" "nxt ea = p" "p \<noteq> NULL" "h p = Some ep"
    using assms Cons v by (auto simp: repr_def firstp_def elim!: ring_ends)
  have "repr h1 list' ([] @ (q, z) # [])" using l(3) by simp
  then obtain eq ea1 where q: "q \<noteq> NULL" "h1 q = Some eq" "q \<noteq> anchor list" "h1 (anchor list) = Some ea1"
    by (rule node_ends) (use l(2) in \<open>auto simp: lastp_def\<close>)
  define h' where "h' = (h1(q := None))(anchor list \<mapsto> ea1\<lparr>nxt := anchor list, prv := anchor list\<rparr>)"
  have "My402ListUnlinkAll list h = Some (list\<lparr>num_members := 0\<rparr>, h')"
    using a l(1) q assms Cons by (auto simp: My402ListUnlinkAll_def repr_def heap_exec h'_def)
  moreover have "repr h' (list\<lparr>num_members := 0\<rparr>) []"
    using a(1) by (simp add: repr_def ring_def h'_def nx_def pv_def)
  moreover have "frame h h' (nodes list xs)"
    using l(4,5) by (auto simp: frame_def h'_def nodes_def)
  moreover have "\<forall>p \<in> fst ` set xs. h' p = None"
    using l(6) repr_anchor_notin [of h list "[]" xs] assms by (auto simp: h'_def rev_image_eqI)
  ultimately show ?thesis by blast
qed

lemma Init_repr:
  assumes "anchor list \<noteq> NULL" "h (anchor list) = Some e"
  shows "\<exists>h'. My402ListInit (Some list) h = Some (TRUE, Some (list\<lparr>num_members := 0\<rparr>), h') \<and>
    repr h' (list\<lparr>num_members := 0\<rparr>) [] \<and> frame h h' {anchor list}"
proof (intro exI conjI)
  let ?h = "h(anchor list \<mapsto> e\<lparr>nxt := anchor list, prv := anchor list\<rparr>)"
  show "My402ListInit (Some list) h = Some (TRUE, Some (list\<lparr>num_members := 0\<rparr>), ?h)"
    using assms by (simp add: My402ListInit_def heap_exec)
  show "repr ?h (list\<lparr>num_members := 0\<rparr>) []"
    using assms by (simp add: repr_def ring_def nx_def pv_def)
  show "frame h ?h {anchor list}"
    by (simp add: frame_def)
qed

interpretation w1: elem_list
  My402ListAppend My402ListUnlink My402ListFirst My402ListLength My402ListPrepend
  My402ListInsertAfter My402ListInsertBefore My402ListLast My402ListNext My402ListPrev
proof
  fix h :: "'o heap" and list :: My402List and xs us vs :: "(addr \<times> 'o) list"
    and malloc :: "'o malloc_fun" and x y :: 'o and p :: addr
  show "My402ListFirst list h = Some (first_addr xs)" "My402ListLength list = int (length xs)"
    "My402ListLast list h = Some (last_addr xs)" if "repr h list xs"
    using that by (rule First_eq, rule Length_eq, rule Last_eq)
  show "My402ListAppend malloc list x h = Some (FALSE, list, h)" if "malloc h = NULL"
    using that by (simp add: My402ListAppend_def)
  show "\<exists>h'. My402ListUnlink list p h = Some (dec list, h') \<and> repr h' (dec list) (us @ vs) \<and>
      frame h h' (nodes list (us @ (p, y) # vs)) \<and> h' p = None" if "repr h list (us @ (p, y) # vs)"
    using Unlink_eq [OF that] repr_unlinked [OF that] by blast
  show "My402ListNext list p h = Some (first_addr vs)" "My402ListPrev list p h = Some (last_addr us)"
    if "repr h list (us @ (p, y) # vs)"
    using that by (rule Next_eq, rule Prev_eq)
  assume t: "malloc h \<noteq> NULL" "h (malloc h) = None"
  show "\<exists>h'. My402ListAppend malloc list x h = Some (TRUE, inc list, h') \<and>
      repr h' (inc list) (xs @ [(malloc h, x)]) \<and> frame h h' (insert (malloc h) (nodes list xs))"
    if "repr h list xs"
    using repr_linked [of h list xs "[]" "malloc h" x] Append_eq [where malloc = malloc, OF that t] that t
    by (simp add: firstp_def)
  show "\<exists>h'. My402ListPrepend malloc list x h = Some (TRUE, inc list, h') \<and>
      repr h' (inc list) ((malloc h, x) # xs) \<and> frame h h' (insert (malloc h) (nodes list xs))"
    if "repr h list xs"
    using repr_linked [of h list "[]" xs "malloc h" x] Prepend_eq [where malloc = malloc, OF that t] that t
    by (simp add: lastp_def)
  show "\<exists>h'. My402ListInsertAfter malloc list x p h = Some (TRUE, inc list, h') \<and>
      repr h' (inc list) (us @ (p, y) # (malloc h, x) # vs) \<and>
      frame h h' (insert (malloc h) (nodes list (us @ (p, y) # vs)))" if "repr h list (us @ (p, y) # vs)"
    using repr_linked [of h list "us @ [(p, y)]" vs "malloc h" x]
      InsertAfter_eq [where malloc = malloc, OF that t] that t
    by (simp add: lastp_def)
  show "\<exists>h'. My402ListInsertBefore malloc list x p h = Some (TRUE, inc list, h') \<and>
      repr h' (inc list) (us @ (malloc h, x) # (p, y) # vs) \<and>
      frame h h' (insert (malloc h) (nodes list (us @ (p, y) # vs)))" if "repr h list (us @ (p, y) # vs)"
    using repr_linked [of h list us "(p, y) # vs" "malloc h" x]
      InsertBefore_eq [where malloc = malloc, OF that t] that t
    by (simp add: firstp_def)
qed

section \<open>Properties of the list\<close>

definition one_ring :: "nat heap" where
  "one_ring = [1 \<mapsto> \<lparr>obj = 0, nxt = 2, prv = 2\<rparr>, 2 \<mapsto> \<lparr>obj = 7, nxt = 1, prv = 1\<rparr>]"

definition one_list :: My402List where
  "one_list = \<lparr>num_members = 1, anchor = 1\<rparr>"

lemma repr_one: "repr one_ring one_list [(2, 7)]"
  by (simp add: repr_def ring_def one_ring_def one_list_def nx_def pv_def ob_def)

text \<open>
  C23.  Every way of inserting an object at a place of the list (\<open>My402ListAppend\<close> at the end,
  \<open>My402ListPrepend\<close> at the front, \<open>My402ListInsertAfter\<close> the element before it,
  \<open>My402ListInsertBefore\<close> the element after it) succeeds when \<open>malloc\<close> does, ends in one and the
  same heap, in which the list has exactly the new element at that place and \<open>num_members\<close> is
  one more, and no address outside the list and the new element changes.
\<close>

theorem insertions_refine:
  assumes r: "repr h list (us @ vs)" and t: "malloc h \<noteq> NULL" "h (malloc h) = None"
  shows "\<exists>h'. repr h' (inc list) (us @ (malloc h, x) # vs) \<and>
    frame h h' (insert (malloc h) (nodes list (us @ vs))) \<and>
    (vs = [] \<longrightarrow> My402ListAppend malloc list x h = Some (TRUE, inc list, h')) \<and>
    (us = [] \<longrightarrow> My402ListPrepend malloc list x h = Some (TRUE, inc list, h')) \<and>
    (us \<noteq> [] \<longrightarrow> My402ListInsertAfter malloc list x (last_addr us) h = Some (TRUE, inc list, h')) \<and>
    (vs \<noteq> [] \<longrightarrow> My402ListInsertBefore malloc list x (first_addr vs) h = Some (TRUE, inc list, h'))"
proof (intro exI conjI impI)
  let ?h = "linked h (lastp (anchor list) us) (firstp (anchor list) vs) (malloc h) x"
  show "repr ?h (inc list) (us @ (malloc h, x) # vs)" "frame h ?h (insert (malloc h) (nodes list (us @ vs)))"
    using repr_linked [OF r t] by auto
  show "My402ListAppend malloc list x h = Some (TRUE, inc list, ?h)" if "vs = []"
    using Append_eq [where malloc = malloc, OF _ t, of list us x] r that by (simp add: firstp_def)
  show "My402ListPrepend malloc list x h = Some (TRUE, inc list, ?h)" if "us = []"
    using Prepend_eq [where malloc = malloc, OF _ t, of list vs x] r that by (simp add: lastp_def)
  show "My402ListInsertAfter malloc list x (last_addr us) h = Some (TRUE, inc list, ?h)" if "us \<noteq> []"
  proof -
    have "us = butlast us @ [(fst (last us), snd (last us))]" using that by simp
    then have "repr h list (butlast us @ (fst (last us), snd (last us)) # vs)"
      using r by (metis append.assoc append_Cons append_Nil)
    from InsertAfter_eq [where malloc = malloc, OF this t] show ?thesis
      using that by (simp add: lastp_def last_addr_def)
  qed
  show "My402ListInsertBefore malloc list x (first_addr vs) h = Some (TRUE, inc list, ?h)" if "vs \<noteq> []"
  proof -
    have "vs = (fst (hd vs), snd (hd vs)) # tl vs" using that by simp
    then have "repr h list (us @ (fst (hd vs), snd (hd vs)) # tl vs)" using r by metis
    from InsertBefore_eq [where malloc = malloc, OF this t] show ?thesis
      using that by (simp add: firstp_def first_addr_def)
  qed
qed

theorem insertions_refine_witness:
  "repr one_ring one_list ([(2, 7)] @ []) \<and> (\<lambda>_. 3) one_ring \<noteq> NULL \<and> one_ring ((\<lambda>_. 3) one_ring) = None \<and>
   (\<exists>h'. repr h' (inc one_list) [(2, 7), (3, 9)] \<and>
      My402ListAppend (\<lambda>_. 3) one_list 9 one_ring = Some (TRUE, inc one_list, h') \<and>
      My402ListInsertAfter (\<lambda>_. 3) one_list 9 2 one_ring = Some (TRUE, inc one_list, h'))"
proof -
  have r: "repr one_ring one_list ([(2, 7)] @ [])" using repr_one by simp
  have t: "(\<lambda>_ :: nat heap. 3 :: nat) one_ring \<noteq> NULL" "one_ring ((\<lambda>_ :: nat heap. 3 :: nat) one_ring) = None"
    by (simp_all add: one_ring_def)
  show ?thesis
    using r t insertions_refine [where malloc = "\<lambda>_. 3" and x = 9, OF r t] by (auto simp: last_addr_def)
qed

text \<open>
  When \<open>malloc\<close> fails, each of the four insertions returns \<open>FALSE\<close> and changes nothing.
\<close>

theorem insertions_fail_safe:
  assumes "malloc h = NULL"
  shows "My402ListAppend malloc list x h = Some (FALSE, list, h) \<and>
    My402ListPrepend malloc list x h = Some (FALSE, list, h) \<and>
    My402ListInsertAfter malloc list x p h = Some (FALSE, list, h) \<and>
    My402ListInsertBefore malloc list x p h = Some (FALSE, list, h)"
  using assms
  by (simp add: My402ListAppend_def My402ListPrepend_def My402ListInsertAfter_def My402ListInsertBefore_def)

theorem insertions_fail_safe_witness:
  "(\<lambda>_. NULL) one_ring = NULL \<and> My402ListAppend (\<lambda>_. NULL) one_list 9 one_ring = Some (FALSE, one_list, one_ring)"
  using insertions_fail_safe [of "\<lambda>_. NULL" one_ring one_list 9 2] by simp

text \<open>
  C25.  \<open>My402ListUnlink\<close> of an element of the list removes exactly that element and frees it;
  unlinking an element right after it was inserted gives back the list there was.
\<close>

theorem unlink_refines:
  assumes "repr h list (us @ (p, y) # vs)"
  shows "\<exists>h'. My402ListUnlink list p h = Some (dec list, h') \<and> repr h' (dec list) (us @ vs) \<and>
    h' p = None \<and> frame h h' (nodes list (us @ (p, y) # vs))"
  using w1.unlink_law [OF assms] by blast

theorem unlink_refines_witness:
  "repr one_ring one_list ([] @ (2, 7) # []) \<and>
   (\<exists>h'. My402ListUnlink one_list 2 one_ring = Some (dec one_list, h') \<and> repr h' (dec one_list) [] \<and> h' 2 = None)"
  using unlink_refines [of one_ring one_list "[]" 2 7 "[]"] repr_one by auto

text \<open>
  \<open>My402ListUnlinkAll\<close> always returns on a list; afterwards the list is empty, every
  element it had is freed and no other address has changed.
\<close>

theorem unlink_all_refines:
  assumes "repr h list xs"
  shows "\<exists>h'. My402ListUnlinkAll list h = Some (list\<lparr>num_members := 0\<rparr>, h') \<and>
    repr h' (list\<lparr>num_members := 0\<rparr>) [] \<and> (\<forall>p \<in> fst ` set xs. h' p = None) \<and> frame h h' (nodes list xs)"
  using UnlinkAll_repr [OF assms] by blast

theorem unlink_all_refines_witness:
  "repr one_ring one_list [(2, 7)] \<and>
   (\<exists>h'. My402ListUnlinkAll one_list one_ring = Some (one_list\<lparr>num_members := 0\<rparr>, h') \<and> h' 2 = None)"
  using unlink_all_refines [OF repr_one] repr_one by auto

text \<open>
  On a list that is not empty \<open>My402ListFind\<close> returns, and returns the address of the
  first element that holds the object: \<open>NULL\<close> exactly when no element holds it.
\<close>

theorem find_refines:
  assumes r: "repr h list xs" and ne: "xs \<noteq> []"
  shows "My402ListFind list x h = Some (find_addr x xs) \<and> (find_addr x xs = NULL \<longleftrightarrow> x \<notin> snd ` set xs)"
proof
  show "My402ListFind list x h = Some (find_addr x xs)" by (rule Find_eq [OF assms])
  have "NULL \<notin> fst ` set xs" using r ring_addrs(3) by (auto simp: repr_def)
  then show "find_addr x xs = NULL \<longleftrightarrow> x \<notin> snd ` set xs"
    by (induction x xs rule: find_addr.induct) auto
qed

theorem find_refines_witness:
  "repr one_ring one_list [(2, 7)] \<and> My402ListFind one_list 7 one_ring = Some 2"
  using find_refines [OF repr_one, of 7] repr_one by simp

text \<open>
  \<open>My402ListFirst\<close>, \<open>Last\<close>, \<open>Next\<close>, \<open>Prev\<close>, \<open>Length\<close> and \<open>Empty\<close> read the list: they give
  the ends, the neighbours of the element at every position (\<open>NULL\<close> past the ends), the
  number of elements, and whether there is none.
\<close>

theorem traversal_refines:
  assumes r: "repr h list xs"
  shows "My402ListFirst list h = Some (first_addr xs) \<and> My402ListLast list h = Some (last_addr xs) \<and>
    (\<forall>i < length xs.
       My402ListNext list (fst (xs ! i)) h = Some (if Suc i < length xs then fst (xs ! Suc i) else NULL) \<and>
       My402ListPrev list (fst (xs ! i)) h = Some (if i = 0 then NULL else fst (xs ! (i - 1)))) \<and>
    My402ListLength list = int (length xs) \<and>
    My402ListEmpty list h = Some (if xs = [] then TRUE else FALSE)"
proof (intro conjI allI impI)
  fix i assume i: "i < length xs"
  have r': "repr h list (take i xs @ (fst (xs ! i), snd (xs ! i)) # drop (Suc i) xs)"
    using r i by (simp add: id_take_nth_drop [symmetric])
  show "My402ListNext list (fst (xs ! i)) h = Some (if Suc i < length xs then fst (xs ! Suc i) else NULL)"
    using Next_eq [OF r'] i by (auto simp: first_addr_def hd_drop_conv_nth)
  show "My402ListPrev list (fst (xs ! i)) h = Some (if i = 0 then NULL else fst (xs ! (i - 1)))"
    using Prev_eq [OF r'] i by (auto simp: last_addr_def last_conv_nth min_def)
qed (use First_eq [OF r] Last_eq [OF r] Length_eq [OF r] Empty_eq [OF r] in simp_all)

theorem traversal_refines_witness:
  "repr one_ring one_list [(2, 7)] \<and> My402ListFirst one_list one_ring = Some 2 \<and>
   My402ListNext one_list 2 one_ring = Some NULL"
  using traversal_refines [OF repr_one] repr_one by (simp add: first_addr_def)

end
