(* ===== verification/List402T.thy ===== *)
theory List402T
  imports List402
begin

text \<open>
  The second copy of the list, \<^verbatim>\<open>src/Threading/my402list.c\<close>, which the
  token-bucket emulation links.  It has the same interface as
  \<^verbatim>\<open>src/warmup1/my402list.c\<close> but its own text: it decides emptiness by
  \<open>num_members\<close>, its loops stop at the anchor, and an insertion next to \<open>NULL\<close> allocates one
  element that it never uses.  Its definitions carry the suffix \<open>T\<close>.  A fresh element is
  written as a whole; its link fields are indeterminate in C until they are assigned and
  \<open>NULL\<close> here.
\<close>

section \<open>The operations\<close>

definition My402ListLengthT :: "My402List \<Rightarrow> int" where
  "My402ListLengthT list = num_members list"

definition My402ListEmptyT :: "My402List \<Rightarrow> int" where
  "My402ListEmptyT list = (if num_members list = 0 then TRUE else FALSE)"

definition My402ListAppendT ::
  "'o malloc_fun \<Rightarrow> My402List \<Rightarrow> 'o \<Rightarrow> 'o heap \<Rightarrow> (int \<times> My402List \<times> 'o heap) option" where
  "My402ListAppendT malloc list object h =
     (let temp = malloc h in
      if temp = NULL then Some (FALSE, list, h)
      else do {
        let h = h(temp \<mapsto> \<lparr>obj = object, nxt = NULL, prv = NULL\<rparr>);
        if num_members list = 0 then do {
          h \<leftarrow> set_nxt h temp (anchor list);
          h \<leftarrow> set_prv h temp (anchor list);
          h \<leftarrow> set_nxt h (anchor list) temp;
          h \<leftarrow> set_prv h (anchor list) temp;
          Some (TRUE, list\<lparr>num_members := num_members list + 1\<rparr>, h)
        } else do {
          h \<leftarrow> set_nxt h temp (anchor list);
          a \<leftarrow> load h (anchor list);
          h \<leftarrow> set_prv h temp (prv a);
          a \<leftarrow> load h (anchor list);
          h \<leftarrow> set_nxt h (prv a) temp;
          h \<leftarrow> set_prv h (anchor list) temp;
          Some (TRUE, list\<lparr>num_members := num_members list + 1\<rparr>, h)
        }
      })"

definition My402ListPrependT ::
  "'o malloc_fun \<Rightarrow> My402List \<Rightarrow> 'o \<Rightarrow> 'o heap \<Rightarrow> (int \<times> My402List \<times> 'o heap) option" where
  "My402ListPrependT malloc list object h =
     (let temp = malloc h in
      if temp = NULL then Some (FALSE, list, h)
      else do {
        let h = h(temp \<mapsto> \<lparr>obj = object, nxt = NULL, prv = NULL\<rparr>);
        if num_members list = 0 then do {
          h \<leftarrow> set_nxt h temp (anchor list);
          h \<leftarrow> set_prv h temp (anchor list);
          h \<leftarrow> set_nxt h (anchor list) temp;
          h \<leftarrow> set_prv h (anchor list) temp;
          Some (TRUE, list\<lparr>num_members := num_members list + 1\<rparr>, h)
        } else do {
          a \<leftarrow> load h (anchor list);
          h \<leftarrow> set_nxt h temp (nxt a);
          h \<leftarrow> set_prv h temp (anchor list);
          a \<leftarrow> load h (anchor list);
          h \<leftarrow> set_prv h (nxt a) temp;
          h \<leftarrow> set_nxt h (anchor list) temp;
          Some (TRUE, list\<lparr>num_members := num_members list + 1\<rparr>, h)
        }
      })"

definition My402ListFirstT :: "My402List \<Rightarrow> 'o heap \<Rightarrow> addr option" where
  "My402ListFirstT list h =
     (if num_members list = 0 then Some NULL
      else do { a \<leftarrow> load h (anchor list); Some (nxt a) })"

definition My402ListLastT :: "My402List \<Rightarrow> 'o heap \<Rightarrow> addr option" where
  "My402ListLastT list h =
     (if num_members list = 0 then Some NULL
      else do { a \<leftarrow> load h (anchor list); Some (prv a) })"

definition My402ListUnlinkT ::
  "My402List \<Rightarrow> addr \<Rightarrow> 'o heap \<Rightarrow> (My402List \<times> 'o heap) option" where
  "My402ListUnlinkT list elem h = do {
     e \<leftarrow> load h elem;
     h \<leftarrow> set_nxt h (prv e) (nxt e);
     e \<leftarrow> load h elem;
     h \<leftarrow> set_prv h (nxt e) (prv e);
     h \<leftarrow> free h elem;
     Some (list\<lparr>num_members := num_members list - 1\<rparr>, h)
   }"

partial_function (option) UnlinkAll_loopT :: "addr \<Rightarrow> addr \<Rightarrow> 'o heap \<Rightarrow> 'o heap option" where
  "UnlinkAll_loopT a element h = do {
     e \<leftarrow> load h element;
     l \<leftarrow> load h a;
     if nxt e \<noteq> nxt l then do {
       let elementnext = nxt e;
       h \<leftarrow> set_nxt h a elementnext;
       h \<leftarrow> set_prv h elementnext a;
       h \<leftarrow> free h element;
       UnlinkAll_loopT a elementnext h
     } else Some h
   }"

definition My402ListUnlinkAllT :: "My402List option \<Rightarrow> 'o heap \<Rightarrow> (My402List option \<times> 'o heap) option" where
  "My402ListUnlinkAllT list h =
     (case list of
        None \<Rightarrow> Some (None, h)
      | Some l \<Rightarrow> do {
          a \<leftarrow> load h (anchor l);
          if nxt a = anchor l then Some (Some l, h)
          else do {
            let element = nxt a;
            _ \<leftarrow> load h element;
            h \<leftarrow> UnlinkAll_loopT (anchor l) element h;
            h \<leftarrow> set_nxt h (anchor l) (anchor l);
            h \<leftarrow> set_prv h (anchor l) (anchor l);
            Some (Some (l\<lparr>num_members := 0\<rparr>), h)
          }
        })"

definition My402ListInsertAfterT ::
  "'o malloc_fun \<Rightarrow> My402List \<Rightarrow> 'o \<Rightarrow> addr \<Rightarrow> 'o heap \<Rightarrow> (int \<times> My402List \<times> 'o heap) option" where
  "My402ListInsertAfterT malloc list object elem h =
     (let temp = malloc h in
      if temp = NULL then Some (FALSE, list, h)
      else do {
        let h = h(temp \<mapsto> \<lparr>obj = object, nxt = NULL, prv = NULL\<rparr>);
        if elem = NULL then My402ListAppendT malloc list object h
        else do {
          e \<leftarrow> load h elem;
          h \<leftarrow> set_nxt h temp (nxt e);
          h \<leftarrow> set_prv h temp elem;
          e \<leftarrow> load h elem;
          h \<leftarrow> set_prv h (nxt e) temp;
          h \<leftarrow> set_nxt h elem temp;
          Some (TRUE, list\<lparr>num_members := num_members list + 1\<rparr>, h)
        }
      })"

definition My402ListInsertBeforeT ::
  "'o malloc_fun \<Rightarrow> My402List \<Rightarrow> 'o \<Rightarrow> addr \<Rightarrow> 'o heap \<Rightarrow> (int \<times> My402List \<times> 'o heap) option" where
  "My402ListInsertBeforeT malloc list object elem h =
     (let temp = malloc h in
      if temp = NULL then Some (FALSE, list, h)
      else do {
        let h = h(temp \<mapsto> \<lparr>obj = object, nxt = NULL, prv = NULL\<rparr>);
        if elem = NULL then My402ListPrependT malloc list object h
        else do {
          h \<leftarrow> set_nxt h temp elem;
          e \<leftarrow> load h elem;
          h \<leftarrow> set_prv h temp (prv e);
          e \<leftarrow> load h elem;
          h \<leftarrow> set_nxt h (prv e) temp;
          h \<leftarrow> set_prv h elem temp;
          Some (TRUE, list\<lparr>num_members := num_members list + 1\<rparr>, h)
        }
      })"

definition My402ListNextT :: "My402List \<Rightarrow> addr \<Rightarrow> 'o heap \<Rightarrow> addr option" where
  "My402ListNextT list elem h = do {
     e \<leftarrow> load h elem;
     Some (if nxt e = anchor list then NULL else nxt e)
   }"

definition My402ListPrevT :: "My402List \<Rightarrow> addr \<Rightarrow> 'o heap \<Rightarrow> addr option" where
  "My402ListPrevT list elem h = do {
     e \<leftarrow> load h elem;
     Some (if prv e = anchor list then NULL else prv e)
   }"

partial_function (option) Find_loopT :: "addr \<Rightarrow> 'o \<Rightarrow> addr \<Rightarrow> 'o heap \<Rightarrow> addr option" where
  "Find_loopT a object temp h = do {
     e \<leftarrow> load h temp;
     l \<leftarrow> load h a;
     if nxt e \<noteq> nxt l then
       (if obj e = object then Some temp else Find_loopT a object (nxt e) h)
     else Some NULL
   }"

definition My402ListFindT :: "My402List \<Rightarrow> 'o \<Rightarrow> 'o heap \<Rightarrow> addr option" where
  "My402ListFindT list object h = do {
     a \<leftarrow> load h (anchor list);
     Find_loopT (anchor list) object (nxt a) h
   }"

definition My402ListInitT :: "My402List \<Rightarrow> 'o heap \<Rightarrow> (int \<times> My402List \<times> 'o heap) option" where
  "My402ListInitT list h = do {
     h \<leftarrow> set_nxt h (anchor list) (anchor list);
     h \<leftarrow> set_prv h (anchor list) (anchor list);
     Some (TRUE, list\<lparr>num_members := 0\<rparr>, h)
   }"

section \<open>Agreement with the first copy on lists\<close>

text \<open>
  On every heap that represents a list the two copies end in the same heap, whatever the
  order of their assignments.
\<close>

lemma AppendT_eq:
  assumes r: "repr h list xs" and t: "malloc h \<noteq> NULL" "h (malloc h) = None"
  shows "My402ListAppendT malloc list x h = My402ListAppend malloc list x h"
proof -
  have r': "ring h (anchor list) xs" and n: "num_members list = 0 \<longleftrightarrow> xs = []"
    using r by (simp_all add: repr_def)
  show ?thesis
    unfolding Append_eq [where malloc = malloc, OF r t]
    by (rule ring_ends [OF r'])
      (use ring_not_fresh [OF r' t(2)] t n in \<open>auto simp: My402ListAppendT_def linked_def heap_exec Let_def fun_eq_iff\<close>)
qed

lemma PrependT_eq:
  assumes r: "repr h list xs" and t: "malloc h \<noteq> NULL" "h (malloc h) = None"
  shows "My402ListPrependT malloc list x h = My402ListPrepend malloc list x h"
proof -
  have r': "ring h (anchor list) xs" and n: "num_members list = 0 \<longleftrightarrow> xs = []"
    using r by (simp_all add: repr_def)
  show ?thesis
    unfolding Prepend_eq [where malloc = malloc, OF r t]
    by (rule ring_ends [OF r'])
      (use ring_not_fresh [OF r' t(2)] t n in \<open>auto simp: My402ListPrependT_def linked_def heap_exec Let_def fun_eq_iff\<close>)
qed

lemma InsertAfterT_eq:
  assumes r: "repr h list (us @ (p, y) # vs)" and t: "malloc h \<noteq> NULL" "h (malloc h) = None"
  shows "My402ListInsertAfterT malloc list x p h = My402ListInsertAfter malloc list x p h"
  unfolding InsertAfter_eq [where malloc = malloc, OF r t]
  by (rule node_ends [OF r])
    (use t in \<open>auto simp: My402ListInsertAfterT_def linked_def heap_exec Let_def fun_eq_iff\<close>)

lemma InsertBeforeT_eq:
  assumes r: "repr h list (us @ (p, y) # vs)" and t: "malloc h \<noteq> NULL" "h (malloc h) = None"
  shows "My402ListInsertBeforeT malloc list x p h = My402ListInsertBefore malloc list x p h"
  unfolding InsertBefore_eq [where malloc = malloc, OF r t]
  by (rule node_ends [OF r])
    (use t in \<open>auto simp: My402ListInsertBeforeT_def linked_def heap_exec Let_def fun_eq_iff\<close>)

lemma UnlinkT_eq:
  assumes r: "repr h list (us @ (p, y) # vs)"
  shows "My402ListUnlinkT list p h = My402ListUnlink list p h"
  unfolding Unlink_eq [OF r]
  by (rule node_ends [OF r])
    (auto simp: My402ListUnlinkT_def unlinked_def heap_exec Let_def fun_eq_iff)

lemma observersT_eq:
  "My402ListLengthT = My402ListLength" "My402ListFirstT = My402ListFirst" "My402ListLastT = My402ListLast"
  "My402ListNextT = My402ListNext" "My402ListPrevT = My402ListPrev"
  by (simp_all add: fun_eq_iff My402ListLengthT_def My402ListLength_def My402ListFirstT_def My402ListFirst_def
      My402ListLastT_def My402ListLast_def My402ListNextT_def My402ListNext_def My402ListPrevT_def My402ListPrev_def)

lemma EmptyT_eq: "repr h list xs \<Longrightarrow> Some (My402ListEmptyT list) = My402ListEmpty list h"
  using Empty_eq [of h list xs] by (auto simp: My402ListEmptyT_def repr_def)


lemma UnlinkAll_loopT_step:
  assumes "repr h list ((p, y) # vs)"
  shows "UnlinkAll_loopT (anchor list) p h =
    UnlinkAll_loopT (anchor list) (firstp (anchor list) vs) (unlinked h (anchor list) p (firstp (anchor list) vs))"
proof -
  have r: "repr h list ([] @ (p, y) # vs)" using assms by simp
  show ?thesis
    by (rule node_ends [OF r], subst UnlinkAll_loopT.simps)
      (auto simp: lastp_def heap_exec unlinked_def Let_def)
qed

lemma UnlinkAll_loopT_ends:
  assumes "repr h list xs"
  shows "\<exists>h'. UnlinkAll_loopT (anchor list) (firstp (anchor list) xs) h = Some h' \<and>
    repr h' (list\<lparr>num_members := 0\<rparr>) [] \<and> frame h h' (nodes list xs) \<and> (\<forall>p \<in> fst ` set xs. h' p = None)"
  using assms
proof (induction xs arbitrary: h list)
  case Nil
  then obtain ea where "anchor list \<noteq> NULL" "h (anchor list) = Some ea"
    by (auto simp: repr_def elim!: ring_ends)
  with Nil show ?case
    by (subst UnlinkAll_loopT.simps) (auto simp: firstp_def repr_def frame_def)
next
  case (Cons v xs)
  obtain p y where v: "v = (p, y)" by force
  let ?h = "unlinked h (anchor list) p (firstp (anchor list) xs)"
  have r: "repr h list ([] @ (p, y) # xs)" using Cons.prems v by simp
  have u: "repr ?h (dec list) xs" "frame h ?h (nodes list ((p, y) # xs))" "?h p = None"
    using repr_unlinked [OF r] by (simp_all add: lastp_def)
  obtain h' where IH: "UnlinkAll_loopT (anchor list) (firstp (anchor list) xs) ?h = Some h'"
    "repr h' (list\<lparr>num_members := 0\<rparr>) []" "frame ?h h' (nodes list xs)" "\<forall>q \<in> fst ` set xs. h' q = None"
    using Cons.IH [OF u(1)] by (auto simp: nodes_def)
  have "p \<notin> nodes list xs"
    using r ring_addrs [of h "anchor list" "(p, y) # xs"] by (auto simp: repr_def nodes_def)
  then have "h' p = None" using IH(3) u(3) by (simp add: frame_def)
  moreover have "frame h h' (nodes list ((p, y) # xs))"
    using IH(3) u(2) by (auto simp: frame_def nodes_def)
  moreover have "UnlinkAll_loopT (anchor list) p h = Some h'"
    using UnlinkAll_loopT_step [OF Cons.prems [unfolded v]] IH(1) by simp
  ultimately show ?case
    using IH v by (auto simp: firstp_def)
qed

lemma UnlinkAllT_repr:
  assumes "repr h list xs"
  shows "\<exists>h'. My402ListUnlinkAllT (Some list) h = Some (Some (list\<lparr>num_members := 0\<rparr>), h') \<and>
    repr h' (list\<lparr>num_members := 0\<rparr>) [] \<and> frame h h' (nodes list xs) \<and> (\<forall>p \<in> fst ` set xs. h' p = None)"
proof -
  obtain h' where l: "UnlinkAll_loopT (anchor list) (firstp (anchor list) xs) h = Some h'"
    "repr h' (list\<lparr>num_members := 0\<rparr>) []" "frame h h' (nodes list xs)" "\<forall>p \<in> fst ` set xs. h' p = None"
    using UnlinkAll_loopT_ends [OF assms] by blast
  have r: "ring h (anchor list) xs" "ring h' (anchor list) []" "num_members list = int (length xs)"
    using assms l(2) by (auto simp: repr_def)
  obtain ea' where a': "anchor list \<noteq> NULL" "h' (anchor list) = Some ea'" "nxt ea' = anchor list" "prv ea' = anchor list"
    by (rule ring_ends [OF r(2)]) (auto simp: firstp_def lastp_def)
  have e: "ea'\<lparr>nxt := anchor list, prv := anchor list\<rparr> = ea'" "h'(anchor list \<mapsto> ea') = h'"
    using a' by (auto simp: My402ListElem.equality)
  show ?thesis
  proof (cases "xs = []")
    case True
    have "My402ListUnlinkAllT (Some list) h = Some (Some (list\<lparr>num_members := 0\<rparr>), h)"
      by (rule ring_ends [OF r(1)]) (use True r(3) in \<open>auto simp: My402ListUnlinkAllT_def firstp_def\<close>)
    moreover have "repr h (list\<lparr>num_members := 0\<rparr>) []" using assms True by (simp add: repr_def)
    ultimately show ?thesis using True by (auto simp: frame_def)
  next
    case False
    have "My402ListUnlinkAllT (Some list) h = Some (Some (list\<lparr>num_members := 0\<rparr>), h')"
      by (rule ring_ends [OF r(1)])
        (use False l(1) a' e in \<open>auto simp: My402ListUnlinkAllT_def heap_exec\<close>)
    then show ?thesis using l by blast
  qed
qed

lemma Find_loopT_eq:
  assumes "repr h list xs" "xs = us @ vs"
  shows "Find_loopT (anchor list) x (firstp (anchor list) vs) h = Some (find_addr x vs)"
  using assms(2)
proof (induction vs arbitrary: us)
  case Nil
  obtain ea where "anchor list \<noteq> NULL" "h (anchor list) = Some ea"
    using assms(1) by (auto simp: repr_def elim!: ring_ends)
  then show ?case by (subst Find_loopT.simps) (simp add: firstp_def)
next
  case (Cons v vs)
  obtain p y where v: "v = (p, y)" by force
  have r: "repr h list (us @ (p, y) # vs)" using assms(1) Cons.prems v by simp
  have IH: "Find_loopT (anchor list) x (firstp (anchor list) vs) h = Some (find_addr x vs)"
    using Cons.IH [of "us @ [v]"] Cons.prems by simp
  obtain ep where e: "p \<noteq> NULL" "h p = Some ep" "obj ep = y" "nxt ep = firstp (anchor list) vs"
    by (rule node_ends [OF r])
  obtain ea where a: "anchor list \<noteq> NULL" "h (anchor list) = Some ea" "nxt ea = firstp (anchor list) xs"
    using assms(1) by (auto simp: repr_def elim!: ring_ends)
  have "distinct (anchor list # map fst (us @ (p, y) # vs))" using r by (simp add: repr_def ring_def)
  then have "firstp (anchor list) vs \<noteq> firstp (anchor list) xs"
    unfolding Cons.prems v by (cases us; cases vs) (auto simp: firstp_def image_iff)
  with e a IH show ?case
    by (subst Find_loopT.simps) (simp add: firstp_def v)
qed

lemma FindT_eq:
  assumes "repr h list xs"
  shows "My402ListFindT list x h = Some (find_addr x xs)"
proof -
  obtain ea where "anchor list \<noteq> NULL" "h (anchor list) = Some ea" "nxt ea = firstp (anchor list) xs"
    using assms by (auto simp: repr_def elim!: ring_ends)
  then show ?thesis
    using Find_loopT_eq [OF assms, of "[]" xs x] by (simp add: My402ListFindT_def)
qed

lemma InitT_eq: "My402ListInit (Some list) h = Some (r, l, h') \<longleftrightarrow>
    (\<exists>l'. l = Some l' \<and> My402ListInitT list h = Some (r, l', h'))"
  by (auto simp: My402ListInit_def My402ListInitT_def split: bind_splits)

interpretation wt: elem_list
  My402ListAppendT My402ListUnlinkT My402ListFirstT My402ListLengthT My402ListPrependT
  My402ListInsertAfterT My402ListInsertBeforeT My402ListLastT My402ListNextT My402ListPrevT
proof (unfold_locales, unfold observersT_eq, goal_cases)
  case (1 h list xs malloc x)
  then show ?case using w1.append_law by (simp add: AppendT_eq)
next
  case (2 malloc h list x)
  then show ?case by (simp add: My402ListAppendT_def)
next
  case (3 h list us p y vs)
  then show ?case using w1.unlink_law by (simp add: UnlinkT_eq)
next
  case (6 h list xs malloc x)
  then show ?case using w1.prepend_law by (simp add: PrependT_eq)
next
  case (7 h list us p y vs malloc x)
  then show ?case using w1.insert_after_law by (simp add: InsertAfterT_eq)
next
  case (8 h list us p y vs malloc x)
  then show ?case using w1.insert_before_law by (simp add: InsertBeforeT_eq)
qed (fact w1.first_law w1.len_law w1.last_law w1.next_law w1.prev_law)+

section \<open>Properties of the second copy\<close>



text \<open>
  C29.  \<open>My402ListUnlinkAll\<close> of the second copy returns on every list, frees every element and
  leaves the empty list; \<open>My402ListFind\<close> returns on every list, the empty one included, with
  the first element that holds the object.
\<close>

theorem loops_refine:
  assumes "repr h list xs"
  shows "(\<exists>h'. My402ListUnlinkAllT (Some list) h = Some (Some (list\<lparr>num_members := 0\<rparr>), h') \<and>
      repr h' (list\<lparr>num_members := 0\<rparr>) [] \<and> frame h h' (nodes list xs) \<and> (\<forall>p \<in> fst ` set xs. h' p = None)) \<and>
    My402ListFindT list x h = Some (find_addr x xs)"
  using UnlinkAllT_repr [OF assms] FindT_eq [OF assms] by blast

theorem loops_refine_witness:
  "repr one_ring one_list [(2, 7)] \<and>
   (\<exists>h'. My402ListUnlinkAllT (Some one_list) one_ring = Some (Some (one_list\<lparr>num_members := 0\<rparr>), h') \<and> h' 2 = None) \<and>
   My402ListFindT one_list 7 one_ring = Some 2"
  using loops_refine [OF repr_one, of 7] repr_one by auto

text \<open>
  Taking the first element of one list, unlinking it and appending its object to another
  list of the same heap, as the threads of the emulation do with the two packet queues,
  takes the head off the first list, puts the object at the end of the second, keeps the two
  lists apart, and changes nothing else.
\<close>

theorem move_between_queues:
  assumes "repr h l1 ((p, x) # xs)" "repr h l2 ys" "nodes l1 ((p, x) # xs) \<inter> nodes l2 ys = {}"
    and "malloc_ok malloc"
  shows "\<exists>h1. My402ListFirstT l1 h = Some p \<and> My402ListUnlinkT l1 p h = Some (dec l1, h1) \<and>
    (if malloc h1 = NULL
     then My402ListAppendT malloc l2 x h1 = Some (FALSE, l2, h1) \<and> repr h1 (dec l1) xs \<and> repr h1 l2 ys
     else \<exists>h2. My402ListAppendT malloc l2 x h1 = Some (TRUE, inc l2, h2) \<and>
       repr h2 (dec l1) xs \<and> repr h2 (inc l2) (ys @ [(malloc h1, x)]) \<and>
       nodes (dec l1) xs \<inter> nodes (inc l2) (ys @ [(malloc h1, x)]) = {} \<and>
       frame h h2 (insert (malloc h1) (nodes l1 ((p, x) # xs) \<union> nodes l2 ys)))"
  using assms by (rule wt.move_head)

definition two_rings :: "nat heap" where
  "two_rings = one_ring(5 \<mapsto> \<lparr>obj = 0, nxt = 5, prv = 5\<rparr>)"

definition empty_list :: My402List where
  "empty_list = \<lparr>num_members = 0, anchor = 5\<rparr>"

definition malloc_nine :: "nat malloc_fun" where
  "malloc_nine h = (if h 9 = None then 9 else NULL)"

theorem move_between_queues_witness:
  "repr two_rings one_list [(2, 7)] \<and> repr two_rings empty_list ([] :: (addr \<times> nat) list) \<and>
   nodes one_list [(2, 7 :: nat)] \<inter> nodes empty_list ([] :: (addr \<times> nat) list) = {} \<and> malloc_ok malloc_nine \<and>
   (\<exists>h1. My402ListUnlinkT one_list 2 two_rings = Some (dec one_list, h1) \<and>
     (malloc_nine h1 = NULL \<or> (\<exists>h2. repr h2 (inc empty_list) [(malloc_nine h1, 7 :: nat)])))"
proof -
  have a: "repr two_rings one_list [(2, 7)]" "repr two_rings empty_list []"
    "nodes one_list [(2, 7 :: nat)] \<inter> nodes empty_list ([] :: (addr \<times> nat) list) = {}" "malloc_ok malloc_nine"
    by (simp_all add: repr_def ring_def one_ring_def one_list_def two_rings_def empty_list_def nx_def pv_def ob_def
        nodes_def malloc_ok_def malloc_nine_def)
  show ?thesis
    using a move_between_queues [OF a] by (auto split: if_splits)
qed

end
