(* ===== verification/Warmup1.thy ===== *)
theory Warmup1
  imports List402 "HOL-Library.Signed_Division"
begin

text \<open>
  The bank statement program \<^verbatim>\<open>src/warmup1/warmup1.c\<close>: reading transactions from
  tab-separated lines, sorting them by time with a bubble sort on the list of
  \<^verbatim>\<open>my402list.c\<close>, and printing a table with running balances.

  C strings are character lists without the final NUL; \<open>long\<close> has 64 bits, \<open>int\<close> 32.  A call
  of \<open>exit(1)\<close> after a message is \<open>Inl (Exit message)\<close>, undefined behaviour (a null pointer given
  to \<open>strlen\<close>, a bad list pointer) is \<open>Inl Crash\<close>.  The transaction is stored in the list
  element itself.  The standard functions \<open>fgets\<close>, \<open>strtok\<close>, \<open>atol\<close> (as \<open>strtol\<close>, which
  saturates), \<open>isspace\<close> and the conversions of \<open>printf\<close> are written out; \<open>malloc\<close>, the clock, the
  file system, the thousands separator of the locale and \<open>localtime\<close> with \<open>strftime\<close> are
  parameters.  \<open>Processtoken2\<close> concatenates its two tokens with \<open>strcat\<close> although they overlap;
  the model takes the result of a copy from left to right.
\<close>

section \<open>Data\<close>

record bankData =
  symbol :: char
  time :: int
  amount :: "64 word"
  description :: string

datatype stop = Exit string | Crash

section \<open>Numbers as text\<close>

definition isdigit :: "char \<Rightarrow> bool" where
  "isdigit c \<longleftrightarrow> 48 \<le> (of_char c :: nat) \<and> (of_char c :: nat) \<le> 57"

definition isspace :: "char \<Rightarrow> bool" where
  "isspace c \<longleftrightarrow> c = CHR '' '' \<or> 9 \<le> (of_char c :: nat) \<and> (of_char c :: nat) \<le> 13"

definition digit :: "nat \<Rightarrow> char" where
  "digit n = char_of (48 + n)"

definition digit_val :: "char \<Rightarrow> nat" where
  "digit_val c = of_char c - 48"

fun dec_digits :: "nat \<Rightarrow> string" where
  "dec_digits n = (if n < 10 then [digit n] else dec_digits (n div 10) @ [digit (n mod 10)])"

declare dec_digits.simps [simp del]

definition digits_val :: "string \<Rightarrow> nat" where
  "digits_val ds = foldl (\<lambda>n c. 10 * n + digit_val c) 0 ds"

definition LONG_MAX :: int where
  "LONG_MAX = 2 ^ 63 - 1"

definition LONG_MIN :: int where
  "LONG_MIN = - (2 ^ 63)"

definition atol :: "string \<Rightarrow> int" where
  "atol s =
     (let t = dropWhile isspace s;
          neg = (t \<noteq> [] \<and> hd t = CHR ''-'');
          u = (if t \<noteq> [] \<and> (hd t = CHR ''-'' \<or> hd t = CHR ''+'') then tl t else t);
          v = int (digits_val (takeWhile isdigit u))
      in max LONG_MIN (min LONG_MAX (if neg then - v else v)))"

text \<open>\<open>strtok\<close>: the token, and the text at which the next call continues.\<close>

definition strtok :: "string \<Rightarrow> string \<Rightarrow> string option \<times> string" where
  "strtok delim s =
     (let t = dropWhile (\<lambda>c. c \<in> set delim) s in
      if t = [] then (None, [])
      else (Some (takeWhile (\<lambda>c. c \<notin> set delim) t), tl (dropWhile (\<lambda>c. c \<notin> set delim) t)))"

text \<open>\<open>fgets\<close> into a buffer of \<open>n\<close> bytes: the bytes read, and what is left of the stream.\<close>

fun fgets :: "nat \<Rightarrow> string \<Rightarrow> string \<times> string" where
  "fgets n [] = ([], [])"
| "fgets n (c # s) =
     (if n \<le> 1 then ([], c # s)
      else if c = CHR 0x0A then ([c], s)
      else let (l, r) = fgets (n - 1) s in (c # l, r))"

definition cstring :: "string \<Rightarrow> string" where
  "cstring s = takeWhile (\<lambda>c. c \<noteq> CHR 0x00) s"

section \<open>Reading the file\<close>

definition spacetrimmer :: "string \<Rightarrow> nat" where
  "spacetrimmer stringdesc = length (takeWhile isspace stringdesc)"

definition Processtoken2 :: "string \<Rightarrow> stop + 64 word" where
  "Processtoken2 tokenizedData =
     (if tokenizedData \<noteq> [] \<and> hd tokenizedData = CHR ''.'' then Inl (Exit ''Amount cannot be less than 1'')
      else case strtok ''.'' tokenizedData of
        (None, _) \<Rightarrow> Inl Crash
      | (Some amount0, rest) \<Rightarrow>
          if length amount0 > 7 then Inl (Exit ''Amount cannot be greater than 10000000'')
          else case strtok '''' rest of
            (None, _) \<Rightarrow> Inl Crash
          | (Some amount1, _) \<Rightarrow>
              if length amount1 > 2 \<or> length amount1 < 2
              then Inl (Exit ''Decimal places cant be greater than 2 or less than 2'')
              else Inr (word_of_int (atol (amount0 @ amount1))))"

definition read_line :: "string \<Rightarrow> stop + bankData" where
  "read_line buff =
     (case strtok [CHR 0x09] buff of
        (None, _) \<Rightarrow> Inl (Exit ''Transaction Invalid'')
      | (Some token0, rest) \<Rightarrow>
      if hd token0 \<noteq> CHR ''+'' \<and> hd token0 \<noteq> CHR ''-'' then Inl (Exit ''exiting as type of transaction not valid'')
      else case strtok [CHR 0x09] rest of
        (None, _) \<Rightarrow> Inl (Exit ''Transaction Invalid'')
      | (Some token1, rest) \<Rightarrow>
      case strtok [CHR 0x09] rest of
        (None, _) \<Rightarrow> Inl (Exit ''Transaction Invalid'')
      | (Some token2, rest) \<Rightarrow>
      case strtok [CHR 0x09, CHR 0x0A] rest of
        (None, _) \<Rightarrow> Inl (Exit ''Transaction Invalid'')
      | (Some token3, rest) \<Rightarrow>
      case strtok [CHR 0x0A] rest of
        (Some _, _) \<Rightarrow> Inl (Exit ''Too many fields'')
      | (None, _) \<Rightarrow>
      let k = spacetrimmer token3 in
      case Processtoken2 token2 of
        Inl e \<Rightarrow> Inl e
      | Inr a \<Rightarrow>
          Inr \<lparr>symbol = hd token0, time = atol token1, amount = a,
               description = (if length token3 > 24 \<and> k \<le> 24 then drop k (take 24 token3) else drop k token3)\<rparr>)"

lemma fgets_append: "fgets n input = (l, r) \<Longrightarrow> input = l @ r"
  by (induction n input arbitrary: l r rule: fgets.induct) (auto split: if_splits prod.splits)

lemma fgets_rest: "input \<noteq> [] \<Longrightarrow> 1 < n \<Longrightarrow> length (snd (fgets n input)) < length input"
  by (cases input; cases "fgets (n - 1) (tl input)") (auto dest: fgets_append)

function readingFile ::
  "bankData malloc_fun \<Rightarrow> string \<Rightarrow> My402List \<Rightarrow> bankData heap \<Rightarrow> stop + (My402List \<times> bankData heap)" where
  "readingFile malloc input list h =
     (if input = [] then Inr (list, h)
      else let (buff, rest) = fgets 1024 input in
        case read_line (cstring buff) of
          Inl e \<Rightarrow> Inl e
        | Inr object \<Rightarrow>
            (case My402ListAppend malloc list object h of
               None \<Rightarrow> Inl Crash
             | Some (_, list', h') \<Rightarrow> readingFile malloc rest list' h'))"
  by pat_completeness auto

termination
proof (relation "measure (\<lambda>(malloc, input, list, h). length input)", goal_cases)
  case (2 malloc input list h x buff rest)
  then show ?case using fgets_rest [of input 1024] by (simp add: prod_eq_iff)
qed simp

declare readingFile.simps [simp del]

section \<open>Sorting\<close>

text \<open>The conversion of \<open>time_t\<close> to \<open>int\<close>, 32 bits wide.\<close>

definition cast_int :: "int \<Rightarrow> int" where
  "cast_int t = signed_take_bit 31 t"

definition BubbleForward ::
  "bankData malloc_fun \<Rightarrow> My402List \<Rightarrow> addr \<Rightarrow> addr \<Rightarrow> bankData heap \<Rightarrow> (addr \<times> addr \<times> My402List \<times> bankData heap) option" where
  "BubbleForward malloc pList elem1 elem2 h = do {
     e1 \<leftarrow> load h elem1;
     e2 \<leftarrow> load h elem2;
     let obj1 = obj e1;
     let obj2 = obj e2;
     elem1prev \<leftarrow> My402ListPrev pList elem1 h;
     elem2next \<leftarrow> My402ListNext pList elem2 h;
     (pList, h) \<leftarrow> My402ListUnlink pList elem1 h;
     (pList, h) \<leftarrow> My402ListUnlink pList elem2 h;
     (_, pList, h) \<leftarrow> (if elem1prev = NULL then My402ListPrepend malloc pList obj2 h
                       else My402ListInsertAfter malloc pList obj2 elem1prev h);
     pp_elem1 \<leftarrow> (if elem1prev = NULL then My402ListFirst pList h else My402ListNext pList elem1prev h);
     (_, pList, h) \<leftarrow> (if elem2next = NULL then My402ListAppend malloc pList obj1 h
                       else My402ListInsertBefore malloc pList obj1 elem2next h);
     pp_elem2 \<leftarrow> (if elem2next = NULL then My402ListLast pList h else My402ListPrev pList elem2next h);
     Some (pp_elem1, pp_elem2, pList, h)
   }"

text \<open>
  The inner loop: \<open>k\<close> is the number of iterations left, \<open>j\<close> the number done; \<open>now j\<close> is what
  \<open>time(NULL)\<close> returns in iteration \<open>j\<close>.
\<close>

fun sort_inner ::
  "bankData malloc_fun \<Rightarrow> (nat \<Rightarrow> int) \<Rightarrow> nat \<Rightarrow> nat \<Rightarrow> addr \<Rightarrow> bool \<Rightarrow> My402List \<Rightarrow> bankData heap \<Rightarrow>
   stop + (bool \<times> My402List \<times> bankData heap)" where
  "sort_inner malloc now j 0 elem something_swapped pList h = Inr (something_swapped, pList, h)"
| "sort_inner malloc now j (Suc k) elem something_swapped pList h =
     (case do { e \<leftarrow> load h elem; next_elem \<leftarrow> My402ListNext pList elem h; e' \<leftarrow> load h next_elem; Some (e, next_elem, e') } of
        None \<Rightarrow> Inl Crash
      | Some (e, next_elem, e') \<Rightarrow>
          let cur_val = cast_int (time (obj e)); next_val = cast_int (time (obj e')) in
          if cur_val = next_val \<or> cur_val \<ge> now j then Inl (Exit ''THere is error in timestamp'')
          else if cur_val > next_val then
            (case BubbleForward malloc pList elem next_elem h of
               None \<Rightarrow> Inl Crash
             | Some (elem', next_elem', pList', h') \<Rightarrow> sort_inner malloc now (Suc j) k next_elem' True pList' h')
          else sort_inner malloc now (Suc j) k next_elem something_swapped pList h)"

text \<open>The outer loop: \<open>i\<close> passes are done and \<open>r\<close> are left, so that \<open>num_items - i - 1\<close> is \<open>r - 1\<close>.\<close>

fun sort_outer ::
  "bankData malloc_fun \<Rightarrow> (nat \<Rightarrow> nat \<Rightarrow> int) \<Rightarrow> nat \<Rightarrow> nat \<Rightarrow> My402List \<Rightarrow> bankData heap \<Rightarrow>
   stop + (My402List \<times> bankData heap)" where
  "sort_outer malloc now i 0 pList h = Inr (pList, h)"
| "sort_outer malloc now i (Suc r) pList h =
     (case My402ListFirst pList h of
        None \<Rightarrow> Inl Crash
      | Some elem \<Rightarrow>
          (case sort_inner malloc (now i) 0 r elem False pList h of
             Inl e \<Rightarrow> Inl e
           | Inr (something_swapped, pList', h') \<Rightarrow>
               if \<not> something_swapped then Inr (pList', h')
               else sort_outer malloc now (Suc i) r pList' h'))"

definition sortList ::
  "bankData malloc_fun \<Rightarrow> (nat \<Rightarrow> nat \<Rightarrow> int) \<Rightarrow> My402List \<Rightarrow> int \<Rightarrow> bankData heap \<Rightarrow>
   stop + (My402List \<times> bankData heap)" where
  "sortList malloc now pList num_items h =
     (if My402ListLength pList \<noteq> num_items then Inl (Exit ''List length is not in BubbleSortForwardList()'')
      else sort_outer malloc now 0 (nat num_items) pList h)"

section \<open>Displaying the result\<close>

definition GetNegativeFlag :: "char \<Rightarrow> int" where
  "GetNegativeFlag c = (if c = CHR ''+'' then 0 else 1)"

definition GetDecimal :: "64 word \<Rightarrow> string" where
  "GetDecimal amt =
     (let num2 = unat (amt mod 10); amt' = amt div 10; num1 = unat (amt' mod 10)
      in dec_digits num1 @ dec_digits num2)"

definition GetAmount :: "64 word \<Rightarrow> 64 word \<times> string" where
  "GetAmount amt = (let tempamount = amt div 100 in (tempamount, GetDecimal amt))"

definition GetBalanceDecimalValues :: "64 word \<Rightarrow> string" where
  "GetBalanceDecimalValues balance =
     (let num2 = sint balance smod 10;
          num2 = (if num2 < 0 then num2 * (-1) else num2);
          balance' = sint balance sdiv 10;
          num1 = balance' smod 10;
          num1 = (if num1 < 0 then num1 * (-1) else num1)
      in dec_digits (nat num1) @ dec_digits (nat num2))"

definition GetBalance :: "int \<Rightarrow> 64 word \<Rightarrow> 64 word \<Rightarrow> 64 word \<times> string" where
  "GetBalance negative_amount_flag balance amt =
     (let balance' = (if negative_amount_flag \<noteq> 0 then balance + amt * (- 1) else balance + amt)
      in (balance', GetBalanceDecimalValues balance'))"

text \<open>
  The conversions of \<open>printf\<close>: \<open>%ws\<close> and \<open>%-ws\<close> pad to the width, \<open>%'wlu\<close> and \<open>%'wld\<close> group the
  digits by three with the separator of the numeric locale.
\<close>

definition pad_left :: "nat \<Rightarrow> string \<Rightarrow> string" where
  "pad_left w s = replicate (w - length s) (CHR '' '') @ s"

definition pad_right :: "nat \<Rightarrow> string \<Rightarrow> string" where
  "pad_right w s = s @ replicate (w - length s) (CHR '' '')"

function group3 :: "string \<Rightarrow> string \<Rightarrow> string" where
  "group3 sep ds =
     (if length ds \<le> 3 then ds
      else group3 sep (take (length ds - 3) ds) @ sep @ drop (length ds - 3) ds)"
  by pat_completeness auto
termination by (relation "measure (\<lambda>(sep, ds). length ds)") auto

declare group3.simps [simp del]

definition fmt_lu :: "string \<Rightarrow> nat \<Rightarrow> 64 word \<Rightarrow> string" where
  "fmt_lu sep w n = pad_left w (group3 sep (dec_digits (unat n)))"

definition fmt_ld :: "string \<Rightarrow> nat \<Rightarrow> int \<Rightarrow> string" where
  "fmt_ld sep w n = pad_left w ((if n < 0 then ''-'' else '''') @ group3 sep (dec_digits (nat \<bar>n\<bar>)))"

text \<open>One row of the table.  \<open>GetTime\<close>, which depends on the time zone, is a parameter.\<close>

definition display_row :: "string \<Rightarrow> (int \<Rightarrow> string) \<Rightarrow> 64 word \<Rightarrow> bankData \<Rightarrow> 64 word \<times> string" where
  "display_row sep GetTime balance b =
     (let negative_amount_flag = GetNegativeFlag (symbol b);
          (amountprev, amount_decimal_value) = GetAmount (amount b);
          timestamp = GetTime (time b);
          (balance, balance_decimal_value) = GetBalance negative_amount_flag balance (amount b);
          start = ''| '' @ pad_left 14 timestamp @ '' | '' @ pad_right 24 (description b) @ '' | '';
          amount_text =
            (if negative_amount_flag \<noteq> 0
             then ''('' @ fmt_lu sep 9 amountprev @ ''.'' @ amount_decimal_value @ '')''
             else fmt_lu sep 10 amountprev @ ''.'' @ amount_decimal_value @ '' '');
          balance_text =
            (if sint balance < 10000000
             then (if sint balance > 0
                   then fmt_ld sep 10 (sint balance sdiv 100) @ ''.'' @ balance_decimal_value @ '' ''
                   else ''('' @ fmt_ld sep 9 (sint (balance * (- 1)) sdiv 100) @ ''.'' @ balance_decimal_value @ '')'')
             else '' '' @ ''?,???,???.??'' @ '' '')
      in (balance, start @ amount_text @ '' | '' @ balance_text @ '' |''))"

partial_function (option) display_loop ::
  "string \<Rightarrow> (int \<Rightarrow> string) \<Rightarrow> addr \<Rightarrow> addr \<Rightarrow> 64 word \<Rightarrow> bankData heap \<Rightarrow> string list option" where
  "display_loop sep GetTime a temp balance h = do {
     e \<leftarrow> load h temp;
     l \<leftarrow> load h a;
     if nxt e \<noteq> nxt l then do {
       let (balance, row) = display_row sep GetTime balance (obj e);
       rows \<leftarrow> display_loop sep GetTime a (nxt e) balance h;
       Some (row # rows)
     } else Some []
   }"

definition rule_line :: string where
  "rule_line = ''+-----------------+--------------------------+----------------+----------------+''"

definition title_line :: string where
  "title_line = ''|       Date      | Description              |         Amount |        Balance |''"

definition displayResult :: "string \<Rightarrow> (int \<Rightarrow> string) \<Rightarrow> My402List \<Rightarrow> bankData heap \<Rightarrow> string list option" where
  "displayResult sep GetTime list h = do {
     a \<leftarrow> load h (anchor list);
     rows \<leftarrow> display_loop sep GetTime (anchor list) (nxt a) 0 h;
     Some ([rule_line, title_line, rule_line] @ rows @ [rule_line])
   }"

section \<open>The program\<close>

text \<open>What the program sees of the system: the file system and the standard input.\<close>

record environment =
  exists_ok :: "string \<Rightarrow> bool"
  read_ok :: "string \<Rightarrow> bool"
  is_dir :: "string \<Rightarrow> bool"
  fopen :: "string \<Rightarrow> string option"
  stdin :: string

definition verify_file :: "environment \<Rightarrow> string \<Rightarrow> stop + int" where
  "verify_file env fname =
     (if \<not> exists_ok env fname then Inl (Exit ''File does not exist'')
      else if \<not> read_ok env fname then Inl (Exit ''File does not have read permissions'')
      else if is_dir env fname then Inl (Exit ''Specified File is Directory'')
      else Inr TRUE)"

text \<open>The checks \<open>main\<close> makes on its arguments, and the stream it reads.\<close>

definition main_input :: "environment \<Rightarrow> string list \<Rightarrow> stop + string" where
  "main_input env argv =
     (let argc = length argv in
      if argc = 0 \<or> argc = 1 then Inl (Exit ''Not enough commands'')
      else if argc = 2 then
        (if argv ! 1 = ''sort'' then Inr (stdin env) else Inl (Exit ''Sort should be second argument''))
      else if argc = 3 then
        (if argv ! 1 = ''sort'' then
           (let filename = argv ! 2 in
            if \<not> exists_ok env filename then Inl (Exit ''file does not exist'')
            else if \<not> read_ok env filename then Inl (Exit ''file doesn't have read permissions'')
            else if is_dir env filename then Inl (Exit ''specified File is Directory'')
            else case fopen env filename of
              None \<Rightarrow> Inl (Exit '''')
            | Some contents \<Rightarrow> Inr contents)
         else Inl (Exit ''sort should be second argument''))
      else Inl (Exit ''Too many arguments''))"

definition main ::
  "environment \<Rightarrow> bankData malloc_fun \<Rightarrow> (nat \<Rightarrow> nat \<Rightarrow> int) \<Rightarrow> string \<Rightarrow> (int \<Rightarrow> string) \<Rightarrow>
   My402List \<Rightarrow> bankData heap \<Rightarrow> string list \<Rightarrow> stop + string list" where
  "main env malloc now sep GetTime list h argv =
     (case main_input env argv of
        Inl e \<Rightarrow> Inl e
      | Inr input \<Rightarrow>
      case My402ListInit (Some list) h of
        None \<Rightarrow> Inl Crash
      | Some (_, None, _) \<Rightarrow> Inl Crash
      | Some (ok, Some list, h) \<Rightarrow>
      if ok = FALSE then Inl (Exit ''Not able to initialize'')
      else case readingFile malloc input list h of
        Inl e \<Rightarrow> Inl e
      | Inr (list, h) \<Rightarrow>
      case sortList malloc now list (num_members list) h of
        Inl e \<Rightarrow> Inl e
      | Inr (list, h) \<Rightarrow>
      case displayResult sep GetTime list h of
        None \<Rightarrow> Inl Crash
      | Some out \<Rightarrow> Inr out)"

section \<open>Sorting, on sequences\<close>

abbreviation key :: "bankData \<Rightarrow> int" where
  "key b \<equiv> cast_int (time b)"

text \<open>One pass and all passes of the sort, on the sequence of objects.\<close>

fun bubble :: "(nat \<Rightarrow> int) \<Rightarrow> nat \<Rightarrow> nat \<Rightarrow> bankData list \<Rightarrow> stop + (bool \<times> bankData list)" where
  "bubble now j 0 zs = Inr (False, zs)"
| "bubble now j (Suc k) (a # b # zs) =
     (if key a = key b \<or> key a \<ge> now j then Inl (Exit ''THere is error in timestamp'')
      else if key a > key b then
        (case bubble now (Suc j) k (a # zs) of Inl e \<Rightarrow> Inl e | Inr (s, ys) \<Rightarrow> Inr (True, b # ys))
      else
        (case bubble now (Suc j) k (b # zs) of Inl e \<Rightarrow> Inl e | Inr (s, ys) \<Rightarrow> Inr (s, a # ys)))"
| "bubble now j (Suc k) zs = Inl Crash"

fun bubbles :: "(nat \<Rightarrow> nat \<Rightarrow> int) \<Rightarrow> nat \<Rightarrow> nat \<Rightarrow> bankData list \<Rightarrow> stop + bankData list" where
  "bubbles now i 0 zs = Inr zs"
| "bubbles now i (Suc r) zs =
     (case bubble (now i) 0 r zs of
        Inl e \<Rightarrow> Inl e
      | Inr (s, ys) \<Rightarrow> if \<not> s then Inr ys else bubbles now (Suc i) r ys)"

abbreviation increasing :: "bankData list \<Rightarrow> bool" where
  "increasing \<equiv> sorted_wrt (\<lambda>a b. key a < key b)"

lemma bubble_ok:
  "bubble now j k zs = Inr (s, ys) \<Longrightarrow> k < length zs \<Longrightarrow>
     mset ys = mset zs \<and> drop (Suc k) ys = drop (Suc k) zs \<and>
     (\<forall>a \<in> set (take k ys). key a < key (ys ! k)) \<and>
     (s \<or> ys = zs \<and> increasing (take (Suc k) zs)) \<and>
     key (hd zs) \<le> key (ys ! k)"
proof (induction now j k zs arbitrary: s ys rule: bubble.induct)
  case (1 now j zs)
  then show ?case by (cases zs) auto
next
  case (2 now j k a b zs)
  consider t us where "key a > key b" "bubble now (Suc j) k (a # zs) = Inr (t, us)" "s" "ys = b # us"
    | us where "key a < key b" "bubble now (Suc j) k (b # zs) = Inr (s, us)" "ys = a # us"
    using 2(3) by (auto split: sum.splits if_splits)
  then show ?case
  proof cases
    case c: 1
    with 2(1) [of t us] 2(3,4) show ?thesis by (auto split: if_splits)
  next
    case c: 2
    with 2(2) [of s us] 2(3,4) show ?thesis by (cases k) (auto split: if_splits)
  qed
qed simp_all

lemma bubble_total:
  "k < length zs \<Longrightarrow> distinct (map key zs) \<Longrightarrow> \<forall>a \<in> set zs. \<forall>j. key a < now j \<Longrightarrow>
     \<exists>s ys. bubble now j k zs = Inr (s, ys)"
proof (induction now j k zs rule: bubble.induct)
  case (2 now j k a b zs)
  have g: "\<not> (key a = key b \<or> key a \<ge> now j)" using 2(4,5) by (simp add: not_le)
  have "\<exists>s ys. bubble now (Suc j) k (a # zs) = Inr (s, ys)" if "key a > key b"
    by (rule 2(1) [OF g that]) (use 2(3-) in auto)
  moreover have "\<exists>s ys. bubble now (Suc j) k (b # zs) = Inr (s, ys)" if "\<not> key a > key b"
    by (rule 2(2) [OF g that]) (use 2(3-) in auto)
  ultimately show ?case using g by (cases "key a > key b") auto
qed auto

lemma mset_take_eq:
  "mset ys = mset zs \<Longrightarrow> drop n ys = drop n zs \<Longrightarrow> mset (take n ys) = mset (take n zs)"
  by (metis add_right_cancel append_take_drop_id mset_append)

lemma increasing_extend:
  assumes "increasing (drop (Suc r) ys)" "\<forall>b \<in> set (drop (Suc r) ys). key (ys ! r) < key b" "r < length ys"
  shows "increasing (drop r ys)"
  using assms by (simp flip: Cons_nth_drop_Suc)

lemma bubbles_ok:
  "bubbles now i r zs = Inr ys \<Longrightarrow> r \<le> length zs \<Longrightarrow> increasing (drop r zs) \<Longrightarrow>
     (\<forall>a \<in> set (take r zs). \<forall>b \<in> set (drop r zs). key a < key b) \<Longrightarrow> mset ys = mset zs \<and> increasing ys"
proof (induction now i r zs arbitrary: ys rule: bubbles.induct)
  case (2 now i r zs)
  from 2(2) obtain s us where u: "bubble (now i) 0 r zs = Inr (s, us)"
    "if s then bubbles now (Suc i) r us = Inr ys else ys = us"
    by (auto split: sum.splits if_splits)
  have b: "mset us = mset zs" "drop (Suc r) us = drop (Suc r) zs" "\<forall>a \<in> set (take r us). key a < key (us ! r)"
    "s \<or> us = zs \<and> increasing (take (Suc r) zs)"
    using bubble_ok [OF u(1)] 2(3) by auto
  have len: "length us = length zs" using b(1) by (metis size_mset)
  have m: "set (take (Suc r) us) = set (take (Suc r) zs)"
    using mset_take_eq [OF b(1,2)] by (metis mset_eq_setD)
  have lt: "\<forall>b \<in> set (drop (Suc r) us). key (us ! r) < key b"
    using 2(5) m b(2) len 2(3) by (metis Suc_le_eq in_set_conv_nth length_take lessI min.absorb2 nth_take)
  show ?case
  proof (cases s)
    case True
    have "increasing (drop r us)" using increasing_extend [OF _ lt] 2(3,4) b(2) len by simp
    moreover have "\<forall>a \<in> set (take r us). \<forall>c \<in> set (drop r us). key a < key c"
      using b(3) lt 2(3) len by (fastforce simp flip: Cons_nth_drop_Suc)
    ultimately have "mset ys = mset us \<and> increasing ys"
      by (intro 2(1) [OF u(1) refl]) (use u(2) True 2(3) len in simp_all)
    then show ?thesis using b(1) by simp
  next
    case False
    then have "ys = zs" "increasing (take (Suc r) zs)" using u(2) b(4) by auto
    then have "increasing (take (Suc r) zs @ drop (Suc r) zs)"
      using 2(4,5) by (subst sorted_wrt_append) blast
    with \<open>ys = zs\<close> show ?thesis by (metis append_take_drop_id)
  qed
qed simp

lemma bubbles_total:
  "r \<le> length zs \<Longrightarrow> distinct (map key zs) \<Longrightarrow> \<forall>a \<in> set zs. \<forall>i j. key a < now i j \<Longrightarrow>
     \<exists>ys. bubbles now i r zs = Inr ys"
proof (induction now i r zs rule: bubbles.induct)
  case (2 now i r zs)
  obtain s us where u: "bubble (now i) 0 r zs = Inr (s, us)"
    using bubble_total [of r zs "now i" 0] 2(2-) by auto
  then have m: "mset us = mset zs" using bubble_ok [OF u] 2(2) by simp
  have l: "length us = length zs" "set us = set zs" "distinct (map key us)"
    using m 2(3) by (metis size_mset, metis mset_eq_setD, metis mset_map mset_eq_imp_distinct_iff)
  have "\<exists>ys. bubbles now (Suc i) r us = Inr ys" if s
    by (rule 2(1) [OF u refl]) (use that l 2(2,4) in simp_all)
  then show ?case using u by auto
qed simp

section \<open>The sort on the heap follows the sort on sequences\<close>

lemma BubbleForward_repr:
  assumes r: "repr h list (us @ (p, x) # (q, y) # vs)" and m: "malloc_ok malloc" "malloc_total malloc"
    and f: "finite (dom h)"
  shows "\<exists>p' q' h'. BubbleForward malloc list p q h = Some (p', q', list, h') \<and>
    repr h' list (us @ (p', y) # (q', x) # vs) \<and> finite (dom h')"
proof -
  have r2: "repr h list ((us @ [(p, x)]) @ (q, y) # vs)" using r by simp
  obtain ep where p: "p \<noteq> NULL" "h p = Some ep" "obj ep = x" by (rule node_ends [OF r])
  obtain eq where q: "q \<noteq> NULL" "h q = Some eq" "obj eq = y" by (rule node_ends [OF r2])
  obtain h1 where u1: "My402ListUnlink list p h = Some (dec list, h1)" "repr h1 (dec list) (us @ (q, y) # vs)"
    "finite (dom h1)"
    using w1.unlink_law [OF r] frame_finite [OF _ f nodes_finite] by blast
  obtain h2 where u2: "My402ListUnlink (dec list) q h1 = Some (dec (dec list), h2)" "repr h2 (dec (dec list)) (us @ vs)"
    "finite (dom h2)"
    using w1.unlink_law [OF u1(2)] frame_finite [OF _ u1(3) nodes_finite] by blast
  note t2 = malloc_gives [OF m u2(3)]
  obtain h3 where u3: "(if last_addr us = NULL then My402ListPrepend malloc (dec (dec list)) y h2
       else My402ListInsertAfter malloc (dec (dec list)) y (last_addr us) h2) = Some (TRUE, dec list, h3)"
    "repr h3 (dec list) (us @ (malloc h2, y) # vs)" "finite (dom h3)"
    using w1.put_after_prev [where malloc = malloc and x = y, OF u2(2) t2] frame_finite [OF _ u2(3)]
    by (auto simp: nodes_finite)
  have r3: "repr h3 (dec list) ((us @ [(malloc h2, y)]) @ vs)" using u3(2) by simp
  note t3 = malloc_gives [OF m u3(3)]
  obtain h4 where u4: "(if first_addr vs = NULL then My402ListAppend malloc (dec list) x h3
       else My402ListInsertBefore malloc (dec list) x (first_addr vs) h3) = Some (TRUE, list, h4)"
    "repr h4 list (us @ (malloc h2, y) # (malloc h3, x) # vs)" "finite (dom h4)"
    using w1.put_before_next [where malloc = malloc and x = x, OF r3 t3] frame_finite [OF _ u3(3)]
    by (auto simp: nodes_finite)
  have e1: "(if last_addr us = NULL then My402ListFirst (dec list) h3 else My402ListNext (dec list) (last_addr us) h3) =
      Some (malloc h2)"
    by (rule w1.new_after_prev [OF u3(2)])
  have e2: "(if first_addr vs = NULL then My402ListLast list h4 else My402ListPrev list (first_addr vs) h4) =
      Some (malloc h3)"
    using w1.new_before_next [of h4 list "us @ [(malloc h2, y)]" "malloc h3" x vs] u4(2) by simp
  have "BubbleForward malloc list p q h = Some (malloc h2, malloc h3, list, h4)"
    using p q u1(1) u2(1) u3(1) u4(1) e1 e2 Prev_eq [OF r] Next_eq [OF r2]
    by (cases "last_addr us = NULL"; cases "first_addr vs = NULL") (simp_all add: BubbleForward_def)
  with u4(2,3) show ?thesis by blast
qed

lemma sort_inner_repr:
  assumes "repr h list (us @ (p, x) # vs)" "k \<le> length vs" "malloc_ok malloc" "malloc_total malloc" "finite (dom h)"
  shows "case bubble now j k (x # map snd vs) of
      Inl e \<Rightarrow> sort_inner malloc now j k p sw list h = Inl e
    | Inr (s, ys) \<Rightarrow> \<exists>ws h'. sort_inner malloc now j k p sw list h = Inr (sw \<or> s, list, h') \<and>
        repr h' list (us @ ws) \<and> map snd ws = ys \<and> finite (dom h')"
  using assms
proof (induction k arbitrary: h us p x vs j sw)
  case 0
  then have "\<exists>ws. repr h list (us @ ws) \<and> map snd ws = x # map snd vs \<and> finite (dom h)"
    by (intro exI [of _ "(p, x) # vs"]) simp
  then show ?case by simp
next
  case (Suc k)
  then obtain q y ws where vs: "vs = (q, y) # ws" by (cases vs) auto
  have r: "repr h list (us @ (p, x) # (q, y) # ws)" using Suc.prems(1) vs by simp
  then have r2: "repr h list ((us @ [(p, x)]) @ (q, y) # ws)" by simp
  obtain ep where p: "p \<noteq> NULL" "h p = Some ep" "obj ep = x" by (rule node_ends [OF r])
  obtain eq where q: "q \<noteq> NULL" "h q = Some eq" "obj eq = y" by (rule node_ends [OF r2])
  have n: "My402ListNext list p h = Some q" using Next_eq [OF r] by (simp add: first_addr_def)
  consider "key x = key y \<or> key x \<ge> now j" | "\<not> (key x = key y \<or> key x \<ge> now j)" "key x > key y"
    | "\<not> (key x = key y \<or> key x \<ge> now j)" "\<not> key x > key y" by blast
  then show ?case
  proof cases
    case 1
    then show ?thesis using p q n by (auto simp: vs)
  next
    case 2
    obtain p' q' h' where b: "BubbleForward malloc list p q h = Some (p', q', list, h')"
      "repr h' list ((us @ [(p', y)]) @ (q', x) # ws)" "finite (dom h')"
      using BubbleForward_repr [OF r Suc.prems(3,4,5)] by auto
    show ?thesis
      using Suc.IH [OF b(2) _ Suc.prems(3,4) b(3), of "Suc j" True] Suc.prems(2) 2 p q n b(1)
      by (auto simp: vs Let_def split: sum.splits) (metis list.simps(9) snd_conv append_Cons append_Nil append.assoc)
  next
    case 3
    show ?thesis
      using Suc.IH [OF r2 _ Suc.prems(3,4,5), of "Suc j" sw] Suc.prems(2) 3 p q n
      by (auto simp: vs Let_def split: sum.splits) (metis list.simps(9) snd_conv append_Cons append_Nil append.assoc)
  qed
qed

lemma sort_outer_repr:
  assumes "repr h list xs" "r \<le> length xs" "malloc_ok malloc" "malloc_total malloc" "finite (dom h)"
  shows "case bubbles now i r (map snd xs) of
      Inl e \<Rightarrow> sort_outer malloc now i r list h = Inl e
    | Inr ys \<Rightarrow> \<exists>ws h'. sort_outer malloc now i r list h = Inr (list, h') \<and>
        repr h' list ws \<and> map snd ws = ys \<and> finite (dom h')"
  using assms
proof (induction r arbitrary: h xs i)
  case 0
  then show ?case by auto
next
  case (Suc r)
  then obtain p x vs where xs: "xs = (p, x) # vs" by (cases xs) auto
  have f: "My402ListFirst list h = Some p" using First_eq [OF Suc.prems(1)] xs by (simp add: first_addr_def)
  have "repr h list ([] @ (p, x) # vs)" using Suc.prems(1) xs by simp
  note inner = sort_inner_repr [OF this _ Suc.prems(3,4,5), of r "now i" 0 False]
  show ?case
  proof (cases "bubble (now i) 0 r (x # map snd vs)")
    case (Inl e)
    then show ?thesis using inner f Suc.prems(2) xs by simp
  next
    case (Inr sy)
    obtain s ys where sy: "sy = (s, ys)" by force
    obtain ws h' where w: "sort_inner malloc (now i) 0 r p False list h = Inr (s, list, h')"
      "repr h' list ws" "map snd ws = ys" "finite (dom h')"
      using inner Inr sy Suc.prems(2) xs by auto
    have "length ys = length xs" using bubble_ok [OF Inr [unfolded sy]] Suc.prems(2) xs by (metis size_mset length_map length_Cons Suc_le_eq)
    then have "r \<le> length ws" using w(3) Suc.prems(2) by (metis Suc_leD length_map)
    note IH = Suc.IH [OF w(2) this Suc.prems(3,4) w(4), of "Suc i"]
    show ?thesis using IH w f Inr sy xs by (cases s) (auto simp: w(3) split: sum.splits)
  qed
qed

lemma sortList_repr:
  assumes "repr h list xs" "malloc_ok malloc" "malloc_total malloc" "finite (dom h)"
  shows "case bubbles now 0 (length xs) (map snd xs) of
      Inl e \<Rightarrow> sortList malloc now list (num_members list) h = Inl e
    | Inr ys \<Rightarrow> \<exists>ws h'. sortList malloc now list (num_members list) h = Inr (list, h') \<and>
        repr h' list ws \<and> map snd ws = ys \<and> finite (dom h')"
  using sort_outer_repr [OF assms(1) order_refl assms(2-4), of now 0] assms(1)
  by (simp add: sortList_def My402ListLength_def repr_def split: sum.splits)

section \<open>Numbers and tokens\<close>

lemma of_char_digit [simp]: "d < 10 \<Longrightarrow> (of_char (digit d) :: nat) = 48 + d"
  by (simp add: digit_def)

lemma digit_facts: "d < 10 \<Longrightarrow> isdigit (digit d)" "d < 10 \<Longrightarrow> digit_val (digit d) = d"
  by (simp_all add: isdigit_def digit_val_def)

lemma digits_val_snoc [simp]: "digits_val (xs @ [c]) = 10 * digits_val xs + digit_val c"
  by (simp add: digits_val_def)

lemma digits_val_short [simp]: "digits_val [] = 0" "digits_val [c] = digit_val c"
  by (simp_all add: digits_val_def)

lemma dec_digits_ok: "digits_val (dec_digits n) = n \<and> list_all isdigit (dec_digits n) \<and> dec_digits n \<noteq> []"
proof (induction n rule: dec_digits.induct)
  case (1 n)
  show ?case
  proof (cases "n < 10")
    case True
    then have d: "dec_digits n = [] @ [digit n]" by (simp add: dec_digits.simps [of n])
    show ?thesis unfolding d using True digit_facts by simp
  next
    case False
    then have d: "dec_digits n = dec_digits (n div 10) @ [digit (n mod 10)]" by (simp add: dec_digits.simps [of n])
    show ?thesis unfolding d using 1 [OF False] digit_facts [of "n mod 10"] by simp
  qed
qed

lemma dec_digits_length: "n < 10 ^ Suc k \<Longrightarrow> length (dec_digits n) \<le> Suc k"
proof (induction k arbitrary: n)
  case 0
  then show ?case by (simp add: dec_digits.simps [of n])
next
  case (Suc k)
  then have "n div 10 < 10 ^ Suc k" by (simp add: less_mult_imp_div_less)
  from Suc.IH [OF this] show ?case by (subst dec_digits.simps) auto
qed

lemma isdigit_not:
  assumes "isdigit c"
  shows "\<not> isspace c" "c \<noteq> CHR ''-''" "c \<noteq> CHR ''+''" "c \<noteq> CHR ''.''" "c \<noteq> CHR 0x09" "c \<noteq> CHR 0x0A" "c \<noteq> CHR 0x00"
  using assms by (auto simp: isdigit_def isspace_def)

lemma atol_digits:
  assumes "list_all isdigit ds" "ds \<noteq> []" "int (digits_val ds) \<le> LONG_MAX"
  shows "atol ds = int (digits_val ds)"
proof -
  obtain c cs where ds: "ds = c # cs" using assms(2) by (cases ds) auto
  have c: "isdigit c" using assms(1) ds by simp
  have t: "takeWhile isdigit ds = ds" using assms(1) by (simp add: list_all_iff)
  show ?thesis
    using isdigit_not [OF c] t assms(3) by (simp add: atol_def ds Let_def LONG_MIN_def)
qed

lemma strtok_plain:
  assumes "\<forall>c \<in> set tok. c \<notin> set delim" "tok \<noteq> []" "d \<in> set delim"
  shows "strtok delim (tok @ d # rest) = (Some tok, rest)"
  using assms by (cases tok) (auto simp: strtok_def Let_def takeWhile_append dropWhile_append)

lemma strtok_last:
  assumes "\<forall>c \<in> set tok. c \<notin> set delim" "tok \<noteq> []"
  shows "strtok delim tok = (Some tok, [])"
proof -
  have d: "dropWhile (\<lambda>c. c \<notin> set delim) tok = []" using assms(1) by simp
  have "takeWhile (\<lambda>c. c \<notin> set delim) tok = tok" using assms(1) by auto
  moreover have "tl (dropWhile (\<lambda>c. c \<notin> set delim) tok) = []" by (simp only: d list.sel)
  moreover have "dropWhile (\<lambda>c. c \<in> set delim) tok = tok" using assms by (cases tok) auto
  ultimately show ?thesis using assms(2) by (simp add: strtok_def)
qed

section \<open>Amounts\<close>

lemma unat_le_64: "n < 2 ^ 64 \<Longrightarrow> unat (word_of_nat n :: 64 word) = n"
  by (simp add: unat_of_nat take_bit_eq_mod)

lemma unat_div_mod: "unat (a div 10) = unat (a :: 64 word) div 10" "unat (a div 100) = unat a div 100"
  "unat (a mod 10) = unat a mod 10"
  by (simp_all add: unat_div_distrib unat_mod_distrib)

lemma cents_split: "10 * (10 * (n div 100) + n div 10 mod 10) + n mod 10 = (n :: nat)"
proof -
  have "n div 100 = n div 10 div 10" by (simp add: div_mult2_eq [symmetric])
  then show ?thesis by simp
qed

lemma GetDecimal_digits: "GetDecimal a = [digit (unat a div 10 mod 10), digit (unat a mod 10)]"
  unfolding GetDecimal_def Let_def unat_div_mod by (simp add: dec_digits.simps)

definition amount_text :: "64 word \<Rightarrow> string" where
  "amount_text a = (case GetAmount a of (units, cents) \<Rightarrow> dec_digits (unat units) @ ''.'' @ cents)"

lemma amount_text_eq:
  "amount_text a = dec_digits (unat a div 100) @ CHR ''.'' # [digit (unat a div 10 mod 10), digit (unat a mod 10)]"
  unfolding amount_text_def GetAmount_def Let_def prod.case unat_div_mod(2) GetDecimal_digits by simp

lemma units_length: "n < 10 ^ 9 \<Longrightarrow> length (dec_digits (n div 100)) \<le> 7"
  using dec_digits_length [of "n div 100" 6] by simp

lemma small_long: "n < 10 ^ 9 \<Longrightarrow> int n \<le> LONG_MAX"
  by (simp add: LONG_MAX_def)

lemma Processtoken2_amount:
  assumes "unat a < 10 ^ 9"
  shows "Processtoken2 (amount_text a) = Inr a"
proof -
  let ?n = "unat a"
  let ?u = "dec_digits (?n div 100)" and ?c = "[digit (?n div 10 mod 10), digit (?n mod 10)]"
  have u: "digits_val ?u = ?n div 100" "list_all isdigit ?u" "?u \<noteq> []" using dec_digits_ok by blast+
  have l: "length ?u \<le> 7" using assms by (rule units_length)
  have h: "hd ?u \<noteq> CHR ''.''" using u(2,3) by (cases "?u") (auto dest: isdigit_not)
  have t: "strtok ''.'' (?u @ CHR ''.'' # ?c) = (Some ?u, ?c)"
    by (rule strtok_plain) (use u in \<open>auto simp: list_all_iff dest: isdigit_not\<close>)
  have s: "strtok '''' ?c = (Some ?c, [])" by (rule strtok_last) simp_all
  have "digits_val ((?u @ [digit (?n div 10 mod 10)]) @ [digit (?n mod 10)]) = ?n"
    unfolding digits_val_snoc u(1) using cents_split [of ?n] by (simp add: digit_facts)
  then have v: "digits_val (?u @ ?c) = ?n" by simp
  have "list_all isdigit (?u @ ?c)" using u(2) digit_facts by simp
  moreover have "int (digits_val (?u @ ?c)) \<le> LONG_MAX"
    unfolding v using assms by (rule small_long)
  ultimately have "atol (?u @ ?c) = int ?n"
    using atol_digits [of "?u @ ?c"] unfolding v by blast
  with l h t s u(3) show ?thesis
    unfolding amount_text_eq Processtoken2_def by simp
qed

section \<open>Reading what was written\<close>

text \<open>A line of the input file for a transaction, and the transactions such a line can carry.\<close>

definition print_line :: "bankData \<Rightarrow> string" where
  "print_line b = symbol b # CHR 0x09 # dec_digits (nat (time b)) @ CHR 0x09 # amount_text (amount b) @
     CHR 0x09 # description b @ [CHR 0x0A]"

definition writable :: "bankData \<Rightarrow> bool" where
  "writable b \<longleftrightarrow> symbol b \<in> {CHR ''+'', CHR ''-''} \<and> 0 \<le> time b \<and> time b \<le> LONG_MAX \<and>
     unat (amount b) < 10 ^ 9 \<and> description b \<noteq> [] \<and> \<not> isspace (hd (description b)) \<and>
     length (description b) \<le> 24 \<and> (\<forall>c \<in> set (description b). c \<notin> {CHR 0x09, CHR 0x0A, CHR 0x00})"

lemma amount_text_chars:
  "c \<in> set (amount_text a) \<Longrightarrow> isdigit c \<or> c = CHR ''.''" "amount_text a \<noteq> []"
  using dec_digits_ok [of "unat a div 100"] digit_facts
  unfolding amount_text_eq by (auto simp: list_all_iff)

lemma amount_text_plain: "c \<in> set (amount_text a) \<Longrightarrow> c \<notin> {CHR 0x09, CHR 0x0A, CHR 0x00}"
  using amount_text_chars(1) [of c a] isdigit_not [of c] by auto

lemma dec_digits_plain: "c \<in> set (dec_digits n) \<Longrightarrow> c \<notin> {CHR 0x09, CHR 0x0A, CHR 0x00}"
  using dec_digits_ok [of n] isdigit_not [of c] by (auto simp: list_all_iff)

lemma read_line_print:
  assumes w: "writable b"
  shows "read_line (print_line b) = Inr b"
proof -
  let ?t = "dec_digits (nat (time b))" and ?a = "amount_text (amount b)" and ?d = "description b"
  have t: "atol ?t = time b"
    using w dec_digits_ok [of "nat (time b)"] atol_digits [of ?t] by (simp add: writable_def)
  have s: "symbol b = CHR ''+'' \<or> symbol b = CHR ''-''" "?d \<noteq> []" "\<not> isspace (hd ?d)" "length ?d \<le> 24"
    "unat (amount b) < 10 ^ 9"
    using w by (auto simp: writable_def)
  have 0: "strtok [CHR 0x09] (print_line b) = (Some [symbol b], ?t @ CHR 0x09 # ?a @ CHR 0x09 # ?d @ [CHR 0x0A])"
    using strtok_plain [of "[symbol b]" "[CHR 0x09]" "CHR 0x09"] s(1) by (auto simp: print_line_def)
  have 1: "strtok [CHR 0x09] (?t @ CHR 0x09 # ?a @ CHR 0x09 # ?d @ [CHR 0x0A]) = (Some ?t, ?a @ CHR 0x09 # ?d @ [CHR 0x0A])"
    by (rule strtok_plain) (use dec_digits_plain dec_digits_ok in \<open>fastforce+\<close>)
  have 2: "strtok [CHR 0x09] (?a @ CHR 0x09 # ?d @ [CHR 0x0A]) = (Some ?a, ?d @ [CHR 0x0A])"
    by (rule strtok_plain) (use amount_text_plain amount_text_chars in \<open>fastforce+\<close>)
  have 3: "strtok [CHR 0x09, CHR 0x0A] (?d @ [CHR 0x0A]) = (Some ?d, [])"
    by (rule strtok_plain) (use w in \<open>auto simp: writable_def\<close>)
  have 4: "strtok [CHR 0x0A] [] = (None, [])" by (simp add: strtok_def)
  have k: "spacetrimmer ?d = 0" using s(2,3) by (cases ?d) (simp_all add: spacetrimmer_def)
  show ?thesis
    unfolding read_line_def 0 1 2 3 4 prod.case option.case Let_def k
    using s t Processtoken2_amount [OF s(5)] by auto
qed

lemma fgets_line:
  "CHR 0x0A \<notin> set l \<Longrightarrow> length l + 2 \<le> n \<Longrightarrow> fgets n (l @ CHR 0x0A # rest) = (l @ [CHR 0x0A], rest)"
  by (induction l arbitrary: n) auto

lemma print_line_shape:
  assumes "writable b"
  obtains l where "print_line b = l @ [CHR 0x0A]" "CHR 0x0A \<notin> set l" "CHR 0x00 \<notin> set l" "length l \<le> 100"
proof
  let ?l = "symbol b # CHR 0x09 # dec_digits (nat (time b)) @ CHR 0x09 # amount_text (amount b) @ CHR 0x09 # description b"
  show "print_line b = ?l @ [CHR 0x0A]" by (simp add: print_line_def)
  show "CHR 0x0A \<notin> set ?l" "CHR 0x00 \<notin> set ?l"
    using assms dec_digits_plain amount_text_plain by (fastforce simp: writable_def)+
  have "nat (time b) < 10 ^ Suc 18" using assms by (simp add: writable_def LONG_MAX_def nat_less_iff)
  then have "length (dec_digits (nat (time b))) \<le> 19" using dec_digits_length [of _ 18] by fastforce
  moreover have "length (dec_digits (unat (amount b) div 100)) \<le> 7"
    using assms by (intro units_length) (simp add: writable_def)
  ultimately show "length ?l \<le> 100" using assms by (simp add: writable_def amount_text_eq)
qed

lemma readingFile_step:
  assumes w: "writable b" and a: "My402ListAppend malloc list b h = Some (r, list', h')"
  shows "readingFile malloc (print_line b @ rest) list h = readingFile malloc rest list' h'"
proof -
  obtain l where l: "print_line b = l @ [CHR 0x0A]" "CHR 0x0A \<notin> set l" "CHR 0x00 \<notin> set l" "length l \<le> 100"
    using print_line_shape [OF w] .
  have f: "fgets 1024 (print_line b @ rest) = (print_line b, rest)"
    using fgets_line [OF l(2), of 1024 rest] l(1,4) by simp
  have "cstring (print_line b) = print_line b"
    using l(1,3) by (auto simp: cstring_def takeWhile_eq_all_conv)
  with f show ?thesis
    using l(1) a read_line_print [OF w] by (subst readingFile.simps) simp
qed

lemma readingFile_repr:
  assumes "repr h list xs" "malloc_ok malloc" "malloc_total malloc" "finite (dom h)" "list_all writable bs"
  shows "\<exists>ws h'. readingFile malloc (concat (map print_line bs)) list h =
      Inr (list\<lparr>num_members := num_members list + int (length bs)\<rparr>, h') \<and>
    repr h' (list\<lparr>num_members := num_members list + int (length bs)\<rparr>) (xs @ ws) \<and> map snd ws = bs \<and> finite (dom h')"
  using assms(1,4,5)
proof (induction bs arbitrary: h list xs)
  case Nil
  then show ?case by (simp add: readingFile.simps)
next
  case (Cons b bs)
  note t = malloc_gives [OF assms(2,3) Cons.prems(2)]
  obtain h1 where h1: "My402ListAppend malloc list b h = Some (TRUE, inc list, h1)"
    "repr h1 (inc list) (xs @ [(malloc h, b)])" "frame h h1 (insert (malloc h) (nodes list xs))"
    using w1.append_law [where malloc = malloc and x = b, OF Cons.prems(1) t] by blast
  have f: "finite (dom h1)" using frame_finite [OF h1(3) Cons.prems(2)] nodes_finite by blast
  obtain ws h' where w: "readingFile malloc (concat (map print_line bs)) (inc list) h1 =
      Inr (list\<lparr>num_members := num_members list + 1 + int (length bs)\<rparr>, h')"
    "repr h' (list\<lparr>num_members := num_members list + 1 + int (length bs)\<rparr>) ((xs @ [(malloc h, b)]) @ ws)"
    "map snd ws = bs" "finite (dom h')"
    using Cons.IH [OF h1(2) f] Cons.prems(3) by auto
  have "readingFile malloc (concat (map print_line (b # bs))) list h =
      Inr (list\<lparr>num_members := num_members list + 1 + int (length bs)\<rparr>, h')"
    using readingFile_step [OF _ h1(1)] Cons.prems(3) w(1) by simp
  with w(2-4) show ?case
    by (intro exI [of _ "(malloc h, b) # ws"]) (auto simp: algebra_simps)
qed

section \<open>The table\<close>

fun rows :: "string \<Rightarrow> (int \<Rightarrow> string) \<Rightarrow> 64 word \<Rightarrow> bankData list \<Rightarrow> string list" where
  "rows sep GetTime balance [] = []"
| "rows sep GetTime balance (b # bs) =
     snd (display_row sep GetTime balance b) # rows sep GetTime (fst (display_row sep GetTime balance b)) bs"

lemma display_loop_eq:
  assumes "repr h list xs" "xs = us @ vs"
  shows "display_loop sep GetTime (anchor list) (firstp (anchor list) vs) balance h =
    Some (rows sep GetTime balance (map snd vs))"
  using assms(2)
proof (induction vs arbitrary: us balance)
  case Nil
  obtain ea where "anchor list \<noteq> NULL" "h (anchor list) = Some ea"
    using assms(1) by (auto simp: repr_def elim!: ring_ends)
  then show ?case by (subst display_loop.simps) (simp add: firstp_def)
next
  case (Cons v vs)
  obtain p y where v: "v = (p, y)" by force
  have r: "repr h list (us @ (p, y) # vs)" using assms(1) Cons.prems v by simp
  have IH: "display_loop sep GetTime (anchor list) (firstp (anchor list) vs) bal h =
    Some (rows sep GetTime bal (map snd vs))" for bal
    using Cons.IH [of "us @ [v]"] Cons.prems by simp
  obtain ep where e: "p \<noteq> NULL" "h p = Some ep" "obj ep = y" "nxt ep = firstp (anchor list) vs"
    by (rule node_ends [OF r])
  obtain ea where a: "anchor list \<noteq> NULL" "h (anchor list) = Some ea" "nxt ea = firstp (anchor list) xs"
    using assms(1) by (auto simp: repr_def elim!: ring_ends)
  have "distinct (anchor list # map fst (us @ (p, y) # vs))" using r by (simp add: repr_def ring_def)
  then have "firstp (anchor list) vs \<noteq> firstp (anchor list) xs"
    unfolding Cons.prems v by (cases us; cases vs) (auto simp: firstp_def image_iff)
  with e a IH show ?case
    by (subst display_loop.simps) (simp add: firstp_def v case_prod_beta)
qed

lemma displayResult_eq:
  assumes "repr h list xs"
  shows "displayResult sep GetTime list h =
    Some ([rule_line, title_line, rule_line] @ rows sep GetTime 0 (map snd xs) @ [rule_line])"
proof -
  obtain ea where "anchor list \<noteq> NULL" "h (anchor list) = Some ea" "nxt ea = firstp (anchor list) xs"
    using assms by (auto simp: repr_def elim!: ring_ends)
  then show ?thesis
    using display_loop_eq [OF assms, of "[]" xs sep GetTime 0] by (simp add: displayResult_def)
qed

lemma smod_sdiv_abs: "\<bar>b smod 10\<bar> = \<bar>b\<bar> mod (10 :: int)" "\<bar>b sdiv 10\<bar> = \<bar>b\<bar> div (10 :: int)"
  "0 \<le> b \<Longrightarrow> b sdiv 100 = b div (100 :: int)"
  by (auto simp: signed_modulo_int_def signed_divide_int_def abs_mult sgn_if)

lemma GetBalanceDecimalValues_digits:
  "GetBalanceDecimalValues w = [digit (nat \<bar>sint w\<bar> div 10 mod 10), digit (nat \<bar>sint w\<bar> mod 10)]"
proof -
  let ?b = "sint w"
  have n: "(if x < 0 then x * (-1) else x) = \<bar>x\<bar>" for x :: int by simp
  have "nat \<bar>?b smod 10\<bar> = nat \<bar>?b\<bar> mod 10" "nat \<bar>(?b sdiv 10) smod 10\<bar> = nat \<bar>?b\<bar> div 10 mod 10"
    unfolding smod_sdiv_abs by (simp_all add: nat_mod_distrib nat_div_distrib)
  then show ?thesis
    unfolding GetBalanceDecimalValues_def Let_def n by (simp add: dec_digits.simps)
qed

text \<open>The signed value of a transaction.\<close>

definition signed_amount :: "bankData \<Rightarrow> int" where
  "signed_amount b = (if symbol b = CHR ''+'' then uint (amount b) else - uint (amount b))"

lemma display_row_balance: "fst (display_row sep GetTime balance b) = balance + word_of_int (signed_amount b)"
  by (simp add: display_row_def GetBalance_def GetNegativeFlag_def GetAmount_def Let_def signed_amount_def)

lemma sint_add_exact:
  assumes "- (2 ^ 63) \<le> sint w + k" "sint w + k < 2 ^ 63"
  shows "sint (w + word_of_int k :: 64 word) = sint w + k"
proof -
  have "w + word_of_int k = word_of_int (sint w + k)" by simp
  then have "sint (w + word_of_int k) = signed_take_bit 63 (sint w + k)" by (simp only: sint_sbintrunc') simp
  then show ?thesis using assms by (simp add: signed_take_bit_int_eq_self)
qed

lemma group3_length:
  assumes "length sep = 1"
  shows "length ds \<le> 7 \<Longrightarrow> length (group3 sep ds) \<le> 9"
proof -
  assume l: "length ds \<le> 7"
  have s: "length (group3 sep es) \<le> length es" if "length es \<le> 3" for es
    using that by (simp add: group3.simps)
  have m: "length (group3 sep es) \<le> length es + 1" if "length es \<le> 6" for es
  proof (cases "length es \<le> 3")
    case False
    then have "length (group3 sep (take (length es - 3) es)) \<le> length es - 3"
      using s [of "take (length es - 3) es"] that by simp
    with False show ?thesis using assms by (simp add: group3.simps [of sep es])
  qed (use s [of es] in simp)
  have "length (group3 sep (take (length ds - 3) ds)) \<le> length ds - 3 + 1"
    using m [of "take (length ds - 3) ds"] l by simp
  then show ?thesis
    using l assms by (cases "length ds \<le> 3") (simp_all add: group3.simps [of sep ds])
qed

lemma pad_lengths [simp]: "length (pad_left w s) = max w (length s)" "length (pad_right w s) = max w (length s)"
  by (simp_all add: pad_left_def pad_right_def)

text \<open>The two money columns of a row, by what they print.\<close>

definition amount_column :: "string \<Rightarrow> bankData \<Rightarrow> string" where
  "amount_column sep b =
     (if symbol b \<noteq> CHR ''+''
      then ''('' @ fmt_lu sep 9 (amount b div 100) @ ''.'' @ GetDecimal (amount b) @ '')''
      else fmt_lu sep 10 (amount b div 100) @ ''.'' @ GetDecimal (amount b) @ '' '')"

definition balance_column :: "string \<Rightarrow> 64 word \<Rightarrow> string" where
  "balance_column sep w =
     (if sint w < 10000000
      then (if sint w > 0 then fmt_ld sep 10 (sint w sdiv 100) @ ''.'' @ GetBalanceDecimalValues w @ '' ''
            else ''('' @ fmt_ld sep 9 (sint (- w) sdiv 100) @ ''.'' @ GetBalanceDecimalValues w @ '')'')
      else '' ?,???,???.?? '')"

lemma display_row_columns:
  "snd (display_row sep GetTime balance b) =
     ''| '' @ pad_left 14 (GetTime (time b)) @ '' | '' @ pad_right 24 (description b) @ '' | '' @
     amount_column sep b @ '' | '' @ balance_column sep (fst (display_row sep GetTime balance b)) @ '' |''"
  by (simp add: display_row_def GetBalance_def GetNegativeFlag_def GetAmount_def Let_def
      amount_column_def balance_column_def)

lemma amount_column_width:
  assumes "length sep = 1" "unat (amount b) < 10 ^ 9"
  shows "length (amount_column sep b) = 14"
proof -
  have "length (group3 sep (dec_digits (unat (amount b div 100)))) \<le> 9"
    unfolding unat_div_mod by (rule group3_length [OF assms(1) units_length [OF assms(2)]])
  then show ?thesis
    unfolding amount_column_def GetDecimal_digits fmt_lu_def by simp
qed

lemma balance_column_width:
  assumes sep: "length sep = 1" and bal: "\<bar>sint w\<bar> < 10 ^ 9"
  shows "length (balance_column sep w) = 14"
proof -
  have p: "length (group3 sep (dec_digits (nat (\<bar>sint w\<bar> div 100)))) \<le> 9"
  proof (rule group3_length [OF sep])
    have "nat \<bar>sint w\<bar> < 10 ^ 9" using bal by (simp add: nat_less_iff)
    from units_length [OF this] show "length (dec_digits (nat (\<bar>sint w\<bar> div 100))) \<le> 7"
      by (simp add: nat_div_distrib)
  qed
  have n: "sint (- w) = - sint w"
    using sint_add_exact [of 0 "- sint w"] bal by simp
  consider "sint w \<ge> 10000000" | "sint w < 10000000" "sint w > 0" | "sint w \<le> 0" by linarith
  then show ?thesis
  proof cases
    case 2
    then have "\<bar>sint w\<bar> div 100 = sint w sdiv 100" "0 \<le> sint w sdiv 100"
      using smod_sdiv_abs(3) [of "sint w"] by simp_all
    with 2 p show ?thesis
      unfolding balance_column_def GetBalanceDecimalValues_digits fmt_ld_def by simp
  next
    case 3
    then have "\<bar>sint w\<bar> div 100 = sint (- w) sdiv 100" "0 \<le> sint (- w) sdiv 100"
      using smod_sdiv_abs(3) [of "- sint w"] n by simp_all
    with 3 p show ?thesis
      unfolding balance_column_def GetBalanceDecimalValues_digits fmt_ld_def by simp
  qed (simp add: balance_column_def)
qed

lemma rows_width:
  assumes sep: "length sep = 1" and gt: "\<And>t. length (GetTime t) = 15"
  shows "\<forall>b \<in> set bs. unat (amount b) < 10 ^ 9 \<and> length (description b) \<le> 24 \<Longrightarrow>
    \<forall>n \<le> length bs. \<bar>sint w + sum_list (map signed_amount (take n bs))\<bar> < 10 ^ 9 \<Longrightarrow>
    \<forall>r \<in> set (rows sep GetTime w bs). length r = 80"
proof (induction bs arbitrary: w)
  case (Cons b bs)
  let ?w = "fst (display_row sep GetTime w b)"
  have 1: "\<bar>sint w + signed_amount b\<bar> < 10 ^ 9" using Cons.prems(2) by (auto dest: spec [of _ 1])
  have w: "sint ?w = sint w + signed_amount b"
    unfolding display_row_balance by (rule sint_add_exact) (use 1 in auto)
  have "\<bar>sint ?w + sum_list (map signed_amount (take n bs))\<bar> < 10 ^ 9" if "n \<le> length bs" for n
    using Cons.prems(2) [rule_format, of "Suc n"] that w by (simp add: add.assoc)
  then have "\<forall>r \<in> set (rows sep GetTime ?w bs). length r = 80" using Cons.IH [of ?w] Cons.prems(1) by auto
  moreover have "length (snd (display_row sep GetTime w b)) = 80"
    unfolding display_row_columns
    using amount_column_width [OF sep, of b] balance_column_width [OF sep, of ?w] Cons.prems(1) 1 w gt by simp
  ultimately show ?case by simp
qed simp

lemma balance_fold:
  "\<forall>n \<le> length bs. \<bar>sint w + sum_list (map signed_amount (take n bs))\<bar> < 2 ^ 63 \<Longrightarrow>
   sint (foldl (\<lambda>w b. fst (display_row sep GetTime w b)) w bs) = sint w + sum_list (map signed_amount bs)"
proof (induction bs arbitrary: w)
  case (Cons b bs)
  let ?w = "fst (display_row sep GetTime w b)"
  have "\<bar>sint w + signed_amount b\<bar> < 2 ^ 63" using Cons.prems [rule_format, of 1] by simp
  then have w: "sint ?w = sint w + signed_amount b"
    unfolding display_row_balance by (intro sint_add_exact) auto
  have "\<bar>sint ?w + sum_list (map signed_amount (take n bs))\<bar> < 2 ^ 63" if "n \<le> length bs" for n
    using Cons.prems [rule_format, of "Suc n"] that w by (simp add: add.assoc)
  then have "sint (foldl (\<lambda>w b. fst (display_row sep GetTime w b)) ?w bs) = sint ?w + sum_list (map signed_amount bs)"
    by (intro Cons.IH) auto
  then show ?case using w by simp
qed simp

lemma bubble_error: "bubble now j k zs = Inl e \<Longrightarrow> k < length zs \<Longrightarrow> e = Exit ''THere is error in timestamp''"
  by (induction now j k zs rule: bubble.induct) (auto split: if_splits sum.splits)

lemma bubbles_error: "bubbles now i r zs = Inl e \<Longrightarrow> r \<le> length zs \<Longrightarrow> e = Exit ''THere is error in timestamp''"
proof (induction now i r zs rule: bubbles.induct)
  case (2 now i r zs)
  show ?case
  proof (cases "bubble (now i) 0 r zs")
    case (Inl e')
    then show ?thesis using bubble_error [OF Inl] 2(2,3) by simp
  next
    case (Inr sy)
    obtain s ys where sy: "sy = (s, ys)" by force
    then have "length ys = length zs" using bubble_ok [OF Inr [unfolded sy]] 2(3) by (metis Suc_le_eq size_mset)
    then show ?thesis using 2(1) [OF Inr sy [symmetric]] 2(2,3) Inr sy by (simp split: if_splits)
  qed
qed simp

lemma increasing_distinct: "increasing zs \<Longrightarrow> distinct (map key zs)"
  by (induction zs) auto

lemma bubbles_sorted: "bubbles now i (length zs) zs = Inr ys \<Longrightarrow> mset ys = mset zs \<and> increasing ys"
  using bubbles_ok [of now i "length zs" zs ys] by simp

section \<open>Properties of the program\<close>

text \<open>A small run: two transactions in the wrong order, on a heap that holds only the anchor.\<close>

definition demo1 :: bankData where
  "demo1 = \<lparr>symbol = CHR ''+'', time = 20, amount = 12345, description = ''pay''\<rparr>"

definition demo2 :: bankData where
  "demo2 = \<lparr>symbol = CHR ''-'', time = 10, amount = 250, description = ''tea''\<rparr>"

definition demo_heap :: "bankData heap" where
  "demo_heap = [5 \<mapsto> \<lparr>obj = demo1, nxt = 5, prv = 5\<rparr>]"

definition demo_list :: My402List where
  "demo_list = \<lparr>num_members = 0, anchor = 5\<rparr>"

definition demo_env :: environment where
  "demo_env = \<lparr>exists_ok = (\<lambda>_. False), read_ok = (\<lambda>_. False), is_dir = (\<lambda>_. False), fopen = (\<lambda>_. None),
     stdin = concat (map print_line [demo1, demo2])\<rparr>"

definition demo_heap2 :: "bankData heap" where
  "demo_heap2 = [5 \<mapsto> \<lparr>obj = demo1, nxt = 6, prv = 7\<rparr>, 6 \<mapsto> \<lparr>obj = demo1, nxt = 7, prv = 5\<rparr>,
     7 \<mapsto> \<lparr>obj = demo1, nxt = 5, prv = 6\<rparr>]"

definition demo_list2 :: My402List where
  "demo_list2 = \<lparr>num_members = 2, anchor = 5\<rparr>"

lemma demo_facts: "writable demo1" "writable demo2" "key demo1 = 20" "key demo2 = 10"
  "repr demo_heap demo_list []" "repr demo_heap2 demo_list2 [(6, demo1), (7, demo1)]"
  "finite (dom demo_heap)" "finite (dom demo_heap2)"
  by (simp_all add: writable_def demo1_def demo2_def isspace_def LONG_MAX_def cast_int_def signed_take_bit_def
      demo_heap_def demo_heap2_def demo_list_def demo_list2_def repr_def ring_def nx_def pv_def ob_def)





text \<open>
  \<open>sortList\<close> never sorts a list in which two transactions have the same time stamp: it
  exits with the time stamp error, and in no case does it dereference a bad pointer.
\<close>

theorem sort_rejects_duplicates:
  assumes r: "repr h list xs" and m: "malloc_ok malloc" "malloc_total malloc" "finite (dom h)"
    and d: "\<not> distinct (map key (map snd xs))"
  shows "sortList malloc now list (num_members list) h = Inl (Exit ''THere is error in timestamp'')"
proof (cases "bubbles now 0 (length xs) (map snd xs)")
  case (Inl e)
  then show ?thesis using sortList_repr [OF r m, of now] bubbles_error [OF Inl] by simp
next
  case (Inr ys)
  then have "mset ys = mset (map snd xs)" "increasing ys" using bubbles_sorted [of now 0 "map snd xs" ys] by auto
  then have False using d increasing_distinct by (metis mset_map mset_eq_imp_distinct_iff)
  then show ?thesis ..
qed

theorem sort_rejects_duplicates_witness:
  "repr demo_heap2 demo_list2 [(6, demo1), (7, demo1)] \<and>
   sortList bump (\<lambda>i j. 100) demo_list2 (num_members demo_list2) demo_heap2 = Inl (Exit ''THere is error in timestamp'')"
  using sort_rejects_duplicates [OF demo_facts(6) bump_ok bump_total demo_facts(8)] demo_facts(6) by simp

text \<open>
  C37.  An amount below ten million, printed as \<open>GetAmount\<close> and \<open>GetDecimal\<close> split it, is read
  back by \<open>Processtoken2\<close>.
\<close>

theorem amount_roundtrip:
  assumes "unat a < 10 ^ 9"
  shows "Processtoken2 (amount_text a) = Inr a"
  using assms by (rule Processtoken2_amount)

theorem amount_roundtrip_witness: "unat (12345 :: 64 word) < 10 ^ 9 \<and> Processtoken2 ''123.45'' = Inr 12345"
proof -
  have "amount_text 12345 = ''123.45''"
    by code_simp
  then show ?thesis using amount_roundtrip [of 12345] by simp
qed

text \<open>
  C31.  Reading back: \<open>readingFile\<close> on the lines printed for a list of transactions appends
  exactly these transactions to the list, in order.
\<close>

theorem file_roundtrip:
  assumes "repr h list xs" "malloc_ok malloc" "malloc_total malloc" "finite (dom h)" "list_all writable bs"
  shows "\<exists>list' ws h'. readingFile malloc (concat (map print_line bs)) list h = Inr (list', h') \<and>
    repr h' list' (xs @ ws) \<and> map snd ws = bs"
  using readingFile_repr [OF assms] by blast

theorem file_roundtrip_witness:
  "repr demo_heap demo_list [] \<and> list_all writable [demo1, demo2] \<and>
   (\<exists>list' ws h'. readingFile bump (print_line demo1 @ print_line demo2) demo_list demo_heap = Inr (list', h') \<and>
      repr h' list' ws \<and> map snd ws = [demo1, demo2])"
  using file_roundtrip [OF demo_facts(5) bump_ok bump_total demo_facts(7), of "[demo1, demo2]"] demo_facts(1,2,5) by simp

text \<open>
  The running balance of \<open>GetBalance\<close>, kept in a \<open>long\<close>, is the exact sum of the signed
  amounts as long as no partial sum leaves the range of \<open>long\<close>, although the subtraction is
  done by unsigned wrap-around.
\<close>

theorem balance_exact:
  assumes "\<forall>n \<le> length bs. \<bar>sum_list (map signed_amount (take n bs))\<bar> < 2 ^ 63"
  shows "sint (foldl (\<lambda>w b. fst (display_row sep GetTime w b)) 0 bs) = sum_list (map signed_amount bs)"
  using balance_fold [of bs 0 sep GetTime] assms by simp

lemma demo_sums:
  assumes "n \<le> length [demo1, demo2]"
  shows "\<bar>sum_list (map signed_amount (take n [demo1, demo2]))\<bar> < 10 ^ 9"
proof -
  have "n = 0 \<or> n = 1 \<or> n = 2" using assms by auto
  then show ?thesis by (auto simp: signed_amount_def demo1_def demo2_def)
qed

theorem balance_exact_witness:
  "sint (foldl (\<lambda>w b. fst (display_row '','' (\<lambda>t. []) w b)) 0 [demo1, demo2]) = 12095"
proof -
  have "\<forall>n \<le> length [demo1, demo2]. \<bar>sum_list (map signed_amount (take n [demo1, demo2]))\<bar> < 2 ^ 63"
    using demo_sums by fastforce
  from balance_exact [OF this] show ?thesis by (simp add: signed_amount_def demo1_def demo2_def)
qed

text \<open>
  The table is aligned: with a one-character thousands separator and 15-character dates,
  every row is as wide as the frame, 80 columns, as long as amounts and balances are below ten
  million.
\<close>

theorem table_aligned:
  assumes "length sep = 1" "\<And>t. length (GetTime t) = 15"
    and "\<forall>b \<in> set bs. unat (amount b) < 10 ^ 9 \<and> length (description b) \<le> 24"
    and "\<forall>n \<le> length bs. \<bar>sum_list (map signed_amount (take n bs))\<bar> < 10 ^ 9"
  shows "\<forall>r \<in> set (rows sep GetTime 0 bs). length r = length rule_line"
  using rows_width [OF assms(1,2), of bs 0] assms(3,4) by (simp add: rule_line_def)

theorem table_aligned_witness:
  "list_all (\<lambda>r. length r = length rule_line) (rows '','' (\<lambda>t. ''Thu Jan  1 1970'') 0 [demo1, demo2])"
  unfolding list_all_iff
proof (rule table_aligned)
  show "\<forall>b \<in> set [demo1, demo2]. unat (amount b) < 10 ^ 9 \<and> length (description b) \<le> 24"
    by (simp add: demo1_def demo2_def)
qed (use demo_sums in simp_all)

end
