(* ===== verification/Warmup2.thy ===== *)
theory Warmup2
  imports List402T Warmup1
begin

text \<open>
  The token bucket emulation \<^verbatim>\<open>src/Threading/warmup2.c\<close>: a packet thread, a token thread, two servers, a thread that waits for
  an interrupt, and the main thread, all over shared queues, counters and flags.

  Each thread has a program counter, and a step of it runs up to the next access to something that another thread may change at the
  same time.  Code between \<open>pthread_mutex_lock\<close> and \<open>pthread_mutex_unlock\<close> is one step, apart from the wait of the servers for
  packets: what is accessed there is written elsewhere only by threads that hold the mutex or, for the flags, in steps of their own.
  An unprotected \<open>++\<close> on a counter that two threads increment is a step that reads and a step that writes.
  \<open>pthread_mutex_unlock\<close> by a thread that does not hold the mutex releases it, as the default mutex of the C library does,
  and is recorded in \<open>bad_unlock\<close>.  A thread that has been cancelled ends in \<open>usleep\<close> or \<open>sigwait\<close>.

  The queues are lists of packets: \<^verbatim>\<open>my402list.c\<close>, on which the program keeps them, is the theory \<open>List402T\<close>, where
  \<open>move_between_queues\<close> shows this for what the program does with them.  Times are left out: a thread that sleeps may be delayed for
  any time, so that every order of steps which some choice of times allows is an order of steps here.  Messages are
  recorded without their times, and the statistics, which are computed from times, are not modelled.
\<close>

section \<open>Parameters\<close>

record parameters =
  filename :: "string option"
  bucket_size :: int
  token_required :: int
  packet_count :: int

text \<open>\<open>lambda\<close>, \<open>mu\<close> and \<open>r\<close> are times; only whether they were given as zero matters here.\<close>

definition atoi :: "string \<Rightarrow> int" where
  "atoi s = cast_int (atol s)"

datatype opt = Opt_l string | Opt_m string | Opt_r string | Opt_B string | Opt_P string | Opt_n string | Opt_t string | Opt_bad

text \<open>
  One round of the loop over the options.  \<open>atof_zero\<close> tells whether \<open>atof\<close> gives 0 for a text.
\<close>

definition one_option :: "(string \<Rightarrow> bool) \<Rightarrow> opt \<Rightarrow> parameters \<Rightarrow> stop + parameters" where
  "one_option atof_zero opt data =
     (case opt of
        Opt_l a \<Rightarrow> if atof_zero a then Inl (Exit ''Malformed Command Line .Please provide appropriate value for Packet arrival time'') else Inr data
      | Opt_m a \<Rightarrow> if atof_zero a then Inl (Exit ''Malformed Command Line. Please provide appropriate value for packet Serving time'') else Inr data
      | Opt_r a \<Rightarrow> if atof_zero a then Inl (Exit ''Malformed Command Line, Please provide appropriate value for Token Arrival time.'') else Inr data
      | Opt_B a \<Rightarrow> if atoi a \<le> 0 \<or> atoi a > 2147483647 then Inl (Exit '' Malformed Command Line Please provide appropriate value for Bucket Size'')
          else Inr (data\<lparr>bucket_size := atoi a\<rparr>)
      | Opt_P a \<Rightarrow> if atoi a > 2147483647 then Inl (Exit ''Invalid value of tokens, Token Required cannot be more than 2147483647'')
          else if atoi a < 1 then Inl (Exit ''Invalid value of token, Token Required not appropriate'')
          else Inr (data\<lparr>token_required := atoi a\<rparr>)
      | Opt_n a \<Rightarrow> if atoi a > 2147483647 then Inl (Exit ''Invalid value of packets, Packet count cannot be more than 2147483647'')
          else if atoi a < 1 then Inl (Exit ''Invalid value for packets, Packet count must be positive value'')
          else Inr (data\<lparr>packet_count := atoi a\<rparr>)
      | Opt_t a \<Rightarrow> Inr (data\<lparr>filename := Some a\<rparr>)
      | Opt_bad \<Rightarrow> Inl (Exit ''Incomplete or Invalid command line arguments passed''))"

fun options_loop :: "(string \<Rightarrow> bool) \<Rightarrow> opt list \<Rightarrow> parameters \<Rightarrow> stop + parameters" where
  "options_loop atof_zero [] data = Inr data"
| "options_loop atof_zero (opt # opts) data =
     (case one_option atof_zero opt data of Inl e \<Rightarrow> Inl e | Inr data \<Rightarrow> options_loop atof_zero opts data)"

text \<open>What the system tells about the file, and its contents if it can be opened.\<close>

record trace_file =
  tf_exists :: bool
  tf_readable :: bool
  tf_directory :: bool
  tf_contents :: "string option"

definition VerifyFile :: "trace_file \<Rightarrow> parameters \<Rightarrow> stop + parameters \<times> string" where
  "VerifyFile f data =
     (if \<not> tf_exists f then Inl (Exit ''File doesn't exist'')
      else if \<not> tf_readable f then Inl (Exit ''File no Read Permission.'')
      else if tf_directory f then Inl (Exit ''It's a Directory'')
      else case tf_contents f of
        None \<Rightarrow> Inl (Exit ''File pointer is NULL. Exitting!!'')
      | Some input \<Rightarrow>
          let (line, rest) = fgets 1024 input;
              data = (if input \<noteq> [] then data\<lparr>packet_count := atoi (cstring line)\<rparr> else data)
          in if packet_count data = 0 then Inl (Exit ''Packet cannot be zero , exitting.'') else Inr (data, rest))"

definition setdefaults :: "parameters \<Rightarrow> parameters" where
  "setdefaults data =
     (let data = (if bucket_size data = 0 then data\<lparr>bucket_size := 10\<rparr> else data);
          data = (if token_required data = 0 then data\<lparr>token_required := 3\<rparr> else data)
      in if packet_count data = 0 then data\<lparr>packet_count := 20\<rparr> else data)"

text \<open>
  \<open>opts\<close> is what \<open>getopt_long_only\<close> returns, option by option.  With \<open>argc\<close> arguments, two are expected for each option.
\<close>

definition get_Parameters :: "(string \<Rightarrow> bool) \<Rightarrow> (string \<Rightarrow> trace_file) \<Rightarrow> nat \<Rightarrow> opt list \<Rightarrow> stop + parameters \<times> string" where
  "get_Parameters atof_zero fs argc opts =
     (case options_loop atof_zero opts \<lparr>filename = None, bucket_size = 0, token_required = 0, packet_count = 0\<rparr> of
        Inl e \<Rightarrow> Inl e
      | Inr data \<Rightarrow>
          if 1 + 2 * length opts < argc then Inl (Exit '' Malformed Command Line Invalid command line arguments passed'')
          else (case filename data of
              None \<Rightarrow> Inr (setdefaults data, [])
            | Some name \<Rightarrow> (case VerifyFile (fs name) data of Inl e \<Rightarrow> Inl e | Inr (data, rest) \<Rightarrow> Inr (setdefaults data, rest))))"

section \<open>State\<close>

record packet =
  packet_id :: int
  required_token :: int

datatype server = Server1 | Server2

datatype thread = Packet_thread | Bucket_thread | Server_thread server | Handle_thread | Main_thread

text \<open>The messages the threads print, without the times.\<close>

datatype message =
    Dropped packet | Arrives packet | Enters_Q1 packet | Leaves_Q1 packet | Enters_Q2 packet
  | Token_dropped int | Token_arrives int int
  | Leaves_Q2 packet | Begins server packet | Departs server packet | Interrupted | Removed packet int

datatype packet_pc =
    P_loop | P_sleep packet | P_drop int | P_lock packet | P_locked packet | P_unlock | P_broadcast | P_done

datatype bucket_pc = B_check | B_sleep | B_lock | B_locked | B_unlock | B_broadcast | B_done

datatype server_pc =
    S_lock | S_test | S_wait | S_blocked | S_relock | S_unlock packet | S_leave packet | S_begin packet | S_serve packet | S_count int | S_check | S_exit | S_done

datatype handler_pc = H_sigwait | H_lock | H_locked | H_unlock | H_done

datatype main_pc = M_join_packet | M_join_bucket | M_join_server2 | M_join_server1 | M_check | M_join_handle | M_done

record sim =
  total_packet_count :: int
  total_token_count :: int
  current_token_number :: int
  dropped_token_count :: int
  dropped_packet_count :: int
  packet_served :: int
  packets_processed :: int
  stop_packet_thread :: bool
  stop_bucket_thread :: bool
  stopserver :: "server \<Rightarrow> bool"
  Q1_list :: "packet list"
  Q2_list :: "packet list"
  fp :: string
  token_mutex :: "thread option"
  bad_unlock :: bool
  exited :: bool
  cancelled :: "thread \<Rightarrow> bool"
  loop_i :: int
  ppc :: packet_pc
  bpc :: bucket_pc
  spc :: "server \<Rightarrow> server_pc"
  hpc :: handler_pc
  mpc :: main_pc
  stdout :: "message list"

definition initial :: "string \<Rightarrow> sim" where
  "initial input = \<lparr>total_packet_count = 0, total_token_count = 0, current_token_number = 0, dropped_token_count = 0,
     dropped_packet_count = 0, packet_served = 0, packets_processed = 0, stop_packet_thread = False, stop_bucket_thread = False,
     stopserver = (\<lambda>_. False), Q1_list = [], Q2_list = [], fp = input, token_mutex = None, bad_unlock = False, exited = False,
     cancelled = (\<lambda>_. False), loop_i = 0, ppc = P_loop, bpc = B_check, spc = (\<lambda>_. S_lock), hpc = H_sigwait, mpc = M_join_packet, stdout = []\<rparr>"

text \<open>The operations on the mutex and the condition, and \<open>printf\<close>.\<close>

definition pthread_mutex_unlock :: "thread \<Rightarrow> sim \<Rightarrow> sim" where
  "pthread_mutex_unlock t s = s\<lparr>token_mutex := None, bad_unlock := (bad_unlock s \<or> token_mutex s \<noteq> Some t)\<rparr>"

definition pthread_cond_broadcast :: "sim \<Rightarrow> sim" where
  "pthread_cond_broadcast s = s\<lparr>spc := (\<lambda>k. if spc s k = S_blocked then S_relock else spc s k)\<rparr>"

definition print :: "message list \<Rightarrow> sim \<Rightarrow> sim" where
  "print ms s = s\<lparr>stdout := stdout s @ ms\<rparr>"

section \<open>The packet thread\<close>

definition fill_packet_data_deterministically :: "parameters \<Rightarrow> sim \<Rightarrow> packet \<times> sim" where
  "fill_packet_data_deterministically argobj s =
     (let n = total_packet_count s + 1
      in (\<lparr>packet_id = n, required_token = token_required argobj\<rparr>, s\<lparr>total_packet_count := n\<rparr>))"

text \<open>
  The separators of \<open>strtok\<close> are the characters of \<^verbatim>\<open>" /t"\<close>.  At the end of the file the fields keep what \<open>malloc\<close> left in
  them, \<open>junk\<close>.  A line that is not well formed ends the program.  The other two numbers are times.
\<close>

definition trace_sep :: string where
  "trace_sep = '' /t''"

definition trace_line :: "string \<Rightarrow> int option" where
  "trace_line line =
     (if line \<noteq> [] \<and> isspace (hd line) then None
      else case strtok trace_sep line of
        (None, _) \<Rightarrow> None
      | (Some _, rest) \<Rightarrow>
      case strtok trace_sep rest of
        (None, _) \<Rightarrow> None
      | (Some token, rest) \<Rightarrow>
      case strtok trace_sep rest of
        (None, _) \<Rightarrow> None
      | (Some _, rest) \<Rightarrow> if fst (strtok trace_sep rest) \<noteq> None then None else Some (atoi token))"

definition fill_packet_data_tracefile :: "int \<Rightarrow> sim \<Rightarrow> packet option \<times> sim" where
  "fill_packet_data_tracefile junk s =
     (let n = total_packet_count s + 1 in
      if fp s = [] then (Some \<lparr>packet_id = n, required_token = junk\<rparr>, s\<lparr>total_packet_count := n\<rparr>)
      else
        (case fgets 1024 (fp s) of (buff, rest) \<Rightarrow>
         case trace_line (cstring buff) of
           None \<Rightarrow> (None, s\<lparr>fp := rest, exited := True\<rparr>)
         | Some r \<Rightarrow> (Some \<lparr>packet_id = n, required_token = r\<rparr>, s\<lparr>fp := rest, total_packet_count := n\<rparr>)))"

text \<open>The first packet of Q1 moves to Q2 if there are tokens for it: the same code in the packet and the token thread.\<close>

definition serve_Q1 :: "sim \<Rightarrow> sim" where
  "serve_Q1 s =
     (case Q1_list s of
        [] \<Rightarrow> s
      | p # ps \<Rightarrow>
          if required_token p \<le> current_token_number s then
            let s = s\<lparr>Q1_list := ps, current_token_number := current_token_number s - required_token p\<rparr>;
                s = print [Leaves_Q1 p] s;
                s = s\<lparr>Q2_list := Q2_list s @ [p], packets_processed := packets_processed s + 1\<rparr>;
                s = print [Enters_Q2 p] s
            in if 1 \<le> length (Q2_list s) then pthread_cond_broadcast s else s
          else s)"

text \<open>A step of the packet thread; \<open>None\<close>: it waits for the mutex, or it has ended.\<close>

definition packet_thread_function :: "parameters \<Rightarrow> int \<Rightarrow> sim \<Rightarrow> sim option" where
  "packet_thread_function argobj junk s =
     (case ppc s of
        P_loop \<Rightarrow>
          if packet_count argobj \<le> loop_i s then Some (s\<lparr>stop_packet_thread := True, ppc := P_broadcast\<rparr>)
          else if filename argobj = None then
            (case fill_packet_data_deterministically argobj s of (p, s) \<Rightarrow> Some (s\<lparr>ppc := P_sleep p\<rparr>))
          else
            (case fill_packet_data_tracefile junk s of
               (None, s) \<Rightarrow> Some s
             | (Some p, s) \<Rightarrow> Some (s\<lparr>ppc := P_sleep p\<rparr>))
      | P_broadcast \<Rightarrow> Some ((pthread_cond_broadcast s)\<lparr>ppc := P_done\<rparr>)
      | P_sleep p \<Rightarrow>
          if cancelled s Packet_thread then Some (s\<lparr>ppc := P_done\<rparr>)
          else if bucket_size argobj < required_token p then
            Some ((print [Dropped p] s)\<lparr>dropped_packet_count := dropped_packet_count s + 1, ppc := P_drop (packets_processed s)\<rparr>)
          else Some (s\<lparr>ppc := P_lock p\<rparr>)
      | P_drop n \<Rightarrow> Some (s\<lparr>packets_processed := n + 1, loop_i := loop_i s + 1, ppc := P_loop\<rparr>)
      | P_lock p \<Rightarrow> if token_mutex s = None then Some (s\<lparr>token_mutex := Some Packet_thread, ppc := P_locked p\<rparr>) else None
      | P_locked p \<Rightarrow>
          let s = print [Arrives p] s;
              s = s\<lparr>Q1_list := Q1_list s @ [p]\<rparr>;
              s = print [Enters_Q1 p] s;
              s = (if 0 < length (Q1_list s) then serve_Q1 s else s)
          in Some (s\<lparr>ppc := P_unlock\<rparr>)
      | P_unlock \<Rightarrow> Some ((pthread_mutex_unlock Packet_thread s)\<lparr>loop_i := loop_i s + 1, ppc := P_loop\<rparr>)
      | P_done \<Rightarrow> None)"

section \<open>The token thread\<close>

definition bucket_thread_function :: "parameters \<Rightarrow> sim \<Rightarrow> sim option" where
  "bucket_thread_function argobj s =
     (case bpc s of
        B_check \<Rightarrow>
          if stop_packet_thread s \<and> length (Q1_list s) = 0 then Some (s\<lparr>stop_bucket_thread := True, bpc := B_broadcast\<rparr>)
          else Some (s\<lparr>bpc := B_sleep\<rparr>)
      | B_broadcast \<Rightarrow> Some ((pthread_cond_broadcast s)\<lparr>bpc := B_done\<rparr>)
      | B_sleep \<Rightarrow> if cancelled s Bucket_thread then Some (s\<lparr>bpc := B_done\<rparr>) else Some (s\<lparr>bpc := B_lock\<rparr>)
      | B_lock \<Rightarrow> if token_mutex s = None then Some (s\<lparr>token_mutex := Some Bucket_thread, bpc := B_locked\<rparr>) else None
      | B_locked \<Rightarrow>
          let s = s\<lparr>total_token_count := total_token_count s + 1\<rparr>
          in if bucket_size argobj \<le> current_token_number s then
               Some ((print [Token_dropped (total_token_count s)] s)\<lparr>dropped_token_count := dropped_token_count s + 1, bpc := B_unlock\<rparr>)
             else
               let s = s\<lparr>current_token_number := current_token_number s + 1\<rparr>;
                   s = print [Token_arrives (total_token_count s) (current_token_number s)] s;
                   s = (if 0 < length (Q1_list s) then serve_Q1 s else s)
               in Some (s\<lparr>bpc := B_unlock\<rparr>)
      | B_unlock \<Rightarrow> Some ((pthread_mutex_unlock Bucket_thread s)\<lparr>bpc := B_check\<rparr>)
      | B_done \<Rightarrow> None)"

section \<open>The servers\<close>

text \<open>
  The code of \<open>server1_thread_function\<close> and \<open>server2_thread_function\<close> is the same up to the names of the server and its flag.
\<close>

definition server_thread_function :: "server \<Rightarrow> sim \<Rightarrow> sim option" where
  "server_thread_function k s =
     (let goto = (\<lambda>pc s. s\<lparr>spc := (spc s)(k := pc)\<rparr>) in
      case spc s k of
        S_lock \<Rightarrow> if token_mutex s = None then Some (goto S_test (s\<lparr>token_mutex := Some (Server_thread k)\<rparr>)) else None
      | S_test \<Rightarrow>
          if length (Q2_list s) = 0 \<and> (\<not> stop_bucket_thread s \<or> \<not> stop_packet_thread s) then Some (goto S_wait s)
          else (case Q2_list s of
              p # ps \<Rightarrow> Some (goto (S_unlock p) (s\<lparr>Q2_list := ps\<rparr>))
            | [] \<Rightarrow> Some (goto S_check s))
      | S_wait \<Rightarrow> Some (goto S_blocked (s\<lparr>token_mutex := None\<rparr>))
      | S_blocked \<Rightarrow> None
      | S_relock \<Rightarrow> if token_mutex s = None then Some (goto S_test (s\<lparr>token_mutex := Some (Server_thread k)\<rparr>)) else None
      | S_unlock p \<Rightarrow> Some (goto (S_leave p) (pthread_mutex_unlock (Server_thread k) s))
      | S_leave p \<Rightarrow> Some (goto (S_begin p) (print [Leaves_Q2 p] s))
      | S_begin p \<Rightarrow> Some (goto (S_serve p) (print [Begins k p] s))
      | S_serve p \<Rightarrow> Some (goto (S_count (packet_served s)) (print [Departs k p] s))
      | S_count n \<Rightarrow> Some (goto S_check (s\<lparr>packet_served := n + 1\<rparr>))
      | S_check \<Rightarrow>
          if stop_bucket_thread s \<and> stop_packet_thread s \<and> length (Q2_list s) = 0 then Some (goto S_exit s)
          else Some (goto S_lock s)
      | S_exit \<Rightarrow> Some (goto S_done ((pthread_mutex_unlock (Server_thread k) s)\<lparr>stopserver := (stopserver s)(k := True)\<rparr>))
      | S_done \<Rightarrow> None)"

section \<open>Interrupt and end\<close>

fun CleanQueue :: "packet list \<Rightarrow> int \<Rightarrow> message list" where
  "CleanQueue [] n = []"
| "CleanQueue (p # ps) n = Removed p n # CleanQueue ps n"

definition handleUnfinishedBusiness :: "sim \<Rightarrow> sim option" where
  "handleUnfinishedBusiness s =
     (case hpc s of
        H_sigwait \<Rightarrow> if cancelled s Handle_thread then Some (s\<lparr>hpc := H_done\<rparr>) else None
      | H_lock \<Rightarrow> if token_mutex s = None then Some (s\<lparr>token_mutex := Some Handle_thread, hpc := H_locked\<rparr>) else None
      | H_locked \<Rightarrow>
          let s = s\<lparr>cancelled := (cancelled s)(Packet_thread := True, Bucket_thread := True)\<rparr>;
              s = print (CleanQueue (Q1_list s) 1) s;
              s = print (CleanQueue (Q2_list s) 2) (s\<lparr>Q1_list := []\<rparr>);
              s = s\<lparr>Q2_list := [], stop_bucket_thread := True, stop_packet_thread := True\<rparr>
          in Some ((pthread_cond_broadcast s)\<lparr>hpc := H_unlock\<rparr>)
      | H_unlock \<Rightarrow> Some ((pthread_mutex_unlock Handle_thread s)\<lparr>hpc := H_done\<rparr>)
      | H_done \<Rightarrow> None)"

definition all_threads_success :: "sim \<Rightarrow> bool" where
  "all_threads_success s \<longleftrightarrow> stop_packet_thread s \<and> stop_bucket_thread s \<and> stopserver s Server1 \<and> stopserver s Server2"

text \<open>After the threads are created, \<open>main\<close> joins them.\<close>

definition main_thread :: "sim \<Rightarrow> sim option" where
  "main_thread s =
     (case mpc s of
        M_join_packet \<Rightarrow> if ppc s = P_done then Some (s\<lparr>mpc := M_join_bucket\<rparr>) else None
      | M_join_bucket \<Rightarrow> if bpc s = B_done then Some (s\<lparr>mpc := M_join_server2\<rparr>) else None
      | M_join_server2 \<Rightarrow> if spc s Server2 = S_done then Some (s\<lparr>mpc := M_join_server1\<rparr>) else None
      | M_join_server1 \<Rightarrow> if spc s Server1 = S_done then Some (s\<lparr>mpc := M_check\<rparr>) else None
      | M_check \<Rightarrow> Some (s\<lparr>cancelled := (if all_threads_success s then (cancelled s)(Handle_thread := True) else cancelled s), mpc := M_join_handle\<rparr>)
      | M_join_handle \<Rightarrow> if hpc s = H_done then Some (s\<lparr>mpc := M_done\<rparr>) else None
      | M_done \<Rightarrow> None)"

section \<open>Runs\<close>

definition thread_step :: "parameters \<Rightarrow> int \<Rightarrow> thread \<Rightarrow> sim \<Rightarrow> sim option" where
  "thread_step argobj junk t s =
     (if exited s then None
      else case t of
        Packet_thread \<Rightarrow> packet_thread_function argobj junk s
      | Bucket_thread \<Rightarrow> bucket_thread_function argobj s
      | Server_thread k \<Rightarrow> server_thread_function k s
      | Handle_thread \<Rightarrow> handleUnfinishedBusiness s
      | Main_thread \<Rightarrow> main_thread s)"

text \<open>
  The threads run in any order.  A server may be woken without a broadcast, and the user may interrupt the program while the last
  thread waits for that.
\<close>

inductive sim_step :: "parameters \<Rightarrow> sim \<Rightarrow> sim \<Rightarrow> bool" for argobj where
  thread: "thread_step argobj junk t s = Some s' \<Longrightarrow> sim_step argobj s s'"
| spurious: "spc s k = S_blocked \<Longrightarrow> sim_step argobj s (s\<lparr>spc := (spc s)(k := S_relock)\<rparr>)"
| sigint: "hpc s = H_sigwait \<Longrightarrow> sim_step argobj s (print [Interrupted] s\<lparr>hpc := H_lock\<rparr>)"

text \<open>A run of given threads, one after another.\<close>

fun schedule :: "parameters \<Rightarrow> thread list \<Rightarrow> sim \<Rightarrow> sim option" where
  "schedule argobj [] s = Some s"
| "schedule argobj (t # ts) s = (case thread_step argobj 0 t s of None \<Rightarrow> None | Some s \<Rightarrow> schedule argobj ts s)"

end
