(* ===== verification/Warmup2_Steps.thy ===== *)
theory Warmup2_Steps
  imports Warmup2
begin

text \<open>
  The steps of the token bucket emulation, thread by thread: a case rule for each thread lists what a step of it can do.
\<close>

section \<open>The steps\<close>

lemma serve_Q1_cases:
  obtains (same) "serve_Q1 s = s"
  | (moved) p ps where "Q1_list s = p # ps" "required_token p \<le> current_token_number s"
      "serve_Q1 s = pthread_cond_broadcast (s\<lparr>Q1_list := ps, current_token_number := current_token_number s - required_token p,
         Q2_list := Q2_list s @ [p], packets_processed := packets_processed s + 1, stdout := stdout s @ [Leaves_Q1 p, Enters_Q2 p]\<rparr>)"
proof (cases "\<exists>p ps. Q1_list s = p # ps \<and> required_token p \<le> current_token_number s")
  case True
  then obtain p ps where "Q1_list s = p # ps" "required_token p \<le> current_token_number s" by blast
  then show thesis using moved by (simp add: serve_Q1_def print_def Let_def)
next
  case False
  then show thesis using same by (cases "Q1_list s") (simp_all add: serve_Q1_def)
qed

lemma same_fp: "s\<lparr>fp := fp s, total_packet_count := n, ppc := pc\<rparr> = s\<lparr>total_packet_count := n, ppc := pc\<rparr>"
  by (cases s) simp

lemma filled:
  assumes "(case fill_packet_data_tracefile junk s of (None, s) \<Rightarrow> Some s | (Some p, s) \<Rightarrow> Some (s\<lparr>ppc := P_sleep p\<rparr>)) = Some s'"
  obtains (bad) r where "s' = s\<lparr>fp := r, exited := True\<rparr>"
  | (good) p r where "packet_id p = total_packet_count s + 1" "s' = s\<lparr>fp := r, total_packet_count := total_packet_count s + 1, ppc := P_sleep p\<rparr>"
proof (cases "fp s = []")
  case True
  then show thesis using good [of "\<lparr>packet_id = total_packet_count s + 1, required_token = junk\<rparr>" "fp s", unfolded same_fp] assms
    by (simp add: fill_packet_data_tracefile_def Let_def)
next
  case False
  obtain buff rest where f: "fgets 1024 (fp s) = (buff, rest)" by force
  show thesis
  proof (cases "trace_line (cstring buff)")
    case None
    then show thesis using assms False f bad [of rest] by (simp add: fill_packet_data_tracefile_def Let_def)
  next
    case (Some r)
    then show thesis using assms False f good [of "\<lparr>packet_id = total_packet_count s + 1, required_token = r\<rparr>" rest]
      by (simp add: fill_packet_data_tracefile_def Let_def)
  qed
qed

lemma packet_cases:
  assumes "packet_thread_function argobj junk s = Some s'"
  obtains (stop) "ppc s = P_loop" "packet_count argobj \<le> loop_i s" "s' = s\<lparr>stop_packet_thread := True, ppc := P_broadcast\<rparr>"
  | (fill) p r where "ppc s = P_loop" "loop_i s < packet_count argobj" "packet_id p = total_packet_count s + 1"
      "filename argobj = None \<longrightarrow> required_token p = token_required argobj"
      "s' = s\<lparr>fp := r, total_packet_count := total_packet_count s + 1, ppc := P_sleep p\<rparr>"
  | (bad_file) r where "ppc s = P_loop" "loop_i s < packet_count argobj" "s' = s\<lparr>fp := r, exited := True\<rparr>"
  | (broadcast) "ppc s = P_broadcast" "s' = (pthread_cond_broadcast s)\<lparr>ppc := P_done\<rparr>"
  | (cancel) p where "ppc s = P_sleep p" "cancelled s Packet_thread" "s' = s\<lparr>ppc := P_done\<rparr>"
  | (drop) p where "ppc s = P_sleep p" "bucket_size argobj < required_token p"
      "s' = s\<lparr>stdout := stdout s @ [Dropped p], dropped_packet_count := dropped_packet_count s + 1, ppc := P_drop (packets_processed s)\<rparr>"
  | (woke) p where "ppc s = P_sleep p" "required_token p \<le> bucket_size argobj" "s' = s\<lparr>ppc := P_lock p\<rparr>"
  | (dropped) n where "ppc s = P_drop n" "s' = s\<lparr>packets_processed := n + 1, loop_i := loop_i s + 1, ppc := P_loop\<rparr>"
  | (lock) p where "ppc s = P_lock p" "token_mutex s = None" "s' = s\<lparr>token_mutex := Some Packet_thread, ppc := P_locked p\<rparr>"
  | (locked) p where "ppc s = P_locked p"
      "s' = (serve_Q1 (s\<lparr>Q1_list := Q1_list s @ [p], stdout := stdout s @ [Arrives p, Enters_Q1 p]\<rparr>))\<lparr>ppc := P_unlock\<rparr>"
  | (unlock) "ppc s = P_unlock" "s' = (pthread_mutex_unlock Packet_thread s)\<lparr>loop_i := loop_i s + 1, ppc := P_loop\<rparr>"
proof (cases "ppc s")
  case P_loop
  show thesis
  proof (cases "loop_i s < packet_count argobj \<and> filename argobj \<noteq> None")
    case True
    then have "(case fill_packet_data_tracefile junk s of (None, s) \<Rightarrow> Some s | (Some p, s) \<Rightarrow> Some (s\<lparr>ppc := P_sleep p\<rparr>)) = Some s'"
      using assms P_loop by (auto simp: packet_thread_function_def)
    then show thesis
    proof (cases rule: filled)
      case (bad r)
      then show thesis using bad_file [of r] P_loop True by simp
    next
      case (good p r)
      then show thesis using fill [of p r] P_loop True by simp
    qed
  next
    case False
    then show thesis using assms P_loop stop
        fill [of "\<lparr>packet_id = total_packet_count s + 1, required_token = token_required argobj\<rparr>" "fp s", unfolded same_fp]
      by (cases "loop_i s < packet_count argobj") (simp_all add: packet_thread_function_def fill_packet_data_deterministically_def Let_def)
  qed
next
  case (P_locked p)
  then show thesis using assms locked [of p] by (simp add: packet_thread_function_def print_def Let_def)
next
  case P_broadcast
  then show thesis using assms broadcast by (simp add: packet_thread_function_def)
next
  case (P_sleep p)
  then show thesis using assms cancel [of p] drop [of p] woke [of p] by (simp add: packet_thread_function_def print_def split: if_splits)
next
  case (P_drop n)
  then show thesis using assms dropped [of n] by (simp add: packet_thread_function_def)
next
  case (P_lock p)
  then show thesis using assms lock [of p] by (simp add: packet_thread_function_def split: if_splits)
next
  case P_unlock
  then show thesis using assms unlock by (simp add: packet_thread_function_def)
next
  case P_done
  then show thesis using assms  by (simp add: packet_thread_function_def)
qed

lemma bucket_cases:
  assumes "bucket_thread_function argobj s = Some s'"
  obtains (stop) "bpc s = B_check" "stop_packet_thread s" "Q1_list s = []" "s' = s\<lparr>stop_bucket_thread := True, bpc := B_broadcast\<rparr>"
  | (check) "bpc s = B_check" "s' = s\<lparr>bpc := B_sleep\<rparr>"
  | (broadcast) "bpc s = B_broadcast" "s' = (pthread_cond_broadcast s)\<lparr>bpc := B_done\<rparr>"
  | (cancel) "bpc s = B_sleep" "cancelled s Bucket_thread" "s' = s\<lparr>bpc := B_done\<rparr>"
  | (woke) "bpc s = B_sleep" "s' = s\<lparr>bpc := B_lock\<rparr>"
  | (lock) "bpc s = B_lock" "token_mutex s = None" "s' = s\<lparr>token_mutex := Some Bucket_thread, bpc := B_locked\<rparr>"
  | (full) "bpc s = B_locked" "bucket_size argobj \<le> current_token_number s"
      "s' = s\<lparr>total_token_count := total_token_count s + 1, stdout := stdout s @ [Token_dropped (total_token_count s + 1)],
         dropped_token_count := dropped_token_count s + 1, bpc := B_unlock\<rparr>"
  | (token) m where "bpc s = B_locked" "current_token_number s < bucket_size argobj" "m = Token_arrives (total_token_count s + 1) (current_token_number s + 1)"
      "s' = (serve_Q1 (s\<lparr>total_token_count := total_token_count s + 1, current_token_number := current_token_number s + 1, stdout := stdout s @ [m]\<rparr>))\<lparr>bpc := B_unlock\<rparr>"
  | (unlock) "bpc s = B_unlock" "s' = (pthread_mutex_unlock Bucket_thread s)\<lparr>bpc := B_check\<rparr>"
proof (cases "bpc s")
  case B_locked
  have *: "(if Q1_list t \<noteq> [] then serve_Q1 t else t) = serve_Q1 t" for t by (simp add: serve_Q1_def)
  note run = assms [unfolded bucket_thread_function_def B_locked Let_def bucket_pc.case length_greater_0_conv *]
  show thesis
  proof (cases "bucket_size argobj \<le> current_token_number s")
    case True
    then show thesis using run full [OF B_locked] by (simp add: print_def)
  next
    case False
    then show thesis using run token [OF B_locked _ refl] by (simp add: print_def)
  qed
next
  case B_check
  then show thesis using assms stop check
    by (cases "stop_packet_thread s \<and> Q1_list s = []") (simp_all add: bucket_thread_function_def)
next
  case B_broadcast
  then show thesis using assms broadcast by (simp add: bucket_thread_function_def)
next
  case B_sleep
  then show thesis using assms cancel woke by (cases "cancelled s Bucket_thread") (simp_all add: bucket_thread_function_def)
next
  case B_lock
  then show thesis using assms lock by (cases "token_mutex s") (simp_all add: bucket_thread_function_def)
next
  case B_unlock
  then show thesis using assms unlock by (simp add: bucket_thread_function_def)
next
  case B_done
  then show thesis using assms  by (simp add: bucket_thread_function_def)
qed

abbreviation goto :: "server \<Rightarrow> server_pc \<Rightarrow> sim \<Rightarrow> sim" where
  "goto k pc s \<equiv> s\<lparr>spc := (spc s)(k := pc)\<rparr>"

lemma server_cases:
  assumes "server_thread_function k s = Some s'"
  obtains (lock) "spc s k = S_lock \<or> spc s k = S_relock" "token_mutex s = None" "s' = goto k S_test (s\<lparr>token_mutex := Some (Server_thread k)\<rparr>)"
  | (test) "spc s k = S_test" "Q2_list s = []" "\<not> stop_bucket_thread s \<or> \<not> stop_packet_thread s" "s' = goto k S_wait s"
  | (idle) "spc s k = S_test" "Q2_list s = []" "stop_bucket_thread s" "stop_packet_thread s" "s' = goto k S_check s"
  | (take) p ps where "spc s k = S_test" "Q2_list s = p # ps" "s' = goto k (S_unlock p) (s\<lparr>Q2_list := ps\<rparr>)"
  | (wait) "spc s k = S_wait" "s' = goto k S_blocked (s\<lparr>token_mutex := None\<rparr>)"
  | (unlock) p where "spc s k = S_unlock p" "s' = goto k (S_leave p) (pthread_mutex_unlock (Server_thread k) s)"
  | (leave) p where "spc s k = S_leave p" "s' = goto k (S_begin p) (s\<lparr>stdout := stdout s @ [Leaves_Q2 p]\<rparr>)"
  | (begins) p where "spc s k = S_begin p" "s' = goto k (S_serve p) (s\<lparr>stdout := stdout s @ [Begins k p]\<rparr>)"
  | (serve) p where "spc s k = S_serve p" "s' = goto k (S_count (packet_served s)) (s\<lparr>stdout := stdout s @ [Departs k p]\<rparr>)"
  | (count) n where "spc s k = S_count n" "s' = goto k S_check (s\<lparr>packet_served := n + 1\<rparr>)"
  | (again) "spc s k = S_check" "\<not> (stop_bucket_thread s \<and> stop_packet_thread s \<and> Q2_list s = [])" "s' = goto k S_lock s"
  | (stops) "spc s k = S_check" "stop_bucket_thread s" "stop_packet_thread s" "Q2_list s = []" "s' = goto k S_exit s"
  | (exit) "spc s k = S_exit" "s' = goto k S_done ((pthread_mutex_unlock (Server_thread k) s)\<lparr>stopserver := (stopserver s)(k := True)\<rparr>)"
proof (cases "spc s k")
  case S_test
  then show thesis using assms test idle take [of "hd (Q2_list s)" "tl (Q2_list s)"]
    by (cases "Q2_list s") (simp_all add: server_thread_function_def Let_def split: if_splits)
next
  case S_lock
  then show thesis using assms lock by (simp add: server_thread_function_def Let_def split: if_splits)
next
  case S_wait
  then show thesis using assms wait by (simp add: server_thread_function_def Let_def)
next
  case S_blocked
  then show thesis using assms  by (simp add: server_thread_function_def Let_def)
next
  case S_relock
  then show thesis using assms lock by (simp add: server_thread_function_def Let_def split: if_splits)
next
  case (S_unlock p)
  then show thesis using assms unlock [of p] by (simp add: server_thread_function_def Let_def)
next
  case (S_leave p)
  then show thesis using assms leave [of p] by (simp add: server_thread_function_def Let_def print_def)
next
  case (S_begin p)
  then show thesis using assms begins [of p] by (simp add: server_thread_function_def Let_def print_def)
next
  case (S_serve p)
  then show thesis using assms serve [of p] by (simp add: server_thread_function_def Let_def print_def)
next
  case (S_count n)
  then show thesis using assms count [of n] by (simp add: server_thread_function_def Let_def)
next
  case S_check
  then show thesis using assms again stops by (simp add: server_thread_function_def Let_def split: if_splits)
next
  case S_exit
  then show thesis using assms exit by (simp add: server_thread_function_def Let_def)
next
  case S_done
  then show thesis using assms  by (simp add: server_thread_function_def Let_def)
qed

lemma handler_cases:
  assumes "handleUnfinishedBusiness s = Some s'"
  obtains (cancel) "hpc s = H_sigwait" "cancelled s Handle_thread" "s' = s\<lparr>hpc := H_done\<rparr>"
  | (lock) "hpc s = H_lock" "token_mutex s = None" "s' = s\<lparr>token_mutex := Some Handle_thread, hpc := H_locked\<rparr>"
  | (locked) "hpc s = H_locked" "s' = (pthread_cond_broadcast (s\<lparr>cancelled := (cancelled s)(Packet_thread := True, Bucket_thread := True),
      Q1_list := [], stdout := stdout s @ CleanQueue (Q1_list s) 1 @ CleanQueue (Q2_list s) 2, Q2_list := [],
      stop_bucket_thread := True, stop_packet_thread := True\<rparr>))\<lparr>hpc := H_unlock\<rparr>"
  | (unlock) "hpc s = H_unlock" "s' = (pthread_mutex_unlock Handle_thread s)\<lparr>hpc := H_done\<rparr>"
proof (cases "hpc s")
  case H_sigwait
  then show thesis using assms cancel by (cases "cancelled s Handle_thread") (simp_all add: handleUnfinishedBusiness_def)
next
  case H_lock
  then show thesis using assms lock by (cases "token_mutex s") (simp_all add: handleUnfinishedBusiness_def)
next
  case H_locked
  then show thesis using assms locked by (simp add: handleUnfinishedBusiness_def print_def Let_def)
next
  case H_unlock
  then show thesis using assms unlock by (simp add: handleUnfinishedBusiness_def)
next
  case H_done
  then show thesis using assms by (simp add: handleUnfinishedBusiness_def)
qed

lemma main_cases:
  assumes "main_thread s = Some s'"
  obtains (packet) "mpc s = M_join_packet" "ppc s = P_done" "s' = s\<lparr>mpc := M_join_bucket\<rparr>"
  | (bucket) "mpc s = M_join_bucket" "bpc s = B_done" "s' = s\<lparr>mpc := M_join_server2\<rparr>"
  | (server2) "mpc s = M_join_server2" "spc s Server2 = S_done" "s' = s\<lparr>mpc := M_join_server1\<rparr>"
  | (server1) "mpc s = M_join_server1" "spc s Server1 = S_done" "s' = s\<lparr>mpc := M_check\<rparr>"
  | (check) "mpc s = M_check" "all_threads_success s" "s' = s\<lparr>cancelled := (cancelled s)(Handle_thread := True), mpc := M_join_handle\<rparr>"
  | (failed) "mpc s = M_check" "\<not> all_threads_success s" "s' = s\<lparr>mpc := M_join_handle\<rparr>"
  | (handle) "mpc s = M_join_handle" "hpc s = H_done" "s' = s\<lparr>mpc := M_done\<rparr>"
proof (cases "mpc s")
  case M_join_packet
  then show thesis using assms packet by (cases "ppc s = P_done") (simp_all add: main_thread_def)
next
  case M_join_bucket
  then show thesis using assms bucket by (cases "bpc s = B_done") (simp_all add: main_thread_def)
next
  case M_join_server2
  then show thesis using assms server2 by (cases "spc s Server2 = S_done") (simp_all add: main_thread_def)
next
  case M_join_server1
  then show thesis using assms server1 by (cases "spc s Server1 = S_done") (simp_all add: main_thread_def)
next
  case M_check
  have same: "s\<lparr>cancelled := cancelled s, mpc := m\<rparr> = s\<lparr>mpc := m\<rparr>" for m by (cases s) simp
  show thesis using assms M_check check failed by (cases "all_threads_success s") (simp_all add: main_thread_def same)
next
  case M_join_handle
  then show thesis using assms handle by (cases "hpc s = H_done") (simp_all add: main_thread_def)
next
  case M_done
  then show thesis using assms by (simp add: main_thread_def)
qed

lemma sim_step_cases:
  assumes "sim_step argobj s s'"
  obtains (packet) junk where "packet_thread_function argobj junk s = Some s'" "\<not> exited s"
  | (bucket) "bucket_thread_function argobj s = Some s'" "\<not> exited s"
  | (server) k where "server_thread_function k s = Some s'" "\<not> exited s"
  | (handler) "handleUnfinishedBusiness s = Some s'" "\<not> exited s"
  | (main) "main_thread s = Some s'" "\<not> exited s"
  | (spurious) k where "spc s k = S_blocked" "s' = goto k S_relock s"
  | (sigint) "hpc s = H_sigwait" "s' = s\<lparr>stdout := stdout s @ [Interrupted], hpc := H_lock\<rparr>"
  using assms
proof (cases rule: sim_step.cases)
  case (thread junk t)
  then have "\<not> exited s" by (simp add: thread_step_def split: if_splits)
  with thread show thesis
    by (cases t) (use packet [of junk] bucket server handler main in \<open>simp_all add: thread_step_def\<close>)
next
  case (spurious k)
  then show thesis using that(6) [of k] by simp
next
  case sigint
  then show thesis using that(7) by (simp add: print_def)
qed

end
