(* ===== verification/Warmup2_Inv.thy ===== *)
theory Warmup2_Inv
  imports Warmup2_Steps "HOL-Library.Sublist"
begin

text \<open>
  The invariants of the token bucket emulation: tokens, packets, flags and the mutex.
\<close>

section \<open>Tokens\<close>

text \<open>The packets of the messages of one kind, in the order in which they were printed.\<close>

definition entered_Q1 :: "message list \<Rightarrow> packet list" where
  "entered_Q1 ms = [p. Enters_Q1 p \<leftarrow> ms]"

definition left_Q1 :: "message list \<Rightarrow> packet list" where
  "left_Q1 ms = [p. Leaves_Q1 p \<leftarrow> ms]"

definition entered_Q2 :: "message list \<Rightarrow> packet list" where
  "entered_Q2 ms = [p. Enters_Q2 p \<leftarrow> ms]"

definition departed :: "message list \<Rightarrow> packet list" where
  "departed ms = [p. Departs _ p \<leftarrow> ms]"

definition dropped :: "message list \<Rightarrow> packet list" where
  "dropped ms = [p. Dropped p \<leftarrow> ms]"

text \<open>The packets that were dropped or put into Q1.\<close>

definition handled :: "message list \<Rightarrow> packet list" where
  "handled ms = concat (map (\<lambda>m. case m of Enters_Q1 p \<Rightarrow> [p] | Dropped p \<Rightarrow> [p] | _ \<Rightarrow> []) ms)"

lemmas message_defs = entered_Q1_def left_Q1_def entered_Q2_def departed_def dropped_def handled_def

lemma messages_append [simp]:
  "entered_Q1 (ms @ ns) = entered_Q1 ms @ entered_Q1 ns" "left_Q1 (ms @ ns) = left_Q1 ms @ left_Q1 ns"
  "entered_Q2 (ms @ ns) = entered_Q2 ms @ entered_Q2 ns" "departed (ms @ ns) = departed ms @ departed ns"
  "dropped (ms @ ns) = dropped ms @ dropped ns" "handled (ms @ ns) = handled ms @ handled ns"
  by (simp_all add: message_defs)

lemma messages_Cons [simp]:
  "entered_Q1 (m # ms) = (case m of Enters_Q1 p \<Rightarrow> [p] | _ \<Rightarrow> []) @ entered_Q1 ms"
  "left_Q1 (m # ms) = (case m of Leaves_Q1 p \<Rightarrow> [p] | _ \<Rightarrow> []) @ left_Q1 ms"
  "entered_Q2 (m # ms) = (case m of Enters_Q2 p \<Rightarrow> [p] | _ \<Rightarrow> []) @ entered_Q2 ms"
  "departed (m # ms) = (case m of Departs _ p \<Rightarrow> [p] | _ \<Rightarrow> []) @ departed ms"
  "dropped (m # ms) = (case m of Dropped p \<Rightarrow> [p] | _ \<Rightarrow> []) @ dropped ms"
  "handled (m # ms) = (case m of Enters_Q1 p \<Rightarrow> [p] | Dropped p \<Rightarrow> [p] | _ \<Rightarrow> []) @ handled ms"
  by (simp_all add: message_defs)

lemma messages_nil [simp]: "entered_Q1 [] = []" "left_Q1 [] = []" "entered_Q2 [] = []" "departed [] = []" "dropped [] = []" "handled [] = []"
  by (simp_all add: message_defs)

lemma clean_messages [simp]:
  "entered_Q1 (CleanQueue q n) = []" "left_Q1 (CleanQueue q n) = []" "entered_Q2 (CleanQueue q n) = []"
  by (induction q n rule: CleanQueue.induct) (simp_all add: message_defs)

lemma unlock_sel [simp]:
  "pthread_mutex_unlock t s = s\<lparr>token_mutex := None, bad_unlock := bad_unlock s \<or> token_mutex s \<noteq> Some t\<rparr>"
  by (simp add: pthread_mutex_unlock_def)

lemma broadcast_sel [simp]:
  "pthread_cond_broadcast s = s\<lparr>spc := (\<lambda>k. if spc s k = S_blocked then S_relock else spc s k)\<rparr>"
  by (simp add: pthread_cond_broadcast_def)

lemma serve_Q1_sel [simp]:
  "total_token_count (serve_Q1 s) = total_token_count s" "total_packet_count (serve_Q1 s) = total_packet_count s"
  "dropped_token_count (serve_Q1 s) = dropped_token_count s" "dropped_packet_count (serve_Q1 s) = dropped_packet_count s"
  "stop_packet_thread (serve_Q1 s) = stop_packet_thread s" "stop_bucket_thread (serve_Q1 s) = stop_bucket_thread s"
  "stopserver (serve_Q1 s) = stopserver s" "token_mutex (serve_Q1 s) = token_mutex s" "bad_unlock (serve_Q1 s) = bad_unlock s"
  "cancelled (serve_Q1 s) = cancelled s" "loop_i (serve_Q1 s) = loop_i s" "ppc (serve_Q1 s) = ppc s" "bpc (serve_Q1 s) = bpc s"
  "hpc (serve_Q1 s) = hpc s" "mpc (serve_Q1 s) = mpc s"
  by (rule serve_Q1_cases [of s]; simp)+

lemma serve_Q1_out [simp]:
  "entered_Q1 (stdout (serve_Q1 s)) = entered_Q1 (stdout s)" "departed (stdout (serve_Q1 s)) = departed (stdout s)"
  "dropped (stdout (serve_Q1 s)) = dropped (stdout s)" "handled (stdout (serve_Q1 s)) = handled (stdout s)"
  by (rule serve_Q1_cases [of s]; simp)+

definition tokens_ok :: "sim \<Rightarrow> bool" where
  "tokens_ok s \<longleftrightarrow> total_token_count s = dropped_token_count s + current_token_number s + sum_list (map required_token (left_Q1 (stdout s)))"

lemma tokens_serve [simp]: "tokens_ok (serve_Q1 s) = tokens_ok s" "tokens_ok (s\<lparr>ppc := a\<rparr>) = tokens_ok s" "tokens_ok (s\<lparr>bpc := b\<rparr>) = tokens_ok s"
  by (rule serve_Q1_cases [of s]) (auto simp: tokens_ok_def)

lemma tokens_step:
  assumes "sim_step argobj s s'" "tokens_ok s"
  shows "tokens_ok s'"
  using assms(1)
proof (cases rule: sim_step_cases)
  case (packet junk)
  from packet(1) show ?thesis
  proof (cases rule: packet_cases)
    case (locked p)
    have "tokens_ok (s\<lparr>Q1_list := Q1_list s @ [p], stdout := stdout s @ [Arrives p, Enters_Q1 p]\<rparr>)" using assms(2) by (simp add: tokens_ok_def)
    then show ?thesis using locked(2) by simp
  qed (use assms(2) in \<open>simp_all add: tokens_ok_def\<close>)
next
  case bucket
  from bucket(1) show ?thesis
  proof (cases rule: bucket_cases)
    case (token m)
    have "tokens_ok (s\<lparr>total_token_count := total_token_count s + 1, current_token_number := current_token_number s + 1, stdout := stdout s @ [m]\<rparr>)"
      using assms(2) token(3) by (simp add: tokens_ok_def)
    then show ?thesis using token(4) by simp
  qed (use assms(2) in \<open>simp_all add: tokens_ok_def\<close>)
next
  case (server k)
  from server(1) show ?thesis by (cases rule: server_cases) (use assms(2) in \<open>simp_all add: tokens_ok_def\<close>)
next
  case handler
  from handler(1) show ?thesis by (cases rule: handler_cases) (use assms(2) in \<open>simp_all add: tokens_ok_def\<close>)
next
  case main
  from main(1) show ?thesis by (cases rule: main_cases) (use assms(2) in \<open>simp_all add: tokens_ok_def\<close>)
qed (use assms(2) in \<open>simp_all add: tokens_ok_def\<close>)

definition bucket_ok :: "parameters \<Rightarrow> sim \<Rightarrow> bool" where
  "bucket_ok argobj s \<longleftrightarrow> (\<forall>p \<in> set (left_Q1 (stdout s)). 0 \<le> required_token p) \<longrightarrow>
     0 \<le> current_token_number s \<and> current_token_number s \<le> bucket_size argobj"

lemma bucket_serve [simp]:
  "bucket_ok argobj s \<Longrightarrow> bucket_ok argobj (serve_Q1 s)" "bucket_ok argobj (s\<lparr>ppc := a\<rparr>) = bucket_ok argobj s"
  "bucket_ok argobj (s\<lparr>bpc := b\<rparr>) = bucket_ok argobj s"
  by (rule serve_Q1_cases [of s]) (auto simp: bucket_ok_def)

lemma bucket_step:
  assumes "sim_step argobj s s'" "bucket_ok argobj s"
  shows "bucket_ok argobj s'"
  using assms(1)
proof (cases rule: sim_step_cases)
  case (packet junk)
  from packet(1) show ?thesis
  proof (cases rule: packet_cases)
    case (locked p)
    have "bucket_ok argobj (s\<lparr>Q1_list := Q1_list s @ [p], stdout := stdout s @ [Arrives p, Enters_Q1 p]\<rparr>)" using assms(2) by (simp add: bucket_ok_def)
    then show ?thesis using locked(2) by simp
  qed (use assms(2) in \<open>simp_all add: bucket_ok_def\<close>)
next
  case bucket
  from bucket(1) show ?thesis
  proof (cases rule: bucket_cases)
    case (token m)
    have "bucket_ok argobj (s\<lparr>total_token_count := total_token_count s + 1, current_token_number := current_token_number s + 1, stdout := stdout s @ [m]\<rparr>)"
      using assms(2) token(2,3) by (simp add: bucket_ok_def)
    then show ?thesis using token(4) by simp
  qed (use assms(2) in \<open>auto simp: bucket_ok_def\<close>)
next
  case (server k)
  from server(1) show ?thesis by (cases rule: server_cases) (use assms(2) in \<open>simp_all add: bucket_ok_def\<close>)
next
  case handler
  from handler(1) show ?thesis by (cases rule: handler_cases) (use assms(2) in \<open>simp_all add: bucket_ok_def\<close>)
next
  case main
  from main(1) show ?thesis by (cases rule: main_cases) (use assms(2) in \<open>simp_all add: bucket_ok_def\<close>)
qed (use assms(2) in \<open>simp_all add: bucket_ok_def\<close>)

section \<open>Flags\<close>

text \<open>From here on the user does not interrupt the program.\<close>

definition interrupted :: "sim \<Rightarrow> bool" where
  "interrupted s \<longleftrightarrow> Interrupted \<in> set (stdout s)"

definition packet_ok :: "parameters \<Rightarrow> sim \<Rightarrow> bool" where
  "packet_ok argobj s \<longleftrightarrow> (stop_packet_thread s \<longleftrightarrow> ppc s = P_broadcast \<or> ppc s = P_done) \<and> (stop_packet_thread s \<longrightarrow> packet_count argobj \<le> loop_i s)"

definition token_ok :: "sim \<Rightarrow> bool" where
  "token_ok s \<longleftrightarrow> (stop_bucket_thread s \<longleftrightarrow> bpc s = B_broadcast \<or> bpc s = B_done) \<and> (stop_bucket_thread s \<longrightarrow> stop_packet_thread s \<and> Q1_list s = [])"

definition server_ok :: "sim \<Rightarrow> server \<Rightarrow> bool" where
  "server_ok s k \<longleftrightarrow> (spc s k = S_exit \<or> spc s k = S_done \<longrightarrow> stop_bucket_thread s \<and> stop_packet_thread s \<and> Q2_list s = []) \<and>
     (stopserver s k \<longleftrightarrow> spc s k = S_done)"

definition joins_ok :: "sim \<Rightarrow> bool" where
  "joins_ok s \<longleftrightarrow>
     (mpc s \<noteq> M_join_packet \<longrightarrow> ppc s = P_done) \<and>
     (mpc s \<notin> {M_join_packet, M_join_bucket} \<longrightarrow> bpc s = B_done) \<and>
     (mpc s \<notin> {M_join_packet, M_join_bucket, M_join_server2} \<longrightarrow> spc s Server2 = S_done) \<and>
     (mpc s \<in> {M_check, M_join_handle, M_done} \<longrightarrow> spc s Server1 = S_done) \<and>
     (mpc s = M_join_handle \<longrightarrow> cancelled s Handle_thread) \<and>
     (\<not> cancelled s Packet_thread \<and> \<not> cancelled s Bucket_thread) \<and>
     (hpc s = H_sigwait \<or> hpc s = H_done)"

lemma serve_Q1_interrupted [simp]: "interrupted (serve_Q1 s) = interrupted s"
  by (rule serve_Q1_cases [of s]) (simp_all add: interrupted_def)

lemma serve_Q1_spc: "spc (serve_Q1 s) k = S_exit \<longleftrightarrow> spc s k = S_exit" "spc (serve_Q1 s) k = S_done \<longleftrightarrow> spc s k = S_done"
  by (rule serve_Q1_cases [of s]; simp)+

lemma serve_Q1_nil [simp]: "Q1_list s = [] \<Longrightarrow> serve_Q1 s = s"
  by (simp add: serve_Q1_def)

lemma packet_ok_step:
  assumes "sim_step argobj s s'" "packet_ok argobj s" "joins_ok s" "\<not> interrupted s'"
  shows "packet_ok argobj s'"
  using assms(1)
proof (cases rule: sim_step_cases)
  case (packet junk)
  from packet(1) show ?thesis by (cases rule: packet_cases) (use assms(2,3) in \<open>simp_all add: packet_ok_def joins_ok_def\<close>)
next
  case bucket
  from bucket(1) show ?thesis by (cases rule: bucket_cases) (use assms(2) in \<open>simp_all add: packet_ok_def\<close>)
next
  case (server k)
  from server(1) show ?thesis by (cases rule: server_cases) (use assms(2) in \<open>simp_all add: packet_ok_def\<close>)
next
  case handler
  from handler(1) show ?thesis by (cases rule: handler_cases) (use assms(2,3) in \<open>simp_all add: packet_ok_def joins_ok_def\<close>)
next
  case main
  from main(1) show ?thesis by (cases rule: main_cases) (use assms(2) in \<open>simp_all add: packet_ok_def\<close>)
qed (use assms(2,4) in \<open>simp_all add: packet_ok_def interrupted_def\<close>)

lemma token_ok_step:
  assumes "sim_step argobj s s'" "packet_ok argobj s" "token_ok s" "joins_ok s" "\<not> interrupted s'"
  shows "token_ok s'"
  using assms(1)
proof (cases rule: sim_step_cases)
  case (packet junk)
  from packet(1) show ?thesis by (cases rule: packet_cases) (use assms(2-4) in \<open>auto simp: token_ok_def packet_ok_def\<close>)
next
  case bucket
  from bucket(1) show ?thesis by (cases rule: bucket_cases) (use assms(3,4) in \<open>simp_all add: token_ok_def joins_ok_def\<close>)
next
  case (server k)
  from server(1) show ?thesis by (cases rule: server_cases) (use assms(3) in \<open>auto simp: token_ok_def\<close>)
next
  case handler
  from handler(1) show ?thesis by (cases rule: handler_cases) (use assms(3,4) in \<open>simp_all add: token_ok_def joins_ok_def\<close>)
next
  case main
  from main(1) show ?thesis by (cases rule: main_cases) (use assms(3) in \<open>auto simp: token_ok_def\<close>)
qed (use assms(3,5) in \<open>simp_all add: token_ok_def interrupted_def\<close>)

lemma server_ok_step:
  assumes "sim_step argobj s s'" "packet_ok argobj s" "token_ok s" "\<And>k. server_ok s k" "joins_ok s" "\<not> interrupted s'"
  shows "server_ok s' k"
  using assms(1)
proof (cases rule: sim_step_cases)
  case (packet junk)
  from packet(1) show ?thesis
    by (cases rule: packet_cases) (use assms(2,3) assms(4) [of k] in \<open>auto simp: server_ok_def token_ok_def packet_ok_def serve_Q1_spc\<close>)
next
  case bucket
  from bucket(1) show ?thesis
    by (cases rule: bucket_cases) (use assms(3) assms(4) [of k] in \<open>auto simp: server_ok_def token_ok_def serve_Q1_spc\<close>)
next
  case (server j)
  from server(1) show ?thesis
    by (cases rule: server_cases) (use assms(4) [of k] assms(4) [of j] in \<open>auto simp: server_ok_def\<close>)
next
  case handler
  from handler(1) show ?thesis by (cases rule: handler_cases) (use assms(4) [of k] assms(5) in \<open>simp_all add: server_ok_def joins_ok_def\<close>)
next
  case main
  from main(1) show ?thesis by (cases rule: main_cases) (use assms(4) [of k] in \<open>simp_all add: server_ok_def\<close>)
next
  case (spurious j)
  then show ?thesis using assms(4) [of k] assms(4) [of j] by (auto simp: server_ok_def)
next
  case sigint
  then show ?thesis using assms(6) by (simp add: interrupted_def)
qed

lemma joins_ok_step:
  assumes "sim_step argobj s s'" "joins_ok s" "packet_ok argobj s" "token_ok s" "\<And>k. server_ok s k" "\<not> interrupted s'"
  shows "joins_ok s'"
  using assms(1)
proof (cases rule: sim_step_cases)
  case (packet junk)
  from packet(1) show ?thesis
    by (cases rule: packet_cases) (use assms(2) in \<open>simp_all add: joins_ok_def serve_Q1_spc\<close>)
next
  case bucket
  from bucket(1) show ?thesis
    by (cases rule: bucket_cases) (use assms(2) in \<open>simp_all add: joins_ok_def serve_Q1_spc\<close>)
next
  case (server j)
  have "spc s j \<noteq> S_done" using server(1) by (auto simp: server_thread_function_def)
  with server(1) show ?thesis by (cases rule: server_cases; cases j) (use assms(2) in \<open>auto simp: joins_ok_def\<close>)
next
  case handler
  from handler(1) show ?thesis by (cases rule: handler_cases) (use assms(2) in \<open>simp_all add: joins_ok_def\<close>)
next
  case main
  from main(1) show ?thesis
  proof (cases rule: main_cases)
    case failed
    then have "stop_packet_thread s" "stop_bucket_thread s" "stopserver s Server1" "stopserver s Server2"
      using assms(2-4) assms(5) [of Server1] assms(5) [of Server2] by (simp_all add: joins_ok_def packet_ok_def token_ok_def server_ok_def)
    then show ?thesis using failed(2) by (simp add: all_threads_success_def)
  qed (use assms(2) in \<open>simp_all add: joins_ok_def\<close>)
next
  case (spurious j)
  then show ?thesis using assms(2) by (cases j) (simp_all add: joins_ok_def)
next
  case sigint
  then show ?thesis using assms(6) by (simp add: interrupted_def)
qed

section \<open>Packets\<close>

fun in_hand :: "server_pc \<Rightarrow> packet multiset" where
  "in_hand (S_unlock p) = {#p#}"
| "in_hand (S_leave p) = {#p#}"
| "in_hand (S_begin p) = {#p#}"
| "in_hand (S_serve p) = {#p#}"
| "in_hand _ = {#}"

text \<open>Where the packets are: behind Q1 in Q2, behind Q2 with a server, and then gone; both queues in the order of arrival.\<close>

definition flow_ok :: "sim \<Rightarrow> bool" where
  "flow_ok s \<longleftrightarrow>
     entered_Q1 (stdout s) = left_Q1 (stdout s) @ Q1_list s \<and>
     entered_Q2 (stdout s) = left_Q1 (stdout s) \<and>
     suffix (Q2_list s) (left_Q1 (stdout s)) \<and>
     mset (left_Q1 (stdout s)) = mset (Q2_list s) + in_hand (spc s Server1) + in_hand (spc s Server2) + mset (departed (stdout s))"

lemma in_hand_woken [simp]: "in_hand (if pc = S_blocked then S_relock else pc) = in_hand pc"
  by simp

lemma suffix_snoc [simp]: "suffix (xs @ [x]) (ys @ [x]) \<longleftrightarrow> suffix xs ys"
  by (auto simp: suffix_def)

lemma flow_serve [simp]: "flow_ok s \<Longrightarrow> flow_ok (serve_Q1 s)" "flow_ok (s\<lparr>ppc := a\<rparr>) = flow_ok s" "flow_ok (s\<lparr>bpc := b\<rparr>) = flow_ok s"
  by (rule serve_Q1_cases [of s]) (auto simp: flow_ok_def)

lemma flow_step:
  assumes "sim_step argobj s s'" "flow_ok s" "joins_ok s" "\<not> interrupted s'"
  shows "flow_ok s'"
  using assms(1)
proof (cases rule: sim_step_cases)
  case (packet junk)
  from packet(1) show ?thesis
  proof (cases rule: packet_cases)
    case (locked p)
    have "flow_ok (s\<lparr>Q1_list := Q1_list s @ [p], stdout := stdout s @ [Arrives p, Enters_Q1 p]\<rparr>)" using assms(2) by (simp add: flow_ok_def)
    then show ?thesis using locked(2) by simp
  qed (use assms(2) in \<open>simp_all add: flow_ok_def\<close>)
next
  case bucket
  from bucket(1) show ?thesis
  proof (cases rule: bucket_cases)
    case (token m)
    have "flow_ok (s\<lparr>total_token_count := total_token_count s + 1, current_token_number := current_token_number s + 1, stdout := stdout s @ [m]\<rparr>)"
      using assms(2) token(2,3) by (simp add: flow_ok_def)
    then show ?thesis using token(4) by simp
  qed (use assms(2) in \<open>simp_all add: flow_ok_def\<close>)
next
  case (server k)
  from server(1) show ?thesis
    by (cases rule: server_cases; cases k) (use assms(2) in \<open>auto simp: flow_ok_def dest: suffix_ConsD\<close>)
next
  case handler
  from handler(1) show ?thesis by (cases rule: handler_cases) (use assms(2,3) in \<open>simp_all add: flow_ok_def joins_ok_def\<close>)
next
  case main
  from main(1) show ?thesis by (cases rule: main_cases) (use assms(2) in \<open>simp_all add: flow_ok_def\<close>)
next
  case (spurious k)
  then show ?thesis using assms(2) by (cases k) (simp_all add: flow_ok_def)
next
  case sigint
  then show ?thesis using assms(4) by (simp add: interrupted_def)
qed

text \<open>The packet that the packet thread has, and whether it is counted and has been put somewhere.\<close>

fun pending :: "packet_pc \<Rightarrow> packet option" where
  "pending (P_sleep p) = Some p"
| "pending (P_lock p) = Some p"
| "pending (P_locked p) = Some p"
| "pending _ = None"

fun made :: "packet_pc \<Rightarrow> int" where
  "made P_loop = 0"
| "made P_broadcast = 0"
| "made P_done = 0"
| "made _ = 1"

fun settled :: "packet_pc \<Rightarrow> int" where
  "settled P_unlock = 1"
| "settled (P_drop n) = 1"
| "settled _ = 0"

definition ids_ok :: "parameters \<Rightarrow> sim \<Rightarrow> bool" where
  "ids_ok argobj s \<longleftrightarrow>
     total_packet_count s = loop_i s + made (ppc s) \<and>
     map packet_id (handled (stdout s)) = [1..loop_i s + settled (ppc s)] \<and>
     (\<forall>p. pending (ppc s) = Some p \<longrightarrow> packet_id p = total_packet_count s) \<and>
     0 \<le> loop_i s \<and> (loop_i s + made (ppc s) \<le> max 0 (packet_count argobj))"

definition drops_ok :: "parameters \<Rightarrow> sim \<Rightarrow> bool" where
  "drops_ok argobj s \<longleftrightarrow>
     dropped_packet_count s = int (length (dropped (stdout s))) \<and>
     mset (handled (stdout s)) = mset (entered_Q1 (stdout s)) + mset (dropped (stdout s)) \<and>
     (\<forall>p \<in> set (dropped (stdout s)). bucket_size argobj < required_token p) \<and>
     (\<forall>p \<in> set (entered_Q1 (stdout s)). required_token p \<le> bucket_size argobj) \<and>
     (\<forall>p. ppc s = P_lock p \<or> ppc s = P_locked p \<longrightarrow> required_token p \<le> bucket_size argobj)"

lemma ids_step:
  assumes "sim_step argobj s s'" "ids_ok argobj s" "joins_ok s" "\<not> interrupted s'"
  shows "ids_ok argobj s'"
  using assms(1)
proof (cases rule: sim_step_cases)
  case (packet junk)
  have ext: "[1..loop_i s + 1] = [1..loop_i s] @ [loop_i s + 1]" using assms(2) upto_rec2 [of 1 "loop_i s + 1"] by (simp add: ids_ok_def)
  from packet(1) show ?thesis
    by (cases rule: packet_cases) (use assms(2,3) ext in \<open>auto simp: ids_ok_def joins_ok_def\<close>)
next
  case bucket
  from bucket(1) show ?thesis by (cases rule: bucket_cases) (use assms(2) in \<open>simp_all add: ids_ok_def\<close>)
next
  case (server k)
  from server(1) show ?thesis by (cases rule: server_cases) (use assms(2) in \<open>simp_all add: ids_ok_def\<close>)
next
  case handler
  from handler(1) show ?thesis by (cases rule: handler_cases) (use assms(2,3) in \<open>simp_all add: ids_ok_def joins_ok_def\<close>)
next
  case main
  from main(1) show ?thesis by (cases rule: main_cases) (use assms(2) in \<open>simp_all add: ids_ok_def\<close>)
qed (use assms(2,4) in \<open>simp_all add: ids_ok_def interrupted_def\<close>)

lemma drops_step:
  assumes "sim_step argobj s s'" "drops_ok argobj s" "joins_ok s" "\<not> interrupted s'"
  shows "drops_ok argobj s'"
  using assms(1)
proof (cases rule: sim_step_cases)
  case (packet junk)
  from packet(1) show ?thesis
    by (cases rule: packet_cases) (use assms(2) in \<open>auto simp: drops_ok_def\<close>)
next
  case bucket
  from bucket(1) show ?thesis by (cases rule: bucket_cases) (use assms(2) in \<open>simp_all add: drops_ok_def\<close>)
next
  case (server k)
  from server(1) show ?thesis by (cases rule: server_cases) (use assms(2) in \<open>simp_all add: drops_ok_def\<close>)
next
  case handler
  from handler(1) show ?thesis by (cases rule: handler_cases) (use assms(2,3) in \<open>simp_all add: drops_ok_def joins_ok_def\<close>)
next
  case main
  from main(1) show ?thesis by (cases rule: main_cases) (use assms(2) in \<open>simp_all add: drops_ok_def\<close>)
qed (use assms(2,4) in \<open>simp_all add: drops_ok_def interrupted_def\<close>)

text \<open>Without a trace file every packet needs the same number of tokens.\<close>

definition same_tokens :: "parameters \<Rightarrow> sim \<Rightarrow> bool" where
  "same_tokens argobj s \<longleftrightarrow>
     (\<forall>p \<in> set (left_Q1 (stdout s)) \<union> set (Q1_list s) \<union> set_option (pending (ppc s)). required_token p = token_required argobj)"

lemma same_tokens_serve [simp]: "same_tokens argobj (serve_Q1 s) = same_tokens argobj s"
  by (rule serve_Q1_cases [of s]) (auto simp: same_tokens_def)

lemma same_tokens_step:
  assumes "sim_step argobj s s'" "same_tokens argobj s" "filename argobj = None"
  shows "same_tokens argobj s'"
  using assms(1)
proof (cases rule: sim_step_cases)
  case (packet junk)
  from packet(1) show ?thesis
  proof (cases rule: packet_cases)
    case (locked p)
    have "same_tokens argobj (s\<lparr>Q1_list := Q1_list s @ [p], stdout := stdout s @ [Arrives p, Enters_Q1 p]\<rparr>)"
      using assms(2) locked(1) by (simp add: same_tokens_def)
    then show ?thesis using locked same_tokens_serve [of argobj "s\<lparr>Q1_list := Q1_list s @ [p], stdout := stdout s @ [Arrives p, Enters_Q1 p]\<rparr>"]
      by (auto simp: same_tokens_def)
  qed (use assms(2,3) in \<open>simp_all add: same_tokens_def\<close>)
next
  case bucket
  from bucket(1) show ?thesis
  proof (cases rule: bucket_cases)
    case (token m)
    then show ?thesis using assms(2)
        same_tokens_serve [of argobj "s\<lparr>total_token_count := total_token_count s + 1, current_token_number := current_token_number s + 1, stdout := stdout s @ [m]\<rparr>"]
      by (simp add: same_tokens_def)
  qed (use assms(2) in \<open>simp_all add: same_tokens_def\<close>)
next
  case (server k)
  from server(1) show ?thesis by (cases rule: server_cases) (use assms(2) in \<open>simp_all add: same_tokens_def\<close>)
next
  case handler
  from handler(1) show ?thesis by (cases rule: handler_cases) (use assms(2) in \<open>auto simp: same_tokens_def\<close>)
next
  case main
  from main(1) show ?thesis by (cases rule: main_cases) (use assms(2) in \<open>simp_all add: same_tokens_def\<close>)
qed (use assms(2) in \<open>simp_all add: same_tokens_def\<close>)

end
