(* ===== verification/Warmup2_Lock.thy ===== *)
theory Warmup2_Lock
  imports Warmup2_Inv
begin

text \<open>
  The mutex of the token bucket emulation, and what the program has done when it cannot go on.
\<close>

section \<open>The mutex\<close>

fun crit :: "server_pc \<Rightarrow> bool" where
  "crit S_test = True"
| "crit S_wait = True"
| "crit (S_unlock p) = True"
| "crit _ = False"

text \<open>The threads between locking and unlocking the mutex.\<close>

definition in_critical :: "sim \<Rightarrow> thread \<Rightarrow> bool" where
  "in_critical s t \<longleftrightarrow>
     (case t of
        Packet_thread \<Rightarrow> (\<exists>p. ppc s = P_locked p) \<or> ppc s = P_unlock
      | Bucket_thread \<Rightarrow> bpc s = B_locked \<or> bpc s = B_unlock
      | Server_thread k \<Rightarrow> crit (spc s k)
      | Handle_thread \<Rightarrow> hpc s = H_locked \<or> hpc s = H_unlock
      | Main_thread \<Rightarrow> False)"

text \<open>
  A server that has served the last packet unlocks the mutex without holding it.  Then the only thread that can be between locking and
  unlocking is the other server.
\<close>

definition lock_ok :: "sim \<Rightarrow> bool" where
  "lock_ok s \<longleftrightarrow>
     (token_mutex s = Some Packet_thread \<longleftrightarrow> in_critical s Packet_thread) \<and>
     (token_mutex s = Some Bucket_thread \<longleftrightarrow> in_critical s Bucket_thread) \<and>
     token_mutex s \<noteq> Some Handle_thread \<and> token_mutex s \<noteq> Some Main_thread \<and>
     (bad_unlock s \<longrightarrow> spc s Server1 = S_done \<or> spc s Server2 = S_done)"

definition server_lock_ok :: "sim \<Rightarrow> server \<Rightarrow> bool" where
  "server_lock_ok s k \<longleftrightarrow>
     (crit (spc s k) \<longrightarrow> token_mutex s = Some (Server_thread k) \<or> bad_unlock s) \<and>
     (token_mutex s = Some (Server_thread k) \<longrightarrow>
        crit (spc s k) \<or> spc s k = S_exit \<or> spc s k = S_check \<and> stop_bucket_thread s \<and> stop_packet_thread s \<and> Q2_list s = []) \<and>
     (spc s k = S_wait \<or> spc s k = S_blocked \<longrightarrow> Q2_list s = [])"

lemma bad_unlock_stops:
  assumes "lock_ok s" "\<And>k. server_ok s k" "bad_unlock s"
  shows "stop_bucket_thread s \<and> stop_packet_thread s \<and> Q2_list s = []"
  using assms by (auto simp: lock_ok_def server_ok_def)

lemma serve_Q1_crit [simp]: "crit (spc (serve_Q1 s) k) = crit (spc s k)" "spc (serve_Q1 s) k = S_check \<longleftrightarrow> spc s k = S_check"
  by (rule serve_Q1_cases [of s]; simp)+

lemma woken_crit [simp]: "crit (if pc = S_blocked then S_relock else pc) = crit pc"
  by simp

lemma in_crit_other:
  "in_critical (s\<lparr>spc := a\<rparr>) Packet_thread = in_critical s Packet_thread" "in_critical (s\<lparr>spc := a\<rparr>) Bucket_thread = in_critical s Bucket_thread"
  "in_critical (s\<lparr>token_mutex := m\<rparr>) Packet_thread = in_critical s Packet_thread" "in_critical (s\<lparr>token_mutex := m\<rparr>) Bucket_thread = in_critical s Bucket_thread"
  "in_critical (s\<lparr>bad_unlock := b\<rparr>) Packet_thread = in_critical s Packet_thread" "in_critical (s\<lparr>bad_unlock := b\<rparr>) Bucket_thread = in_critical s Bucket_thread"
  "in_critical (s\<lparr>stopserver := f\<rparr>) Packet_thread = in_critical s Packet_thread" "in_critical (s\<lparr>stopserver := f\<rparr>) Bucket_thread = in_critical s Bucket_thread"
  "in_critical (s\<lparr>Q2_list := q\<rparr>) Packet_thread = in_critical s Packet_thread" "in_critical (s\<lparr>Q2_list := q\<rparr>) Bucket_thread = in_critical s Bucket_thread"
  "in_critical (s\<lparr>stdout := ms\<rparr>) Packet_thread = in_critical s Packet_thread" "in_critical (s\<lparr>stdout := ms\<rparr>) Bucket_thread = in_critical s Bucket_thread"
  "in_critical (s\<lparr>packet_served := n\<rparr>) Packet_thread = in_critical s Packet_thread" "in_critical (s\<lparr>packet_served := n\<rparr>) Bucket_thread = in_critical s Bucket_thread"
  by (simp_all add: in_critical_def)

lemma lock_ok_goto:
  assumes "spc s k \<noteq> S_done" "pc \<noteq> S_done" "lock_ok s"
  shows "lock_ok (goto k pc s)" "lock_ok (goto k pc (s\<lparr>Q2_list := q\<rparr>))" "lock_ok (goto k pc (s\<lparr>stdout := ms\<rparr>))" "lock_ok (goto k pc (s\<lparr>packet_served := n\<rparr>))"
  using assms by (cases k; auto simp: lock_ok_def in_crit_other)+

lemma stopped_not_critical:
  assumes "packet_ok argobj s" "token_ok s" "stop_bucket_thread s" "stop_packet_thread s"
  shows "\<not> in_critical s Packet_thread" "\<not> in_critical s Bucket_thread"
  using assms by (auto simp: in_critical_def packet_ok_def token_ok_def)

lemma server_alone:
  assumes "lock_ok s" "server_lock_ok s k" "packet_ok argobj s" "token_ok s" "\<And>k. server_ok s k" "crit (spc s k) \<or> spc s k = S_exit"
  shows "\<not> in_critical s Packet_thread" "\<not> in_critical s Bucket_thread"
proof -
  have "token_mutex s = Some (Server_thread k) \<or> stop_bucket_thread s \<and> stop_packet_thread s"
    using assms(2,6) bad_unlock_stops [OF assms(1,5)] assms(5) [of k] by (auto simp: server_lock_ok_def server_ok_def)
  then show "\<not> in_critical s Packet_thread" "\<not> in_critical s Bucket_thread"
    using assms(1) stopped_not_critical [OF assms(3,4)] by (auto simp: lock_ok_def)
qed

lemma lock_ok_step:
  assumes "sim_step argobj s s'" "lock_ok s" "\<And>k. server_lock_ok s k" "packet_ok argobj s" "token_ok s" "\<And>k. server_ok s k" "joins_ok s" "\<not> interrupted s'"
  shows "lock_ok s'"
  using assms(1)
proof (cases rule: sim_step_cases)
  case (packet junk)
  from packet(1) show ?thesis
    by (cases rule: packet_cases) (use assms(2) in \<open>auto simp: lock_ok_def in_critical_def serve_Q1_spc\<close>)
next
  case bucket
  from bucket(1) show ?thesis
    by (cases rule: bucket_cases) (use assms(2) in \<open>auto simp: lock_ok_def in_critical_def serve_Q1_spc\<close>)
next
  case (server k)
  note alone = server_alone [OF assms(2) assms(3) [of k] assms(4-6)]
  have nd: "spc s k \<noteq> S_done" using server(1) by (auto simp: server_thread_function_def)
  from server(1) show ?thesis
  proof (cases rule: server_cases)
    case (unlock p)
    have "\<not> in_critical s Packet_thread" "\<not> in_critical s Bucket_thread" using alone unlock(1) by auto
    moreover have "(bad_unlock s \<or> token_mutex s \<noteq> Some (Server_thread k)) = bad_unlock s" using assms(3) [of k] unlock(1) by (auto simp: server_lock_ok_def)
    ultimately show ?thesis using unlock nd assms(2) by (cases k) (simp_all add: lock_ok_def in_crit_other)
  next
    case exit
    have "\<not> in_critical s Packet_thread" "\<not> in_critical s Bucket_thread" using alone exit(1) by auto
    then show ?thesis using exit assms(2) by (cases k) (simp_all add: lock_ok_def in_crit_other)
  next
    case wait
    have "\<not> in_critical s Packet_thread" "\<not> in_critical s Bucket_thread" using alone wait(1) by auto
    then show ?thesis using wait nd assms(2) by (cases k) (simp_all add: lock_ok_def in_crit_other)
  next
    case lock
    then show ?thesis using assms(2) nd by (cases k) (simp_all add: lock_ok_def in_crit_other)
  qed (use lock_ok_goto [OF nd _ assms(2)] in simp_all)
next
  case handler
  from handler(1) show ?thesis by (cases rule: handler_cases) (use assms(2,7) in \<open>simp_all add: lock_ok_def in_critical_def joins_ok_def\<close>)
next
  case main
  from main(1) show ?thesis by (cases rule: main_cases) (use assms(2) in \<open>simp_all add: lock_ok_def in_critical_def\<close>)
next
  case (spurious k)
  then show ?thesis using lock_ok_goto(1) [OF _ _ assms(2)] by simp
next
  case sigint
  then show ?thesis using assms(8) by (simp add: interrupted_def)
qed

lemma serve_wait:
  assumes "spc s k \<noteq> S_wait" "spc s k = S_blocked \<Longrightarrow> Q2_list s = []"
  shows "spc (serve_Q1 s) k \<noteq> S_wait" "spc (serve_Q1 s) k = S_blocked \<Longrightarrow> Q2_list (serve_Q1 s) = []"
  using assms by (cases rule: serve_Q1_cases [of s]; auto split: if_splits)+

lemma server_waits:
  assumes "lock_ok s" "server_lock_ok s k" "packet_ok argobj s" "token_ok s" "\<And>k. server_ok s k"
    "in_critical s Packet_thread \<or> in_critical s Bucket_thread"
  shows "\<not> crit (spc s k)" "token_mutex s \<noteq> Some (Server_thread k)"
  using server_alone [OF assms(1-5)] assms(1,6) by (auto simp: lock_ok_def)

lemma server_lock_step:
  assumes "sim_step argobj s s'" "lock_ok s" "\<And>k. server_lock_ok s k" "packet_ok argobj s" "token_ok s" "\<And>k. server_ok s k" "joins_ok s" "\<not> interrupted s'"
  shows "server_lock_ok s' k"
  using assms(1)
proof (cases rule: sim_step_cases)
  case (packet junk)
  note waits = server_waits [OF assms(2) assms(3) [of k] assms(4-6)]
  from packet(1) show ?thesis
  proof (cases rule: packet_cases)
    case (locked p)
    have c: "\<not> crit (spc s k)" "token_mutex s \<noteq> Some (Server_thread k)" using waits locked(1) by (auto simp: in_critical_def)
    let ?t = "s\<lparr>Q1_list := Q1_list s @ [p], stdout := stdout s @ [Arrives p, Enters_Q1 p]\<rparr>"
    have "spc ?t k \<noteq> S_wait" "spc ?t k = S_blocked \<Longrightarrow> Q2_list ?t = []" using c assms(3) [of k] by (auto simp: server_lock_ok_def)
    from serve_wait [OF this] show ?thesis using locked(2) c by (simp add: server_lock_ok_def)
  next
    case unlock
    have "\<not> crit (spc s k)" using waits unlock(1) by (auto simp: in_critical_def)
    then show ?thesis using unlock(2) assms(3) [of k] by (auto simp: server_lock_ok_def)
  qed (use assms(3) [of k] in \<open>auto simp: server_lock_ok_def\<close>)
next
  case bucket
  note waits = server_waits [OF assms(2) assms(3) [of k] assms(4-6)]
  from bucket(1) show ?thesis
  proof (cases rule: bucket_cases)
    case (token m)
    have c: "\<not> crit (spc s k)" "token_mutex s \<noteq> Some (Server_thread k)" using waits token(1) by (auto simp: in_critical_def)
    let ?t = "s\<lparr>total_token_count := total_token_count s + 1, current_token_number := current_token_number s + 1, stdout := stdout s @ [m]\<rparr>"
    have "spc ?t k \<noteq> S_wait" "spc ?t k = S_blocked \<Longrightarrow> Q2_list ?t = []" using c assms(3) [of k] by (auto simp: server_lock_ok_def)
    from serve_wait [OF this] show ?thesis using token(4) c by (simp add: server_lock_ok_def)
  next
    case unlock
    have "\<not> crit (spc s k)" using waits unlock(1) by (auto simp: in_critical_def)
    then show ?thesis using unlock(2) assms(3) [of k] by (auto simp: server_lock_ok_def)
  qed (use assms(3) [of k] in \<open>auto simp: server_lock_ok_def\<close>)
next
  case (server j)
  show ?thesis
  proof (cases "j = k")
    case True
    from server(1) show ?thesis
      by (cases rule: server_cases) (use assms(3) [of k] assms(6) [of k] True in \<open>auto simp: server_lock_ok_def server_ok_def\<close>)
  next
    case False
    from server(1) show ?thesis
      by (cases rule: server_cases) (use assms(3) [of k] assms(3) [of j] False in \<open>auto simp: server_lock_ok_def\<close>)
  qed
next
  case handler
  from handler(1) show ?thesis by (cases rule: handler_cases) (use assms(3) [of k] assms(7) in \<open>simp_all add: server_lock_ok_def joins_ok_def\<close>)
next
  case main
  from main(1) show ?thesis by (cases rule: main_cases) (use assms(3) [of k] in \<open>simp_all add: server_lock_ok_def\<close>)
next
  case (spurious j)
  then show ?thesis using assms(3) [of k] by (auto simp: server_lock_ok_def)
next
  case sigint
  then show ?thesis using assms(8) by (simp add: interrupted_def)
qed

section \<open>All runs\<close>

definition sim_ok :: "parameters \<Rightarrow> sim \<Rightarrow> bool" where
  "sim_ok argobj s \<longleftrightarrow> packet_ok argobj s \<and> token_ok s \<and> (\<forall>k. server_ok s k) \<and> joins_ok s \<and>
     flow_ok s \<and> ids_ok argobj s \<and> drops_ok argobj s \<and> lock_ok s \<and> (\<forall>k. server_lock_ok s k)"

lemma sim_okD:
  assumes "sim_ok argobj s"
  shows "packet_ok argobj s" "token_ok s" "\<And>k. server_ok s k" "joins_ok s" "flow_ok s" "ids_ok argobj s" "drops_ok argobj s" "lock_ok s" "\<And>k. server_lock_ok s k"
  using assms by (simp_all add: sim_ok_def)

lemma serve_Q1_stdout: "\<exists>ms. stdout (serve_Q1 s) = stdout s @ ms"
  by (rule serve_Q1_cases [of s]) simp_all

lemma stdout_step:
  assumes "sim_step argobj s s'"
  shows "\<exists>ms. stdout s' = stdout s @ ms"
  using assms
proof (cases rule: sim_step_cases)
  case (packet junk)
  from packet(1) show ?thesis
  proof (cases rule: packet_cases)
    case (locked p)
    then show ?thesis using serve_Q1_stdout [of "s\<lparr>Q1_list := Q1_list s @ [p], stdout := stdout s @ [Arrives p, Enters_Q1 p]\<rparr>"] by auto
  qed auto
next
  case bucket
  from bucket(1) show ?thesis
  proof (cases rule: bucket_cases)
    case (token m)
    then show ?thesis
      using serve_Q1_stdout [of "s\<lparr>total_token_count := total_token_count s + 1, current_token_number := current_token_number s + 1, stdout := stdout s @ [m]\<rparr>"]
      by auto
  qed auto
next
  case (server k)
  from server(1) show ?thesis by (cases rule: server_cases) auto
next
  case handler
  from handler(1) show ?thesis by (cases rule: handler_cases) auto
next
  case main
  from main(1) show ?thesis by (cases rule: main_cases) auto
qed auto

lemma sim_ok_step:
  assumes "sim_step argobj s s'" "sim_ok argobj s" "\<not> interrupted s'"
  shows "sim_ok argobj s'"
proof -
  note s = sim_okD [OF assms(2)]
  show ?thesis unfolding sim_ok_def
    using packet_ok_step [OF assms(1) s(1,4) assms(3)] token_ok_step [OF assms(1) s(1,2,4) assms(3)] server_ok_step [OF assms(1) s(1-4) assms(3)]
      joins_ok_step [OF assms(1) s(4,1,2,3) assms(3)] flow_step [OF assms(1) s(5,4) assms(3)] ids_step [OF assms(1) s(6,4) assms(3)]
      drops_step [OF assms(1) s(7,4) assms(3)] lock_ok_step [OF assms(1) s(8,9,1,2,3,4) assms(3)]
      server_lock_step [OF assms(1) s(8,9,1,2,3,4) assms(3)]
    by blast
qed

lemma sim_ok_initial: "sim_ok argobj (initial input)"
  by (simp add: sim_ok_def initial_def packet_ok_def token_ok_def server_ok_def joins_ok_def flow_ok_def ids_ok_def drops_ok_def
      lock_ok_def in_critical_def server_lock_ok_def)

lemma reach_ok:
  assumes "(sim_step argobj)\<^sup>*\<^sup>* (initial input) s" "\<not> interrupted s"
  shows "sim_ok argobj s"
  using assms
proof (induction rule: rtranclp_induct)
  case (step s s')
  have "\<not> interrupted s" using stdout_step [OF step(2)] step(4) by (auto simp: interrupted_def)
  then show ?case using sim_ok_step [OF step(2)] step(3,4) by blast
qed (rule sim_ok_initial)

lemma reach_tokens:
  assumes "(sim_step argobj)\<^sup>*\<^sup>* (initial input) s" "0 \<le> bucket_size argobj"
  shows "tokens_ok s \<and> bucket_ok argobj s"
  using assms(1)
proof (induction rule: rtranclp_induct)
  case (step s s')
  then show ?case using tokens_step bucket_step by blast
qed (use assms(2) in \<open>simp add: tokens_ok_def bucket_ok_def initial_def\<close>)

lemma reach_same_tokens:
  assumes "(sim_step argobj)\<^sup>*\<^sup>* (initial input) s" "filename argobj = None"
  shows "same_tokens argobj s"
  using assms(1)
proof (induction rule: rtranclp_induct)
  case (step s s')
  then show ?case using same_tokens_step assms(2) by blast
qed (simp add: same_tokens_def initial_def)

section \<open>When nothing moves\<close>

lemma holder_moves:
  assumes ok: "sim_ok argobj s" and run: "\<not> exited s" and t: "token_mutex s = Some t"
  shows "\<exists>s'. thread_step argobj junk t s = Some s'"
proof (cases t)
  case Packet_thread
  then have "in_critical s Packet_thread" using sim_okD(8) [OF ok] t by (simp add: lock_ok_def)
  then show ?thesis using Packet_thread run by (auto simp: in_critical_def thread_step_def packet_thread_function_def Let_def)
next
  case Bucket_thread
  then have "in_critical s Bucket_thread" using sim_okD(8) [OF ok] t by (simp add: lock_ok_def)
  then show ?thesis using Bucket_thread run by (auto simp: in_critical_def thread_step_def bucket_thread_function_def Let_def)
next
  case (Server_thread k)
  then have "crit (spc s k) \<or> spc s k = S_exit \<or> spc s k = S_check" using sim_okD(9) [OF ok, of k] t by (auto simp: server_lock_ok_def)
  then show ?thesis using Server_thread run
    by (cases "spc s k") (auto simp: thread_step_def server_thread_function_def Let_def split: list.split)
qed (use sim_okD(8) [OF ok] t in \<open>simp_all add: lock_ok_def\<close>)

lemma handler_idle: "sim_ok argobj s \<Longrightarrow> \<not> in_critical s Handle_thread"
  by (drule sim_okD(4)) (unfold joins_ok_def in_critical_def, elim conjE disjE, simp_all)

lemma critical_held:
  assumes ok: "sim_ok argobj s" and t: "in_critical s t"
  shows "token_mutex s = Some t \<or> bad_unlock s \<and> (\<exists>k. t = Server_thread k)"
proof (cases t)
  case (Server_thread k)
  then have "crit (spc s k)" using t by (simp add: in_critical_def)
  then show ?thesis using sim_okD(9) [OF ok, of k] Server_thread unfolding server_lock_ok_def by blast
next
  case Main_thread
  then show ?thesis using t by (simp add: in_critical_def)
next
  case Handle_thread
  then show ?thesis using t handler_idle [OF ok] by simp
qed (use t sim_okD(8) [OF ok] in \<open>simp_all add: lock_ok_def\<close>)

lemma critical_unique:
  assumes ok: "sim_ok argobj s" and t: "in_critical s t" "in_critical s u"
  shows "t = u"
proof (cases "bad_unlock s")
  case True
  note stops = bad_unlock_stops [OF sim_okD(8,3) [OF ok] True]
  have server: "\<exists>k. v = Server_thread k \<and> spc s k \<noteq> S_done" if "in_critical s v" for v
  proof (cases v)
    case (Server_thread k)
    then show ?thesis using that by (auto simp: in_critical_def)
  next
    case Handle_thread
    then show ?thesis using that handler_idle [OF ok] by simp
  next
    case Main_thread
    then show ?thesis using that by (simp add: in_critical_def)
  qed (use that stopped_not_critical [OF sim_okD(1,2) [OF ok]] stops in simp_all)
  obtain j k where jk: "t = Server_thread j" "spc s j \<noteq> S_done" "u = Server_thread k" "spc s k \<noteq> S_done" using server t by metis
  have "spc s Server1 = S_done \<or> spc s Server2 = S_done" using sim_okD(8) [OF ok] True by (simp add: lock_ok_def)
  then show ?thesis using jk by (cases j; cases k) simp_all
next
  case False
  then show ?thesis using critical_held [OF ok] t by (metis option.inject)
qed

definition stuck :: "parameters \<Rightarrow> sim \<Rightarrow> bool" where
  "stuck argobj s \<longleftrightarrow> (\<forall>junk t. thread_step argobj junk t s = None)"

lemma stuck_ends:
  assumes ok: "sim_ok argobj s" and run: "\<not> exited s" and stuck: "stuck argobj s"
  shows "ppc s = P_done" "bpc s = B_done" "spc s k = S_blocked \<or> spc s k = S_done" "mpc s = M_done \<or> (\<exists>k. spc s k = S_blocked)"
proof -
  have no: "thread_step argobj 0 t s = None" for t using stuck by (simp add: stuck_def)
  have free: "token_mutex s = None" using holder_moves [OF ok run, of _ 0] no by (cases "token_mutex s") auto
  show p: "ppc s = P_done" using no [of Packet_thread] run free
    by (cases "ppc s") (auto simp: thread_step_def packet_thread_function_def Let_def split: if_splits option.splits prod.splits)
  show b: "bpc s = B_done" using no [of Bucket_thread] run free
    by (cases "bpc s") (auto simp: thread_step_def bucket_thread_function_def Let_def split: if_splits)
  show sv: "spc s k = S_blocked \<or> spc s k = S_done" for k using no [of "Server_thread k"] run free
    by (cases "spc s k") (auto simp: thread_step_def server_thread_function_def Let_def split: if_splits list.splits)
  show "mpc s = M_done \<or> (\<exists>k. spc s k = S_blocked)"
  proof (rule ccontr)
    assume a: "\<not> ?thesis"
    then have d: "spc s k = S_done" for k using sv by blast
    have "thread_step argobj 0 Main_thread s = main_thread s" "thread_step argobj 0 Handle_thread s = handleUnfinishedBusiness s"
      using run by (simp_all add: thread_step_def)
    then show False using a p b d no [of Main_thread] no [of Handle_thread] sim_okD(4) [OF ok]
      by (cases "mpc s") (auto simp: main_thread_def handleUnfinishedBusiness_def joins_ok_def)
  qed
qed

lemma stuck_work:
  assumes ok: "sim_ok argobj s" and run: "\<not> exited s" and stuck: "stuck argobj s"
  shows "Q1_list s = []" "Q2_list s = []" "mset (departed (stdout s)) = mset (entered_Q1 (stdout s))"
    "map packet_id (handled (stdout s)) = [1..packet_count argobj]"
proof -
  note e = stuck_ends [OF ok run stuck]
  have stops: "stop_packet_thread s" "stop_bucket_thread s" using e(1,2) sim_okD(1,2) [OF ok] by (simp_all add: packet_ok_def token_ok_def)
  show q1: "Q1_list s = []" using stops sim_okD(2) [OF ok] by (simp add: token_ok_def)
  show q2: "Q2_list s = []" using e(3) [of Server1] sim_okD(3,9) [OF ok, of Server1] by (auto simp: server_ok_def server_lock_ok_def)
  have "in_hand (spc s k) = {#}" for k using e(3) [of k] by auto
  then show "mset (departed (stdout s)) = mset (entered_Q1 (stdout s))" using sim_okD(5) [OF ok] q1 q2 by (simp add: flow_ok_def)
  have "packet_count argobj \<le> loop_i s" "loop_i s \<le> max 0 (packet_count argobj)" "0 \<le> loop_i s"
    using sim_okD(1,6) [OF ok] stops e(1) by (simp_all add: packet_ok_def ids_ok_def)
  then have "[1..loop_i s] = [1..packet_count argobj]" by (cases "0 \<le> packet_count argobj") auto
  then show "map packet_id (handled (stdout s)) = [1..packet_count argobj]" using sim_okD(6) [OF ok] e(1) by (simp add: ids_ok_def)
qed

end
