(* ===== verification/Warmup2_Run.thy ===== *)
theory Warmup2_Run
  imports Warmup2_Lock
begin

text \<open>
  What the token bucket emulation does, from the command line to the end of the program.
\<close>

section \<open>The command line\<close>

definition given_ok :: "parameters \<Rightarrow> bool" where
  "given_ok data \<longleftrightarrow> 0 \<le> bucket_size data \<and> 0 \<le> token_required data \<and> 0 \<le> packet_count data"

lemma options_ok: "options_loop z opts data = Inr data' \<Longrightarrow> given_ok data \<Longrightarrow> given_ok data'"
proof (induction opts arbitrary: data)
  case (Cons opt opts)
  obtain d where d: "one_option z opt data = Inr d" "options_loop z opts d = Inr data'" using Cons.prems(1) by (auto split: sum.splits)
  have "given_ok d" using d(1) Cons.prems(2) by (cases opt) (auto simp: one_option_def given_ok_def split: if_splits)
  then show ?case using Cons.IH d(2) by blast
qed simp

lemma parameters_ok:
  assumes "get_Parameters z fs argc opts = Inr (data, input)"
  shows "1 \<le> bucket_size data" "1 \<le> token_required data" "filename data = None \<Longrightarrow> 1 \<le> packet_count data"
proof -
  obtain d where d: "options_loop z opts \<lparr>filename = None, bucket_size = 0, token_required = 0, packet_count = 0\<rparr> = Inr d"
    using assms by (auto simp: get_Parameters_def split: sum.splits)
  have "given_ok d" by (rule options_ok [OF d]) (simp add: given_ok_def)
  then show "1 \<le> bucket_size data" "1 \<le> token_required data" "filename data = None \<Longrightarrow> 1 \<le> packet_count data"
    using assms d by (auto simp: get_Parameters_def VerifyFile_def setdefaults_def given_ok_def Let_def split: sum.splits option.splits if_splits prod.splits)
qed

section \<open>Example\<close>

definition demo_parameters :: parameters where
  "demo_parameters = \<lparr>filename = None, bucket_size = 2, token_required = 1, packet_count = 2\<rparr>"

lemma demo_command_line:
  "get_Parameters (\<lambda>_. False) (\<lambda>_. \<lparr>tf_exists = False, tf_readable = False, tf_directory = False, tf_contents = None\<rparr>) 7
     [Opt_B ''2'', Opt_P ''1'', Opt_n ''2''] = Inr (demo_parameters, [])"
  by code_simp

lemma schedule_reaches: "schedule argobj ts s = Some s' \<Longrightarrow> (sim_step argobj)\<^sup>*\<^sup>* s s'"
proof (induction ts arbitrary: s)
  case (Cons t ts)
  then obtain u where u: "thread_step argobj 0 t s = Some u" "schedule argobj ts u = Some s'" by (auto split: option.splits)
  from sim_step.thread [OF u(1)] Cons.IH [OF u(2)] show ?case by (rule converse_rtranclp_into_rtranclp)
qed simp

text \<open>Two tokens and two packets, which go to Q2 at once; then all packets have arrived.\<close>

definition demo_arrivals :: "thread list" where
  "demo_arrivals = replicate 10 Bucket_thread @ replicate 12 Packet_thread"

text \<open>Both servers take a packet, and both have read \<open>packet_served\<close> before either of them writes it.\<close>

definition demo_race :: "thread list" where
  "demo_race = demo_arrivals @ replicate 5 (Server_thread Server1) @ replicate 5 (Server_thread Server2) @
     [Server_thread Server1, Server_thread Server2, Server_thread Server1, Server_thread Server2] @ replicate 2 Bucket_thread @
     replicate 2 (Server_thread Server1) @ replicate 2 (Server_thread Server2) @ replicate 5 Main_thread @ [Handle_thread, Main_thread]"

text \<open>
  The second server serves both packets.  The first one finds Q2 empty and the token thread running, and is about to wait when that
  thread stops and wakes nobody.
\<close>

definition demo_lost :: "thread list" where
  "demo_lost = demo_arrivals @ replicate 16 (Server_thread Server2) @ replicate 2 (Server_thread Server1) @ replicate 2 Bucket_thread @
     [Server_thread Server1] @ replicate 4 (Server_thread Server2) @ replicate 3 Main_thread"

definition demo_finished :: sim where
  "demo_finished = (case schedule demo_parameters demo_race (initial []) of Some s \<Rightarrow> s | None \<Rightarrow> initial [])"

definition demo_stuck :: sim where
  "demo_stuck = (case schedule demo_parameters demo_lost (initial []) of Some s \<Rightarrow> s | None \<Rightarrow> initial [])"

definition seen :: "sim \<Rightarrow> _" where
  "seen s = (ppc s, bpc s, spc s Server1, spc s Server2, hpc s, mpc s, packet_served s, length (departed (stdout s)), bad_unlock s, cancelled s Handle_thread,
     exited s, Interrupted \<in> set (stdout s))"

lemma demo_runs:
  "map_option seen (schedule demo_parameters demo_race (initial [])) =
     Some (P_done, B_done, S_done, S_done, H_done, M_done, 1, 2, True, True, False, False)"
  "map_option seen (schedule demo_parameters demo_lost (initial [])) =
     Some (P_done, B_done, S_blocked, S_done, H_sigwait, M_join_server1, 2, 2, False, False, False, False)"
  by code_simp+

lemma demo_finished_run:
  "schedule demo_parameters demo_race (initial []) = Some demo_finished"
  "seen demo_finished = (P_done, B_done, S_done, S_done, H_done, M_done, 1, 2, True, True, False, False)"
  using demo_runs(1) by (auto simp: demo_finished_def)

lemma demo_stuck_run:
  "schedule demo_parameters demo_lost (initial []) = Some demo_stuck"
  "seen demo_stuck = (P_done, B_done, S_blocked, S_done, H_sigwait, M_join_server1, 2, 2, False, False, False, False)"
  using demo_runs(2) by (auto simp: demo_stuck_def)

lemmas demo_reached = schedule_reaches [OF demo_finished_run(1)] schedule_reaches [OF demo_stuck_run(1)]

lemma demo_stops: "stuck demo_parameters demo_finished" "stuck demo_parameters demo_stuck"
proof -
  have "thread_step demo_parameters junk t demo_finished = None" for junk t
    using demo_finished_run(2)
    by (cases t; cases "case t of Server_thread k \<Rightarrow> k | _ \<Rightarrow> Server1")
      (simp_all add: seen_def thread_step_def packet_thread_function_def bucket_thread_function_def server_thread_function_def handleUnfinishedBusiness_def main_thread_def)
  then show "stuck demo_parameters demo_finished" by (simp add: stuck_def)
  have "thread_step demo_parameters junk t demo_stuck = None" for junk t
    using demo_stuck_run(2)
    by (cases t; cases "case t of Server_thread k \<Rightarrow> k | _ \<Rightarrow> Server1")
      (simp_all add: seen_def thread_step_def packet_thread_function_def bucket_thread_function_def server_thread_function_def handleUnfinishedBusiness_def main_thread_def)
  then show "stuck demo_parameters demo_stuck" by (simp add: stuck_def)
qed

section \<open>Properties\<close>



text \<open>
  C3. The program never stops early: if no thread can go on and the user has not interrupted the program, every packet has
  been dropped, because it needs more tokens than the bucket can hold, or has been served, each one once, and the queues are empty.
  Either the program has then ended, or a server still waits for a signal that was sent too early.
\<close>

theorem no_packet_lost:
  assumes "(sim_step data)\<^sup>*\<^sup>* (initial input) s" "\<not> interrupted s" "\<not> exited s" "stuck data s"
  shows "mset (map packet_id (departed (stdout s) @ dropped (stdout s))) = mset [1..packet_count data] \<and>
    Q1_list s = [] \<and> Q2_list s = [] \<and>
    (\<forall>p. p \<in> set (dropped (stdout s)) \<longrightarrow> bucket_size data < required_token p) \<and>
    (\<forall>p. p \<in> set (departed (stdout s)) \<longrightarrow> required_token p \<le> bucket_size data) \<and>
    (mpc s = M_done \<or> (\<exists>k. spc s k = S_blocked))"
proof -
  note ok = reach_ok [OF assms(1,2)]
  note w = stuck_work [OF ok assms(3,4)]
  have d: "mset (handled (stdout s)) = mset (departed (stdout s)) + mset (dropped (stdout s))" using sim_okD(7) [OF ok] w(3) by (simp add: drops_ok_def)
  have "mset (map packet_id (departed (stdout s) @ dropped (stdout s))) = image_mset packet_id (mset (handled (stdout s)))" by (simp add: d)
  also have "\<dots> = mset [1..packet_count data]" using arg_cong [OF w(4), of mset] by simp
  finally have "mset (map packet_id (departed (stdout s) @ dropped (stdout s))) = mset [1..packet_count data]" .
  moreover have "set (departed (stdout s)) = set (entered_Q1 (stdout s))" using mset_eq_setD [OF w(3)] .
  ultimately show ?thesis using w(1,2) sim_okD(7) [OF ok] stuck_ends(4) [OF ok assms(3,4)] by (auto simp: drops_ok_def)
qed

theorem no_packet_lost_witness:
  "mset (map packet_id (departed (stdout demo_finished) @ dropped (stdout demo_finished))) = mset [1, 2] \<and> Q2_list demo_finished = []"
proof -
  have "[1..2] = [1, 2 :: int]" by code_simp
  then show ?thesis
    using no_packet_lost [OF demo_reached(1) _ _ demo_stops(1)] demo_finished_run(2) by (simp add: seen_def interrupted_def demo_parameters_def)
qed

text \<open>
  C21. The queues keep their order and at most one thread is between locking and unlocking the mutex: in every run that is
  not interrupted, what entered Q1 is what left it followed by what is in it, what entered Q2 is what left Q1, and Q2 is the end of that;
  a packet that has left Q1 is in Q2, with a server, or gone.
\<close>

theorem queues_in_order:
  assumes "(sim_step data)\<^sup>*\<^sup>* (initial input) s" "\<not> interrupted s"
  shows "entered_Q1 (stdout s) = left_Q1 (stdout s) @ Q1_list s \<and> entered_Q2 (stdout s) = left_Q1 (stdout s) \<and>
    suffix (Q2_list s) (entered_Q2 (stdout s)) \<and>
    mset (left_Q1 (stdout s)) = mset (Q2_list s) + in_hand (spc s Server1) + in_hand (spc s Server2) + mset (departed (stdout s)) \<and>
    (in_critical s t \<and> in_critical s u \<longrightarrow> t = u)"
proof -
  note ok = reach_ok [OF assms]
  show ?thesis using sim_okD(5) [OF ok] critical_unique [OF ok] by (auto simp: flow_ok_def)
qed

theorem queues_in_order_witness: "entered_Q2 (stdout demo_stuck) = left_Q1 (stdout demo_stuck)"
  using queues_in_order [OF demo_reached(2)] demo_stuck_run(2) by (simp add: seen_def interrupted_def)


text \<open>Tabs do not separate the numbers of a trace file, and a packet may ask for a negative number of tokens.\<close>

lemma trace_examples:
  "trace_line (''10'' @ [CHR 0x09] @ ''2'' @ [CHR 0x09] @ ''30'') = None" "trace_line ''10 2 30'' = Some 2" "trace_line ''10 -2 30'' = Some (- 2)"
  by code_simp+

text \<open>The count of served packets can be too small, and a server can unlock the mutex without holding it.\<close>

lemma count_lost: "mpc demo_finished = M_done \<and> packet_served demo_finished < int (length (departed (stdout demo_finished))) \<and> bad_unlock demo_finished"
  using demo_finished_run(2) by (simp add: seen_def)

end
