(* ===== verification/Vmmap.thy ===== *)
theory Vmmap
  imports OS_Prelude
begin

text \<open>
  Address spaces, \<^verbatim>\<open>src/kernel/proc/vm/vmmap.c\<close>: a map is a list of areas, each of which
  backs a range of virtual page numbers with pages of a memory object.

  Page numbers are 32-bit words and wrap around as \<open>uint32_t\<close> does.  A failed \<open>KASSERT\<close> is the
  result \<^const>\<open>None\<close>, a returned \<open>-errno\<close> is \<open>Inl\<close>.  The constants of \<^verbatim>\<open>mm/mm.h\<close> and
  \<^verbatim>\<open>mm/mman.h\<close> are the fields of \<open>vmm_config\<close>; the calls into the slab allocator, the memory
  objects, the page frames and the vnode are the fields of \<open>mm_ops\<close>, which act on a state of a
  type \<open>'m\<close> of their own.  The link \<open>vma_olink\<close> is the object on whose list of areas the area is.
  Debug output is left out.

  \<open>page_of\<close> is the abstract view of a map: what backs a given page number.  \<open>wf_areas\<close> is its
  invariant: the areas are not empty, lie in the user address space, and are sorted and disjoint.
\<close>

section \<open>Data\<close>

record 'o vmarea =
  vma_start :: "32 word"
  vma_end :: "32 word"
  vma_off :: "32 word"
  vma_prot :: "32 word"
  vma_flags :: "32 word"
  vma_vmmap :: addr
  vma_obj :: 'o
  vma_olink :: "'o option"

record 'o vmmap =
  vmm_list :: "'o vmarea list"
  vmm_proc :: addr


record vmm_config =
  user_low :: "32 word"
  user_high :: "32 word"
  page_shift :: nat
  MAP_SHARED :: "32 word"
  MAP_PRIVATE :: "32 word"
  VMMAP_DIR_HILO :: int

record ('o, 'v, 'm) mm_ops =
  slab_alloc :: "'m \<Rightarrow> addr \<times> 'm"
  slab_free :: "'m \<Rightarrow> 'm"
  ref_obj :: "'o \<Rightarrow> 'm \<Rightarrow> 'm"
  put_obj :: "'o \<Rightarrow> 'm \<Rightarrow> 'm"
  bottom_obj :: "'o \<Rightarrow> 'm \<Rightarrow> 'o"
  anon_create :: "'m \<Rightarrow> 'o \<times> 'm"
  shadow_create :: "'m \<Rightarrow> 'o \<times> 'm"
  set_shadowed :: "'o \<Rightarrow> 'o \<Rightarrow> 'o \<Rightarrow> 'm \<Rightarrow> 'm"
  vn_mmap :: "'v \<Rightarrow> 'm \<Rightarrow> 'o \<times> 'm"
  pframe_lookup :: "'o \<Rightarrow> 32 word \<Rightarrow> bool \<Rightarrow> 'm \<Rightarrow> addr \<times> 'm"
  pframe_dirty :: "addr \<Rightarrow> 'm \<Rightarrow> 'm"
  get_bytes :: "addr \<Rightarrow> nat \<Rightarrow> nat \<Rightarrow> 'm \<Rightarrow> 8 word list"
  put_bytes :: "addr \<Rightarrow> nat \<Rightarrow> 8 word list \<Rightarrow> 'm \<Rightarrow> 'm"

section \<open>The operations\<close>

definition ADDR_TO_PN :: "vmm_config \<Rightarrow> 32 word \<Rightarrow> 32 word" where
  "ADDR_TO_PN cfg a = drop_bit (page_shift cfg) a"

definition PAGE_OFFSET :: "vmm_config \<Rightarrow> 32 word \<Rightarrow> nat" where
  "PAGE_OFFSET cfg a = unat (take_bit (page_shift cfg) a)"

definition PAGE_ALIGNED :: "vmm_config \<Rightarrow> 32 word \<Rightarrow> bool" where
  "PAGE_ALIGNED cfg a \<longleftrightarrow> take_bit (page_shift cfg) a = 0"

definition vmarea_alloc :: "('o, 'v, 'm) mm_ops \<Rightarrow> 'm \<Rightarrow> bool \<times> 'm" where
  "vmarea_alloc ops m = (case slab_alloc ops m of (p, m) \<Rightarrow> (p \<noteq> NULL, m))"

definition vmarea_free :: "('o, 'v, 'm) mm_ops \<Rightarrow> 'o vmarea option \<Rightarrow> 'm \<Rightarrow> 'm option" where
  "vmarea_free ops vma m = (case vma of None \<Rightarrow> None | Some _ \<Rightarrow> Some (slab_free ops m))"

definition vmmap_create :: "('o, 'v, 'm) mm_ops \<Rightarrow> 'm \<Rightarrow> 'o vmmap option \<times> 'm" where
  "vmmap_create ops m =
     (case slab_alloc ops m of
        (newmap, m) \<Rightarrow> if newmap = NULL then (None, m) else (Some \<lparr>vmm_list = [], vmm_proc = NULL\<rparr>, m))"

fun destroy_areas :: "('o, 'v, 'm) mm_ops \<Rightarrow> 'o vmarea list \<Rightarrow> 'm \<Rightarrow> 'm" where
  "destroy_areas ops [] m = m"
| "destroy_areas ops (v # vs) m = destroy_areas ops vs (slab_free ops (put_obj ops (vma_obj v) m))"

definition vmmap_destroy :: "('o, 'v, 'm) mm_ops \<Rightarrow> 'o vmmap option \<Rightarrow> 'm \<Rightarrow> 'm option" where
  "vmmap_destroy ops vmap m =
     (case vmap of
        None \<Rightarrow> None
      | Some mp \<Rightarrow>
          if vmm_list mp = [] then Some m
          else Some (slab_free ops (destroy_areas ops (vmm_list mp) m)))"

fun insert_area :: "'o vmarea \<Rightarrow> 'o vmarea list \<Rightarrow> 'o vmarea list" where
  "insert_area newvma [] = [newvma]"
| "insert_area newvma (freshvma # vs) =
     (if vma_start freshvma > vma_start newvma then newvma # freshvma # vs
      else freshvma # insert_area newvma vs)"

definition vmmap_insert :: "vmm_config \<Rightarrow> addr \<Rightarrow> 'o vmmap \<Rightarrow> 'o vmarea \<Rightarrow> 'o vmmap option" where
  "vmmap_insert cfg mapp vmap newvma =
     (if mapp \<noteq> NULL \<and> vma_vmmap newvma = NULL \<and> vma_start newvma < vma_end newvma \<and>
         user_low cfg \<le> vma_start newvma \<and> user_high cfg \<ge> vma_end newvma
      then Some (vmap\<lparr>vmm_list := insert_area (newvma\<lparr>vma_vmmap := mapp\<rparr>) (vmm_list vmap)\<rparr>)
      else None)"

definition vmmap_is_range_empty :: "vmm_config \<Rightarrow> 'o vmmap \<Rightarrow> 32 word \<Rightarrow> 32 word \<Rightarrow> int option" where
  "vmmap_is_range_empty cfg vmap startvfn npages =
     (let endvfn = startvfn + npages in
      if startvfn < endvfn \<and> user_low cfg \<le> startvfn \<and> user_high cfg \<ge> endvfn
      then Some (if list_all (\<lambda>v. vma_start v \<ge> endvfn \<or> vma_end v \<le> startvfn) (vmm_list vmap) then 1 else 0)
      else None)"

fun find_range_loop ::
  "vmm_config \<Rightarrow> 'o vmmap \<Rightarrow> 32 word \<Rightarrow> bool \<Rightarrow> 'o vmarea list \<Rightarrow> int option" where
  "find_range_loop cfg vmap npages is_last [] = Some (- 1)"
| "find_range_loop cfg vmap npages is_last (vmarea # vs) =
     (if is_last \<and> user_high cfg \<ge> vma_end vmarea + npages then Some (sint (user_high cfg - npages))
      else if user_low cfg \<le> vma_start vmarea - npages then
        (case vmmap_is_range_empty cfg vmap (vma_start vmarea - npages) npages of
           None \<Rightarrow> None
         | Some is_range_empty \<Rightarrow>
             if is_range_empty \<noteq> 0 then Some (sint (vma_start vmarea - npages))
             else find_range_loop cfg vmap npages False vs)
      else find_range_loop cfg vmap npages False vs)"

definition vmmap_find_range :: "vmm_config \<Rightarrow> 'o vmmap option \<Rightarrow> 32 word \<Rightarrow> int \<Rightarrow> int option" where
  "vmmap_find_range cfg vmap npages dir =
     (case vmap of
        None \<Rightarrow> Some (- 1)
      | Some mp \<Rightarrow>
          if dir = VMMAP_DIR_HILO cfg then find_range_loop cfg mp npages True (rev (vmm_list mp))
          else Some (- 1))"

fun lookup_area :: "'o vmarea list \<Rightarrow> 32 word \<Rightarrow> 'o vmarea option" where
  "lookup_area [] vfn = None"
| "lookup_area (vmarea # vs) vfn =
     (if vma_start vmarea \<le> vfn \<and> vma_end vmarea > vfn then Some vmarea else lookup_area vs vfn)"

definition vmmap_lookup :: "'o vmmap \<Rightarrow> 32 word \<Rightarrow> 'o vmarea option" where
  "vmmap_lookup vmap vfn = lookup_area (vmm_list vmap) vfn"

fun clone_areas ::
  "vmm_config \<Rightarrow> ('o, 'v, 'm) mm_ops \<Rightarrow> addr \<Rightarrow> 'o vmarea list \<Rightarrow> 'o vmmap \<Rightarrow> 'm \<Rightarrow> ('o vmmap option \<times> 'm) option" where
  "clone_areas cfg ops mapp [] vmap m = Some (Some vmap, m)"
| "clone_areas cfg ops mapp (vmarea # vs) vmap m =
     (case slab_alloc ops m of (newvmarea, m) \<Rightarrow>
      if newvmarea = NULL then Some (None, m)
      else let m = ref_obj ops (vma_obj vmarea) m in
        (case vmmap_insert cfg mapp vmap (vmarea\<lparr>vma_vmmap := NULL, vma_olink := None\<rparr>) of
           None \<Rightarrow> None
         | Some vmap \<Rightarrow> clone_areas cfg ops mapp vs vmap m))"

definition vmmap_clone ::
  "vmm_config \<Rightarrow> ('o, 'v, 'm) mm_ops \<Rightarrow> 'o vmmap \<Rightarrow> 'm \<Rightarrow> ('o vmmap option \<times> 'm) option" where
  "vmmap_clone cfg ops vmap m =
     (case slab_alloc ops m of (mapp, m) \<Rightarrow>
      if mapp = NULL then Some (None, m)
      else clone_areas cfg ops mapp (vmm_list vmap) \<lparr>vmm_list = [], vmm_proc = NULL\<rparr> m)"

fun remove_areas ::
  "('o, 'v, 'm) mm_ops \<Rightarrow> 32 word \<Rightarrow> 32 word \<Rightarrow> 'o vmarea list \<Rightarrow> 'm \<Rightarrow> 'o vmarea list \<times> 'm" where
  "remove_areas ops lopage npages [] m = ([], m)"
| "remove_areas ops lopage npages (vmarea # vs) m =
     (let last = lopage + npages in
      if vma_start vmarea \<ge> last \<or> vma_end vmarea \<le> lopage then
        (case remove_areas ops lopage npages vs m of (us, m) \<Rightarrow> (vmarea # us, m))
      else if vma_start vmarea < lopage \<and> vma_end vmarea > last then
        (case vmarea_alloc ops m of (ok, m) \<Rightarrow>
         if \<not> ok then (vmarea # vs, m)
         else
           let m = ref_obj ops (vma_obj vmarea) m;
               newmmobj = bottom_obj ops (vma_obj vmarea) m;
               second = vmarea\<lparr>vma_end := lopage, vma_olink := None\<rparr>
           in ((if newmmobj \<noteq> vma_obj vmarea then second\<lparr>vma_olink := Some newmmobj\<rparr> else second) #
               vmarea\<lparr>vma_off := lopage - vma_start vmarea + npages + vma_off vmarea, vma_start := last\<rparr> # vs, m))
      else if vma_start vmarea < lopage \<and> vma_end vmarea \<le> last then
        (case remove_areas ops lopage npages vs m of (us, m) \<Rightarrow> (vmarea\<lparr>vma_end := lopage\<rparr> # us, m))
      else if vma_start vmarea \<ge> lopage \<and> vma_end vmarea > last then
        (case remove_areas ops lopage npages vs m of (us, m) \<Rightarrow>
          (vmarea\<lparr>vma_off := vma_off vmarea + last - vma_start vmarea, vma_start := last\<rparr> # us, m))
      else
        remove_areas ops lopage npages vs (slab_free ops (put_obj ops (vma_obj vmarea) m)))"

definition vmmap_remove ::
  "vmm_config \<Rightarrow> ('o, 'v, 'm) mm_ops \<Rightarrow> 'o vmmap \<Rightarrow> 32 word \<Rightarrow> 32 word \<Rightarrow> 'm \<Rightarrow> (int \<times> 'o vmmap \<times> 'm) option" where
  "vmmap_remove cfg ops vmap lopage npages m =
     (case vmmap_is_range_empty cfg vmap lopage npages of
        None \<Rightarrow> None
      | Some e \<Rightarrow>
          if e \<noteq> 0 then Some (0, vmap, m)
          else case remove_areas ops lopage npages (vmm_list vmap) m of
            (vs, m) \<Rightarrow> Some (0, vmap\<lparr>vmm_list := vs\<rparr>, m))"

definition map_object ::
  "vmm_config \<Rightarrow> ('o, 'v, 'm) mm_ops \<Rightarrow> 'v option \<Rightarrow> 32 word \<Rightarrow> 32 word \<Rightarrow> 32 word \<Rightarrow> 32 word \<Rightarrow> 32 word \<Rightarrow> 'm \<Rightarrow>
   'o vmarea \<times> 'm" where
  "map_object cfg ops file start npages prot flags off m =
     (case (case file of Some f \<Rightarrow> vn_mmap ops f m | None \<Rightarrow> anon_create ops m) of (obj, m) \<Rightarrow>
      let vmarea = \<lparr>vma_start = start, vma_end = start + npages, vma_off = ADDR_TO_PN cfg off, vma_prot = prot,
            vma_flags = flags, vma_vmmap = NULL, vma_obj = obj, vma_olink = None\<rparr>
      in if and flags (MAP_PRIVATE cfg) \<noteq> 0 then
           (case shadow_create ops m of (shadow_obj, m) \<Rightarrow>
            let m = set_shadowed ops shadow_obj obj (bottom_obj ops obj m) m
            in (vmarea\<lparr>vma_olink := Some obj, vma_obj := shadow_obj\<rparr>, m))
         else (vmarea, m))"

definition vmmap_map ::
  "vmm_config \<Rightarrow> ('o, 'v, 'm) mm_ops \<Rightarrow> addr \<Rightarrow> 'o vmmap \<Rightarrow> 'v option \<Rightarrow> 32 word \<Rightarrow> 32 word \<Rightarrow> 32 word \<Rightarrow> 32 word \<Rightarrow>
   32 word \<Rightarrow> int \<Rightarrow> 'm \<Rightarrow> ((errno + 'o vmarea) \<times> 'o vmmap \<times> 'm) option" where
  "vmmap_map cfg ops mapp vmap file lopage npages prot flags off dir m =
     (if \<not> (0 < npages) then None
      else if \<not> (and (MAP_SHARED cfg) flags \<noteq> 0 \<or> and (MAP_PRIVATE cfg) flags \<noteq> 0) then None
      else if \<not> (lopage = 0 \<or> user_low cfg \<le> lopage) then None
      else if \<not> (lopage = 0 \<or> user_high cfg \<ge> lopage + npages) then None
      else if \<not> PAGE_ALIGNED cfg off then None
      else case
        (if lopage = 0 then
           (case vmmap_find_range cfg (Some vmap) npages dir of
              None \<Rightarrow> None
            | Some start_addr \<Rightarrow> Some (if start_addr < 0 then Inl ENOMEM else Inr (word_of_int start_addr), vmap, m))
         else
           (case vmmap_is_range_empty cfg vmap lopage npages of
              None \<Rightarrow> None
            | Some e \<Rightarrow>
                if e = 0 then
                  (case vmmap_remove cfg ops vmap lopage npages m of
                     None \<Rightarrow> None
                   | Some (_, vmap, m) \<Rightarrow> Some (Inr lopage, vmap, m))
                else Some (Inr lopage, vmap, m)))
        of None \<Rightarrow> None
      | Some (Inl e, vmap, m) \<Rightarrow> Some (Inl e, vmap, m)
      | Some (Inr start, vmap, m) \<Rightarrow>
          (case vmarea_alloc ops m of (ok, m) \<Rightarrow>
           if \<not> ok then Some (Inl ENOMEM, vmap, m)
           else case map_object cfg ops file start npages prot flags off m of (vmarea, m) \<Rightarrow>
             (case vmmap_insert cfg mapp vmap vmarea of
                None \<Rightarrow> None
              | Some vmap \<Rightarrow> Some (Inr vmarea, vmap, m))))"

definition vmmap_read ::
  "vmm_config \<Rightarrow> ('o, 'v, 'm) mm_ops \<Rightarrow> 'o vmmap option \<Rightarrow> 32 word \<Rightarrow> nat \<Rightarrow> 'm \<Rightarrow> (errno + 8 word list) \<times> 'm" where
  "vmmap_read cfg ops vmap vaddr nbytes m =
     (case vmap of
        None \<Rightarrow> (Inr [], m)
      | Some mp \<Rightarrow>
          if vmm_list mp = [] then (Inl EFAULT, m)
          else if nbytes = 0 then (Inr [], m)
          else let v_page = ADDR_TO_PN cfg vaddr; page_off = PAGE_OFFSET cfg vaddr in
            (case vmmap_lookup mp v_page of
               None \<Rightarrow> (Inl EFAULT, m)
             | Some vmarea \<Rightarrow>
                 (case pframe_lookup ops (vma_obj vmarea) (v_page - vma_start vmarea + vma_off vmarea) False m of
                    (frame, m) \<Rightarrow>
                      if frame = NULL then (Inl EFAULT, m)
                      else (Inr (get_bytes ops frame page_off nbytes m), m))))"

definition vmmap_write ::
  "vmm_config \<Rightarrow> ('o, 'v, 'm) mm_ops \<Rightarrow> 'o vmmap option \<Rightarrow> 32 word \<Rightarrow> 8 word list \<Rightarrow> 'm \<Rightarrow> (errno + unit) \<times> 'm" where
  "vmmap_write cfg ops vmap vaddr buf m =
     (case vmap of
        None \<Rightarrow> (Inr (), m)
      | Some mp \<Rightarrow>
          if vmm_list mp = [] then (Inl EFAULT, m)
          else if buf = [] then (Inr (), m)
          else let v_page = ADDR_TO_PN cfg vaddr; page_off = PAGE_OFFSET cfg vaddr in
            (case vmmap_lookup mp v_page of
               None \<Rightarrow> (Inl EFAULT, m)
             | Some vmarea \<Rightarrow>
                 (case pframe_lookup ops (vma_obj vmarea) (v_page - vma_start vmarea + vma_off vmarea) True m of
                    (frame, m) \<Rightarrow>
                      if frame = NULL then (Inl EFAULT, m)
                      else (Inr (), pframe_dirty ops frame (put_bytes ops frame page_off buf m)))))"

section \<open>The abstract address space\<close>

text \<open>
  What a page frame number means: the object that backs it, the page of that object, and the
  protection and flags.
\<close>

definition view :: "'o vmarea \<Rightarrow> 32 word \<Rightarrow> 'o \<times> 32 word \<times> 32 word \<times> 32 word" where
  "view v vfn = (vma_obj v, vfn - vma_start v + vma_off v, vma_prot v, vma_flags v)"

definition page_of :: "'o vmarea list \<Rightarrow> 32 word \<Rightarrow> ('o \<times> 32 word \<times> 32 word \<times> 32 word) option" where
  "page_of vs vfn = map_option (\<lambda>v. view v vfn) (lookup_area vs vfn)"

definition area_ok :: "vmm_config \<Rightarrow> 'o vmarea \<Rightarrow> bool" where
  "area_ok cfg v \<longleftrightarrow> user_low cfg \<le> vma_start v \<and> vma_start v < vma_end v \<and> vma_end v \<le> user_high cfg"

definition wf_areas :: "vmm_config \<Rightarrow> 'o vmarea list \<Rightarrow> bool" where
  "wf_areas cfg vs \<longleftrightarrow> list_all (area_ok cfg) vs \<and> sorted_wrt (\<lambda>a b. vma_end a \<le> vma_start b) vs"

lemma page_of_simps [simp]:
  "page_of [] vfn = None"
  "page_of (v # vs) vfn = (if vma_start v \<le> vfn \<and> vfn < vma_end v then Some (view v vfn) else page_of vs vfn)"
  by (simp_all add: page_of_def)

lemma wf_areas_simps [simp]:
  "wf_areas cfg []"
  "wf_areas cfg (v # vs) \<longleftrightarrow> area_ok cfg v \<and> (\<forall>b \<in> set vs. vma_end v \<le> vma_start b) \<and> wf_areas cfg vs"
  by (auto simp: wf_areas_def)

lemma wf_areas_ok: "wf_areas cfg vs \<Longrightarrow> v \<in> set vs \<Longrightarrow> area_ok cfg v"
  by (auto simp: wf_areas_def list_all_iff)

lemma page_of_below: "wf_areas cfg vs \<Longrightarrow> \<forall>b \<in> set vs. x \<le> vma_start b \<Longrightarrow> vfn < x \<Longrightarrow> page_of vs vfn = None"
  by (induction vs) (auto simp: area_ok_def)

lemma page_of_None: "page_of vs vfn = None \<longleftrightarrow> (\<forall>v \<in> set vs. \<not> (vma_start v \<le> vfn \<and> vfn < vma_end v))"
  by (induction vs) auto

lemma lookup_area_None: "lookup_area vs vfn = None \<longleftrightarrow> page_of vs vfn = None"
  by (simp add: page_of_def)

text \<open>The check of the range in \<open>vmmap_is_range_empty\<close> rules out wrap-around.\<close>

lemma no_wrap:
  fixes s n :: "32 word"
  assumes "s < s + n"
  shows "unat (s + n) = unat s + unat n"
  using assms unsigned_less [of s, where ?'a = nat] unsigned_less [of n, where ?'a = nat]
  by (auto simp: word_less_nat_alt unat_plus_if' split: if_splits)

lemma range_empty_iff:
  assumes "\<forall>v \<in> set vs. vma_start v < vma_end v" "s < s + n"
  shows "list_all (\<lambda>v. vma_start v \<ge> s + n \<or> vma_end v \<le> s) vs \<longleftrightarrow>
    (\<forall>vfn. s \<le> vfn \<and> vfn < s + n \<longrightarrow> page_of vs vfn = None)"
proof
  assume l: "list_all (\<lambda>v. vma_start v \<ge> s + n \<or> vma_end v \<le> s) vs"
  then show "\<forall>vfn. s \<le> vfn \<and> vfn < s + n \<longrightarrow> page_of vs vfn = None"
    unfolding page_of_None list_all_iff by (meson dual_order.strict_trans1 leD le_less_trans)
next
  assume e: "\<forall>vfn. s \<le> vfn \<and> vfn < s + n \<longrightarrow> page_of vs vfn = None"
  show "list_all (\<lambda>v. vma_start v \<ge> s + n \<or> vma_end v \<le> s) vs"
    unfolding list_all_iff
  proof
    fix v assume v: "v \<in> set vs"
    show "vma_start v \<ge> s + n \<or> vma_end v \<le> s"
    proof (rule ccontr)
      assume c: "\<not> (vma_start v \<ge> s + n \<or> vma_end v \<le> s)"
      let ?x = "max s (vma_start v)"
      have "s \<le> ?x" "?x < s + n" "vma_start v \<le> ?x" "?x < vma_end v"
        using c assms v by (auto simp: max_def)
      then show False using e v unfolding page_of_None by blast
    qed
  qed
qed

section \<open>Insertion, removal and the address space\<close>

lemma insert_area_set [simp]: "set (insert_area a vs) = insert a (set vs)"
  by (induction a vs rule: insert_area.induct) auto

lemma insert_area_wf:
  assumes "wf_areas cfg vs" "area_ok cfg a" "\<forall>v \<in> set vs. vma_end a \<le> vma_start v \<or> vma_end v \<le> vma_start a"
  shows "wf_areas cfg (insert_area a vs)"
  using assms
proof (induction a vs rule: insert_area.induct)
  case (2 a f vs)
  then show ?case by (fastforce simp: area_ok_def)
qed simp

lemma insert_area_page:
  assumes "wf_areas cfg vs" "area_ok cfg a" "\<forall>v \<in> set vs. vma_end a \<le> vma_start v \<or> vma_end v \<le> vma_start a"
  shows "page_of (insert_area a vs) vfn =
    (if vma_start a \<le> vfn \<and> vfn < vma_end a then Some (view a vfn) else page_of vs vfn)"
  using assms
proof (induction a vs rule: insert_area.induct)
  case (2 a f vs)
  then show ?case by (fastforce simp: area_ok_def)
qed simp

definition alloc_total :: "('o, 'v, 'm) mm_ops \<Rightarrow> bool" where
  "alloc_total ops \<longleftrightarrow> (\<forall>m. fst (slab_alloc ops m) \<noteq> NULL)"

lemma remove_areas_starts:
  "\<forall>v \<in> set vs. x \<le> vma_start v \<Longrightarrow> \<forall>v \<in> set (fst (remove_areas ops lo n vs m)). x \<le> vma_start v"
proof (induction ops lo n vs m rule: remove_areas.induct)
  case (2 ops lo n v vs m)
  then show ?case
    by (auto simp: Let_def case_prod_beta split: if_splits)
qed simp

lemma remove_areas_page:
  assumes "wf_areas cfg vs" "lo < lo + n" "alloc_total ops"
  shows "wf_areas cfg (fst (remove_areas ops lo n vs m)) \<and>
    (\<forall>vfn. page_of (fst (remove_areas ops lo n vs m)) vfn =
       (if lo \<le> vfn \<and> vfn < lo + n then None else page_of vs vfn))"
  using assms(1)
proof (induction vs arbitrary: m)
  case (Cons v vs)
  let ?l = "lo + n"
  have v: "area_ok cfg v" "\<forall>b \<in> set vs. vma_end v \<le> vma_start b" "wf_areas cfg vs" using Cons.prems by auto
  consider (out) "vma_start v \<ge> ?l \<or> vma_end v \<le> lo"
    | (inside) "vma_start v < lo" "vma_end v > ?l"
    | (tail) "vma_start v < lo" "vma_end v \<le> ?l" "lo < vma_end v"
    | (front) "vma_start v \<ge> lo" "vma_end v > ?l" "vma_start v < ?l"
    | (whole) "vma_start v \<ge> lo" "vma_end v \<le> ?l"
    by fastforce
  then show ?case
  proof cases
    case out
    have r: "fst (remove_areas ops lo n (v # vs) m) = v # fst (remove_areas ops lo n vs m)"
      using out by (simp add: Let_def case_prod_beta)
    note IH = Cons.IH [OF v(3), of m]
    show ?thesis
      unfolding r using IH v remove_areas_starts [OF v(2), of ops lo n m] out by auto
  next
    case inside
    have n: "\<not> (vma_start v \<ge> ?l \<or> vma_end v \<le> lo)" using inside assms(2) by auto
    obtain s t where r: "fst (remove_areas ops lo n (v # vs) m) = s # t # vs"
      "vma_start s = vma_start v" "vma_end s = lo" "\<And>x. view s x = view v x"
      "vma_start t = ?l" "vma_end t = vma_end v" "\<And>x. view t x = view v x"
      using assms(3) inside n
      by (auto simp: Let_def case_prod_beta vmarea_alloc_def alloc_total_def view_def algebra_simps)
    have below: "page_of vs x = None" if "x < ?l" for x
      using page_of_below [OF v(3,2)] that inside(2) by (meson less_trans)
    show ?thesis
      unfolding r(1) using r(2-7) v inside assms(2) below by (auto simp: area_ok_def)
  next
    case tail
    have r: "fst (remove_areas ops lo n (v # vs) m) = v\<lparr>vma_end := lo\<rparr> # fst (remove_areas ops lo n vs m)"
      using tail assms(2) by (auto simp add: Let_def case_prod_beta)
    note IH = Cons.IH [OF v(3), of m]
    have "\<forall>b \<in> set vs. lo \<le> vma_start b" using v(2) tail(3) by fastforce
    then show ?thesis
      unfolding r using IH v remove_areas_starts [of vs lo ops lo n m] tail by (auto simp: area_ok_def view_def)
  next
    case front
    have r: "fst (remove_areas ops lo n (v # vs) m) =
        v\<lparr>vma_off := vma_off v + ?l - vma_start v, vma_start := ?l\<rparr> # fst (remove_areas ops lo n vs m)"
      using front assms(2) by (auto simp add: Let_def case_prod_beta)
    note IH = Cons.IH [OF v(3), of m]
    show ?thesis
      unfolding r using IH v remove_areas_starts [OF v(2), of ops lo n m] front
      by (auto simp: area_ok_def view_def algebra_simps)
  next
    case whole
    have r: "fst (remove_areas ops lo n (v # vs) m) =
        fst (remove_areas ops lo n vs (slab_free ops (put_obj ops (vma_obj v) m)))"
      using whole assms(2) v(1) by (auto simp add: Let_def case_prod_beta area_ok_def)
    note IH = Cons.IH [OF v(3), of "slab_free ops (put_obj ops (vma_obj v) m)"]
    show ?thesis unfolding r using IH whole v by auto
  qed
qed simp

section \<open>The search for a free range\<close>

definition fits :: "vmm_config \<Rightarrow> 'o vmarea list \<Rightarrow> 32 word \<Rightarrow> 32 word \<Rightarrow> bool" where
  "fits cfg vs n s \<longleftrightarrow> user_low cfg \<le> s \<and> s < s + n \<and> s + n \<le> user_high cfg \<and>
     (\<forall>v \<in> set vs. vma_start v \<ge> s + n \<or> vma_end v \<le> s)"

lemma range_empty_fits:
  "vmmap_is_range_empty cfg vmap s n =
     (if user_low cfg \<le> s \<and> s < s + n \<and> s + n \<le> user_high cfg
      then Some (if fits cfg (vmm_list vmap) n s then 1 else 0) else None)"
  by (auto simp: vmmap_is_range_empty_def fits_def Let_def list_all_iff)

lemma word_sub_facts:
  fixes t n d :: "32 word"
  shows "t < t + n \<Longrightarrow> t + n \<le> d \<Longrightarrow> n \<le> d \<Longrightarrow> t \<le> d - n"
    and "0 < n \<Longrightarrow> n \<le> d \<Longrightarrow> d - n < d"
proof -
  show "t < t + n \<Longrightarrow> t + n \<le> d \<Longrightarrow> n \<le> d \<Longrightarrow> t \<le> d - n"
    using no_wrap [of t n] by (simp add: word_le_nat_alt unat_sub)
  show "0 < n \<Longrightarrow> n \<le> d \<Longrightarrow> d - n < d"
    by (simp add: word_less_nat_alt unat_sub word_le_nat_alt)
qed

text \<open>
  If a range fits below an area and above everything before that area, then so does the range
  that ends where the area begins.
\<close>

lemma fits_shift:
  assumes w: "wf_areas cfg (us @ d # ds)" and t: "fits cfg (us @ d # ds) n t" "t + n \<le> vma_start d"
    and n: "n \<le> vma_start d" and us: "\<forall>u \<in> set us. vma_end u \<le> t"
  shows "fits cfg (us @ d # ds) n (vma_start d - n)"
proof -
  have lt: "t \<le> vma_start d - n" using word_sub_facts(1) t n by (auto simp: fits_def)
  have n0: "0 < n" using t(1) by (auto simp: fits_def word_gt_0)
  have d: "area_ok cfg d" "\<forall>v \<in> set ds. vma_end d \<le> vma_start v"
    using w by (induction us) auto
  have "user_low cfg \<le> vma_start d - n" using lt t(1) by (auto simp: fits_def)
  moreover have "vma_start d - n < vma_start d" using word_sub_facts(2) n0 n by blast
  moreover have "vma_start d \<le> user_high cfg" using d(1) by (auto simp: area_ok_def)
  moreover have "vma_start v \<ge> vma_start d \<or> vma_end v \<le> vma_start d - n" if "v \<in> set (us @ d # ds)" for v
    using that us d lt by (fastforce simp: area_ok_def)
  ultimately show ?thesis by (auto simp: fits_def)
qed

lemma find_range_loop_highest:
  assumes w: "wf_areas cfg (vmm_list vmap)" and n: "0 < n" "\<forall>v \<in> set (vmm_list vmap). n \<le> vma_start v"
    and h: "user_high cfg < user_high cfg + n"
  shows "vmm_list vmap = rev us @ ds \<Longrightarrow> vmm_list vmap \<noteq> [] \<Longrightarrow>
    (\<And>t. fits cfg (vmm_list vmap) n t \<Longrightarrow> ds \<noteq> [] \<Longrightarrow> t + n \<le> vma_start (hd ds)) \<Longrightarrow>
    (ds \<noteq> [] \<Longrightarrow> \<not> fits cfg (vmm_list vmap) n (vma_start (hd ds) - n)) \<Longrightarrow>
    (\<exists>s. find_range_loop cfg vmap n (ds = []) us = Some (sint s) \<and> fits cfg (vmm_list vmap) n s \<and>
       (\<forall>t. fits cfg (vmm_list vmap) n t \<longrightarrow> t \<le> s)) \<or>
    find_range_loop cfg vmap n (ds = []) us = Some (- 1) \<and> (\<nexists>t. fits cfg (vmm_list vmap) n t)"
proof (induction us arbitrary: ds)
  case Nil
  then obtain d es where ds: "ds = d # es" by (cases ds) auto
  have "\<not> fits cfg (vmm_list vmap) n t" for t
    using fits_shift [of cfg "[]" d es n t] Nil ds w n(2) by auto
  then show ?case using Nil ds by auto
next
  case (Cons v us)
  let ?vs = "vmm_list vmap"
  have v: "area_ok cfg v" "n \<le> vma_start v" using w n(2) Cons.prems(1) by (auto intro: wf_areas_ok)
  have us: "\<forall>u \<in> set us. vma_end u \<le> vma_start v"
    using w unfolding Cons.prems(1) wf_areas_def by (auto simp: sorted_wrt_append)
  have above: "t + n \<le> vma_start v" if t: "fits cfg ?vs n t"
    "\<not> (ds = [] \<and> user_high cfg \<ge> vma_end v + n)" for t
  proof (rule ccontr)
    assume "\<not> t + n \<le> vma_start v"
    then have e: "vma_end v \<le> t" using t(1) Cons.prems(1) by (auto simp: fits_def)
    show False
    proof (cases ds)
      case Nil
      have "vma_end v + n \<le> t + n" "t + n \<le> user_high cfg"
        using e t(1) no_wrap [of t n] no_wrap [OF h] v(1)
        by (auto simp: fits_def word_le_nat_alt area_ok_def unat_plus_if')
      then show False using t(2) Nil by auto
    next
      case (Cons d es)
      have "fits cfg ((rev us @ [v]) @ d # es) n (vma_start d - n)"
        by (rule fits_shift [where t = t])
          (use w t Cons Cons.prems n e us v in \<open>auto simp: area_ok_def\<close>)
      then show False using Cons.prems(1,4) Cons by simp
    qed
  qed
  consider (gap) "ds = []" "user_high cfg \<ge> vma_end v + n"
    | (fit) "\<not> (ds = [] \<and> user_high cfg \<ge> vma_end v + n)" "fits cfg ?vs n (vma_start v - n)"
    | (no) "\<not> (ds = [] \<and> user_high cfg \<ge> vma_end v + n)" "\<not> fits cfg ?vs n (vma_start v - n)"
    by blast
  then show ?case
  proof cases
    case gap
    have e: "unat (vma_end v + n) = unat (vma_end v) + unat n"
      using no_wrap [OF h] v(1) unsigned_less [of "user_high cfg + n", where ?'a = nat]
      by (auto simp: word_le_nat_alt area_ok_def unat_plus_if')
    have nh: "n \<le> user_high cfg" and ve: "vma_end v \<le> user_high cfg - n"
      using gap(2) e by (auto simp: word_le_nat_alt unat_sub)
    have "\<forall>u \<in> set ?vs. vma_end u \<le> vma_end v" using Cons.prems(1) gap(1) us v(1) by (fastforce simp: area_ok_def)
    then have "fits cfg ?vs n (user_high cfg - n)"
      using ve v(1) word_sub_facts(2) [OF n(1) nh] by (fastforce simp: fits_def area_ok_def)
    moreover have "t \<le> user_high cfg - n" if "fits cfg ?vs n t" for t
      using word_sub_facts(1) [of t n "user_high cfg"] that nh by (auto simp: fits_def)
    ultimately show ?thesis using gap by auto
  next
    case fit
    have "find_range_loop cfg vmap n (ds = []) (v # us) = Some (sint (vma_start v - n))"
      using fit range_empty_fits [of cfg vmap "vma_start v - n" n] by (auto simp: fits_def)
    moreover have "t \<le> vma_start v - n" if "fits cfg ?vs n t" for t
      using word_sub_facts(1) [of t n "vma_start v"] that v(2) above [OF that fit(1)] by (auto simp: fits_def)
    ultimately show ?thesis using fit(2) by blast
  next
    case no
    have l: "vma_start v - n < vma_start v" using word_sub_facts(2) [OF n(1) v(2)] .
    then have "find_range_loop cfg vmap n (ds = []) (v # us) = find_range_loop cfg vmap n False us"
      using no range_empty_fits [of cfg vmap "vma_start v - n" n] v(1) by (auto simp: area_ok_def)
    then show ?thesis
      using Cons.IH [of "v # ds"] Cons.prems(1,2) no above by auto
  qed
qed

lemma find_range_highest:
  assumes "wf_areas cfg (vmm_list vmap)" "vmm_list vmap \<noteq> []" "0 < n" "\<forall>v \<in> set (vmm_list vmap). n \<le> vma_start v"
    "user_high cfg < user_high cfg + n"
  shows "(\<exists>s. vmmap_find_range cfg (Some vmap) n (VMMAP_DIR_HILO cfg) = Some (sint s) \<and> fits cfg (vmm_list vmap) n s \<and>
       (\<forall>t. fits cfg (vmm_list vmap) n t \<longrightarrow> t \<le> s)) \<or>
    vmmap_find_range cfg (Some vmap) n (VMMAP_DIR_HILO cfg) = Some (- 1) \<and> (\<nexists>t. fits cfg (vmm_list vmap) n t)"
  using find_range_loop_highest [OF assms(1,3,4,5), of "rev (vmm_list vmap)" "[]"] assms(2)
  by (simp add: vmmap_find_range_def)

section \<open>The interface of an address space\<close>

text \<open>
  What the system calls rely on: unmapping clears a range and nothing else, and putting an area
  into a free range maps exactly that range.
\<close>

locale address_space =
  fixes inv :: "'s \<Rightarrow> bool" and page :: "'s \<Rightarrow> 32 word \<Rightarrow> 'p option"
    and valid :: "32 word \<Rightarrow> 32 word \<Rightarrow> bool"
    and unmap :: "'s \<Rightarrow> 32 word \<Rightarrow> 32 word \<Rightarrow> 's option"
    and put :: "'s \<Rightarrow> 'a \<Rightarrow> 's option"
    and area :: "32 word \<Rightarrow> 32 word \<Rightarrow> 'a \<Rightarrow> bool" and content :: "'a \<Rightarrow> 32 word \<Rightarrow> 'p"
  assumes unmap_law: "inv s \<Longrightarrow> valid lo n \<Longrightarrow>
      \<exists>s'. unmap s lo n = Some s' \<and> inv s' \<and> page s' = (\<lambda>x. if lo \<le> x \<and> x < lo + n then None else page s x)"
    and put_law: "inv s \<Longrightarrow> valid lo n \<Longrightarrow> area lo n a \<Longrightarrow> (\<And>x. lo \<le> x \<and> x < lo + n \<Longrightarrow> page s x = None) \<Longrightarrow>
      \<exists>s'. put s a = Some s' \<and> inv s' \<and> page s' = (\<lambda>x. if lo \<le> x \<and> x < lo + n then Some (content a x) else page s x)"
begin

lemma replace:
  assumes "inv s" "valid lo n" "area lo n a"
  shows "\<exists>s1 s2. unmap s lo n = Some s1 \<and> put s1 a = Some s2 \<and> inv s2 \<and>
    page s2 = (\<lambda>x. if lo \<le> x \<and> x < lo + n then Some (content a x) else page s x)"
proof -
  obtain s1 where s1: "unmap s lo n = Some s1" "inv s1" "page s1 = (\<lambda>x. if lo \<le> x \<and> x < lo + n then None else page s x)"
    using unmap_law [OF assms(1,2)] by blast
  then obtain s2 where "put s1 a = Some s2" "inv s2"
    "page s2 = (\<lambda>x. if lo \<le> x \<and> x < lo + n then Some (content a x) else page s1 x)"
    using put_law [OF s1(2) assms(2,3)] by auto
  with s1 show ?thesis by auto
qed

lemma unmap_idem:
  assumes "inv s" "valid lo n"
  shows "\<exists>s1 s2. unmap s lo n = Some s1 \<and> unmap s1 lo n = Some s2 \<and> inv s2 \<and> page s2 = page s1"
  using unmap_law [OF assms] unmap_law [OF _ assms(2)] by fastforce

end

definition valid_range :: "vmm_config \<Rightarrow> 32 word \<Rightarrow> 32 word \<Rightarrow> bool" where
  "valid_range cfg lo n \<longleftrightarrow> user_low cfg \<le> lo \<and> lo < lo + n \<and> lo + n \<le> user_high cfg"

definition remove_range ::
  "vmm_config \<Rightarrow> ('o, 'v, 'm) mm_ops \<Rightarrow> 'm \<Rightarrow> 'o vmmap \<Rightarrow> 32 word \<Rightarrow> 32 word \<Rightarrow> 'o vmmap option" where
  "remove_range cfg ops m vmap lo n = map_option (\<lambda>(r, vmap, m). vmap) (vmmap_remove cfg ops vmap lo n m)"

definition new_area :: "32 word \<Rightarrow> 32 word \<Rightarrow> 'o vmarea \<Rightarrow> bool" where
  "new_area lo n a \<longleftrightarrow> vma_start a = lo \<and> vma_end a = lo + n \<and> vma_vmmap a = NULL"

lemma remove_page:
  assumes w: "wf_areas cfg (vmm_list vmap)" and v: "valid_range cfg lo n" and a: "alloc_total ops"
  shows "\<exists>vmap' m'. vmmap_remove cfg ops vmap lo n m = Some (0, vmap', m') \<and> wf_areas cfg (vmm_list vmap') \<and>
    page_of (vmm_list vmap') = (\<lambda>x. if lo \<le> x \<and> x < lo + n then None else page_of (vmm_list vmap) x)"
proof (cases "fits cfg (vmm_list vmap) n lo")
  case True
  then have "page_of (vmm_list vmap) x = None" if "lo \<le> x \<and> x < lo + n" for x
    using that unfolding page_of_None fits_def by (meson leD le_less_trans less_le_trans)
  with True w v show ?thesis by (auto simp: vmmap_remove_def range_empty_fits valid_range_def)
next
  case False
  have lo: "lo < lo + n" using v by (simp add: valid_range_def)
  from remove_areas_page [OF w lo a, of m] False v show ?thesis
    by (auto simp: vmmap_remove_def range_empty_fits valid_range_def case_prod_beta)
qed

lemma insert_page:
  assumes w: "wf_areas cfg (vmm_list vmap)" and v: "valid_range cfg lo n" and a: "new_area lo n a" and p: "mapp \<noteq> NULL"
    and e: "\<And>x. lo \<le> x \<and> x < lo + n \<Longrightarrow> page_of (vmm_list vmap) x = None"
  shows "\<exists>vmap'. vmmap_insert cfg mapp vmap a = Some vmap' \<and> wf_areas cfg (vmm_list vmap') \<and>
    page_of (vmm_list vmap') = (\<lambda>x. if lo \<le> x \<and> x < lo + n then Some (view a x) else page_of (vmm_list vmap) x)"
proof -
  let ?a = "a\<lparr>vma_vmmap := mapp\<rparr>"
  have "\<forall>v \<in> set (vmm_list vmap). vma_start v < vma_end v"
    using w wf_areas_ok by (fastforce simp: area_ok_def)
  then have "list_all (\<lambda>v. lo + n \<le> vma_start v \<or> vma_end v \<le> lo) (vmm_list vmap)"
    using range_empty_iff e v by (fastforce simp: valid_range_def)
  then have d: "\<forall>v \<in> set (vmm_list vmap). vma_end ?a \<le> vma_start v \<or> vma_end v \<le> vma_start ?a"
    using a by (simp add: list_all_iff new_area_def)
  have ok: "area_ok cfg ?a" using a v by (simp add: area_ok_def valid_range_def new_area_def)
  have "view ?a = view a" by (auto simp: view_def)
  then show ?thesis
    using insert_area_wf [OF w ok d] insert_area_page [OF w ok d] a v p
    by (auto simp: vmmap_insert_def new_area_def valid_range_def)
qed

interpretation vm: address_space
  "\<lambda>vmap. wf_areas cfg (vmm_list vmap) \<and> alloc_total ops \<and> mapp \<noteq> NULL" "\<lambda>vmap. page_of (vmm_list vmap)"
  "valid_range cfg" "remove_range cfg ops m" "vmmap_insert cfg mapp" new_area view
  for cfg ops m mapp
proof
  fix s :: "'a vmmap" and lo n :: "32 word" and a :: "'a vmarea"
  assume i: "wf_areas cfg (vmm_list s) \<and> alloc_total ops \<and> mapp \<noteq> NULL" and v: "valid_range cfg lo n"
  show "\<exists>s'. remove_range cfg ops m s lo n = Some s' \<and> (wf_areas cfg (vmm_list s') \<and> alloc_total ops \<and> mapp \<noteq> NULL) \<and>
      page_of (vmm_list s') = (\<lambda>x. if lo \<le> x \<and> x < lo + n then None else page_of (vmm_list s) x)"
    using remove_page [of cfg s lo n ops m] i v by (auto simp: remove_range_def)
  show "\<exists>s'. vmmap_insert cfg mapp s a = Some s' \<and> (wf_areas cfg (vmm_list s') \<and> alloc_total ops \<and> mapp \<noteq> NULL) \<and>
      page_of (vmm_list s') = (\<lambda>x. if lo \<le> x \<and> x < lo + n then Some (view a x) else page_of (vmm_list s) x)"
    if "new_area lo n a" "\<And>x. lo \<le> x \<and> x < lo + n \<Longrightarrow> page_of (vmm_list s) x = None"
    using insert_page [of cfg s lo n a mapp] i v that by blast
qed

section \<open>Cloning\<close>

lemma insert_area_last: "\<forall>v \<in> set vs. vma_start v \<le> vma_start a \<Longrightarrow> insert_area a vs = vs @ [a]"
  by (induction a vs rule: insert_area.induct) auto

definition clone_area :: "addr \<Rightarrow> 'o vmarea \<Rightarrow> 'o vmarea" where
  "clone_area mapp v = v\<lparr>vma_olink := None, vma_vmmap := mapp\<rparr>"

lemma clone_areas_ok:
  assumes "alloc_total ops" "mapp \<noteq> NULL"
  shows "wf_areas cfg (us @ vs) \<Longrightarrow> vmm_list vmap = map (clone_area mapp) us \<Longrightarrow>
    clone_areas cfg ops mapp vs vmap m =
      Some (Some (vmap\<lparr>vmm_list := map (clone_area mapp) (us @ vs)\<rparr>),
            fold (\<lambda>v m. ref_obj ops (vma_obj v) (snd (slab_alloc ops m))) vs m)"
proof (induction vs arbitrary: us vmap m)
  case (Cons v vs)
  have "wf_areas cfg ((us @ [v]) @ vs)" using Cons.prems(1) by simp
  note IH = Cons.IH [OF this]
  have v: "area_ok cfg v" using Cons.prems(1) by (auto intro: wf_areas_ok)
  have ok: "area_ok cfg u" if "u \<in> set us" for u using Cons.prems(1) that by (auto intro: wf_areas_ok)
  have "sorted_wrt (\<lambda>a b. vma_end a \<le> vma_start b) (us @ v # vs)"
    using Cons.prems(1) by (simp add: wf_areas_def)
  then have "vma_start u \<le> vma_start v" if "u \<in> set us" for u
    using that ok [OF that] by (fastforce simp: area_ok_def sorted_wrt_append)
  then have "\<forall>u \<in> set (vmm_list vmap). vma_start u \<le> vma_start (clone_area mapp v)"
    using Cons.prems(2) by (auto simp: clone_area_def)
  from insert_area_last [OF this, unfolded clone_area_def [of mapp v]]
  have "vmmap_insert cfg mapp vmap (v\<lparr>vma_vmmap := NULL, vma_olink := None\<rparr>) =
      Some (vmap\<lparr>vmm_list := map (clone_area mapp) (us @ [v])\<rparr>)"
    using v assms(2) Cons.prems(2) by (simp add: vmmap_insert_def area_ok_def clone_area_def [of mapp v])
  then show ?case
    using assms(1) IH by (simp add: case_prod_beta alloc_total_def Let_def)
qed simp

lemma clone_area_page: "page_of (map (clone_area mapp) vs) = page_of vs"
proof -
  have "page_of (map (clone_area mapp) vs) x = page_of vs x" for x
    by (induction vs) (auto simp: clone_area_def view_def)
  then show ?thesis ..
qed

lemma clone_area_wf: "wf_areas cfg (map (clone_area mapp) vs) = wf_areas cfg vs"
  by (induction vs) (auto simp: clone_area_def area_ok_def)

section \<open>Properties of the address space\<close>

text \<open>A concrete configuration: the user half of a 32-bit address space with pages of 4096 bytes.\<close>

definition demo_cfg :: vmm_config where
  "demo_cfg = \<lparr>user_low = 0x400, user_high = 0xC0000, page_shift = 12, MAP_SHARED = 1, MAP_PRIVATE = 2, VMMAP_DIR_HILO = 1\<rparr>"

definition demo_ops :: "(nat, nat, nat) mm_ops" where
  "demo_ops = \<lparr>slab_alloc = (\<lambda>m. (Suc m, Suc m)), slab_free = (\<lambda>m. m), ref_obj = (\<lambda>p m. m), put_obj = (\<lambda>p m. m),
     bottom_obj = (\<lambda>p m. p), anon_create = (\<lambda>m. (m, m)), shadow_create = (\<lambda>m. (m, m)),
     set_shadowed = (\<lambda>s p q m. m), vn_mmap = (\<lambda>v m. (v, m)), pframe_lookup = (\<lambda>p n w m. (1, m)),
     pframe_dirty = (\<lambda>f m. m), get_bytes = (\<lambda>f p n m. replicate n 7), put_bytes = (\<lambda>f p b m. m)\<rparr>"

definition demo_area :: "32 word \<Rightarrow> 32 word \<Rightarrow> nat vmarea" where
  "demo_area s e = \<lparr>vma_start = s, vma_end = e, vma_off = 0, vma_prot = 1, vma_flags = 1, vma_vmmap = 1, vma_obj = 5, vma_olink = None\<rparr>"

definition demo_map :: "nat vmmap" where
  "demo_map = \<lparr>vmm_list = [demo_area 0x500 0x510, demo_area 0x600 0x608], vmm_proc = 0\<rparr>"

lemma demo_map_wf: "wf_areas demo_cfg (vmm_list demo_map)"
  by (simp add: demo_map_def demo_area_def demo_cfg_def area_ok_def)

lemma demo_alloc: "alloc_total demo_ops"
  by (simp add: alloc_total_def demo_ops_def)

text \<open>
  C4.  \<open>vmmap_remove\<close> unmaps exactly the given range: it keeps the areas sorted, disjoint and
  inside the user address space, no page of the range is mapped afterwards, and every other
  page is backed by the same page of the same object as before, in all cases of how areas and
  the range overlap.
\<close>

theorem remove_unmaps_range:
  assumes "wf_areas cfg (vmm_list vmap)" "valid_range cfg lo n" "alloc_total ops"
  shows "\<exists>vmap' m'. vmmap_remove cfg ops vmap lo n m = Some (0, vmap', m') \<and> wf_areas cfg (vmm_list vmap') \<and>
    page_of (vmm_list vmap') = (\<lambda>x. if lo \<le> x \<and> x < lo + n then None else page_of (vmm_list vmap) x)"
  using assms by (rule remove_page)

theorem remove_unmaps_range_witness:
  "valid_range demo_cfg 0x504 0x100 \<and>
   (\<exists>vmap' m'. vmmap_remove demo_cfg demo_ops demo_map 0x504 0x100 0 = Some (0, vmap', m') \<and>
      page_of (vmm_list vmap') 0x600 = None \<and> page_of (vmm_list vmap') 0x604 = page_of (vmm_list demo_map) 0x604)"
proof -
  have v: "valid_range demo_cfg 0x504 0x100" by (simp add: valid_range_def demo_cfg_def)
  from remove_unmaps_range [OF demo_map_wf v demo_alloc, of 0] v show ?thesis by auto
qed

text \<open>
  \<open>vmmap_insert\<close> of an area into a free range keeps the areas sorted and disjoint, and a
  \<open>vmmap_lookup\<close> then finds the new area in its range and what it found before elsewhere.
\<close>

theorem insert_maps_range:
  assumes "wf_areas cfg (vmm_list vmap)" "valid_range cfg lo n" "new_area lo n a" "mapp \<noteq> NULL"
    and "\<And>x. lo \<le> x \<and> x < lo + n \<Longrightarrow> vmmap_lookup vmap x = None"
  shows "\<exists>vmap'. vmmap_insert cfg mapp vmap a = Some vmap' \<and> wf_areas cfg (vmm_list vmap') \<and>
    page_of (vmm_list vmap') = (\<lambda>x. if lo \<le> x \<and> x < lo + n then Some (view a x) else page_of (vmm_list vmap) x)"
  using assms insert_page [of cfg vmap lo n a mapp] by (simp add: vmmap_lookup_def lookup_area_None)

theorem insert_maps_range_witness:
  "\<exists>vmap'. vmmap_insert demo_cfg 1 demo_map ((demo_area 0x700 0x710)\<lparr>vma_vmmap := NULL\<rparr>) = Some vmap' \<and>
     page_of (vmm_list vmap') 0x705 = Some (5, 5, 1, 1)"
proof -
  let ?a = "(demo_area 0x700 0x710)\<lparr>vma_vmmap := NULL\<rparr>"
  have v: "valid_range demo_cfg 0x700 0x10" "new_area 0x700 0x10 ?a" "(1 :: nat) \<noteq> NULL"
    by (simp_all add: valid_range_def demo_cfg_def new_area_def demo_area_def)
  have e: "vmmap_lookup demo_map x = None" if "0x700 \<le> x \<and> x < 0x700 + 0x10" for x
    using that by (auto simp: vmmap_lookup_def demo_map_def demo_area_def word_le_nat_alt word_less_nat_alt)
  obtain vmap' where "vmmap_insert demo_cfg 1 demo_map ?a = Some vmap'"
    "page_of (vmm_list vmap') = (\<lambda>x. if 0x700 \<le> x \<and> x < 0x700 + 0x10 then Some (view ?a x) else page_of (vmm_list demo_map) x)"
    using insert_maps_range [OF demo_map_wf v e] by blast
  then show ?thesis by (auto simp: view_def demo_area_def)
qed







lemma map_object_area:
  "map_object cfg ops file lo n prot flags off m = (a, m') \<Longrightarrow> new_area lo n a \<and>
     vma_off a = ADDR_TO_PN cfg off \<and> vma_prot a = prot \<and> vma_flags a = flags"
  by (auto simp: map_object_def new_area_def Let_def split: prod.splits option.splits if_splits)

text \<open>
  C18.  \<open>vmmap_map\<close> at a given page replaces whatever was mapped in the range: afterwards the pages
  of the range are backed by the new area from the given offset on, and all others as before.
\<close>

theorem map_fixed_replaces:
  assumes w: "wf_areas cfg (vmm_list vmap)" and v: "valid_range cfg lo n" "lo \<noteq> 0" and a: "alloc_total ops" "mapp \<noteq> NULL"
    and f: "and (MAP_SHARED cfg) flags \<noteq> 0 \<or> and (MAP_PRIVATE cfg) flags \<noteq> 0" "PAGE_ALIGNED cfg off"
  shows "\<exists>obj olink vmap' m'. vmmap_map cfg ops mapp vmap file lo n prot flags off dir m =
      Some (Inr \<lparr>vma_start = lo, vma_end = lo + n, vma_off = ADDR_TO_PN cfg off, vma_prot = prot, vma_flags = flags,
        vma_vmmap = NULL, vma_obj = obj, vma_olink = olink\<rparr>, vmap', m') \<and> wf_areas cfg (vmm_list vmap') \<and>
    page_of (vmm_list vmap') = (\<lambda>x. if lo \<le> x \<and> x < lo + n then Some (obj, x - lo + ADDR_TO_PN cfg off, prot, flags)
      else page_of (vmm_list vmap) x)"
proof -
  obtain vmap1 m1 where r: "vmmap_remove cfg ops vmap lo n m = Some (0, vmap1, m1)" "wf_areas cfg (vmm_list vmap1)"
    "page_of (vmm_list vmap1) = (\<lambda>x. if lo \<le> x \<and> x < lo + n then None else page_of (vmm_list vmap) x)"
    using remove_page [OF w v(1) a(1)] by blast
  have n0: "0 < n" using v(1) by (auto simp: valid_range_def word_gt_0)
  obtain e where e: "vmmap_is_range_empty cfg vmap lo n = Some e" "e \<noteq> 0 \<Longrightarrow> vmap1 = vmap \<and> m1 = m"
    using r(1) by (auto simp: vmmap_remove_def split: option.splits if_splits)
  obtain m2 where al: "vmarea_alloc ops m1 = (True, m2)"
    using a(1) by (auto simp: vmarea_alloc_def alloc_total_def case_prod_beta)
  obtain na m3 where o: "map_object cfg ops file lo n prot flags off m2 = (na, m3)" by force
  note na = map_object_area [OF o]
  obtain vmap' where i: "vmmap_insert cfg mapp vmap1 na = Some vmap'" "wf_areas cfg (vmm_list vmap')"
    "page_of (vmm_list vmap') = (\<lambda>x. if lo \<le> x \<and> x < lo + n then Some (view na x) else page_of (vmm_list vmap1) x)"
    using insert_page [OF r(2) v(1) _ a(2)] na r(3) by auto
  have "vmmap_map cfg ops mapp vmap file lo n prot flags off dir m = Some (Inr na, vmap', m3)"
    using f v n0 e r(1) al o i(1) by (auto simp: vmmap_map_def valid_range_def)
  moreover have "na = \<lparr>vma_start = lo, vma_end = lo + n, vma_off = ADDR_TO_PN cfg off, vma_prot = prot, vma_flags = flags,
        vma_vmmap = NULL, vma_obj = vma_obj na, vma_olink = vma_olink na\<rparr>"
    using na by (cases na) (simp add: new_area_def)
  moreover have "page_of (vmm_list vmap') = (\<lambda>x. if lo \<le> x \<and> x < lo + n
      then Some (vma_obj na, x - lo + ADDR_TO_PN cfg off, prot, flags) else page_of (vmm_list vmap) x)"
    using i(3) r(3) na by (auto simp: view_def new_area_def)
  ultimately show ?thesis
    using i(2) by (intro exI [of _ "vma_obj na"] exI [of _ "vma_olink na"] exI [of _ vmap'] exI [of _ m3]) simp
qed

theorem map_fixed_replaces_witness:
  "\<exists>a vmap' m' obj. vmmap_map demo_cfg demo_ops 1 demo_map None 0x504 4 3 1 0x3000 1 0 = Some (Inr a, vmap', m') \<and>
     page_of (vmm_list vmap') 0x505 = Some (obj, 1 + ADDR_TO_PN demo_cfg 0x3000, 3, 1) \<and>
     page_of (vmm_list vmap') 0x50F = page_of (vmm_list demo_map) 0x50F"
proof -
  have p: "valid_range demo_cfg 0x504 4" "(0x504 :: 32 word) \<noteq> 0" "(1 :: nat) \<noteq> NULL"
    "and (MAP_SHARED demo_cfg) 1 \<noteq> 0 \<or> and (MAP_PRIVATE demo_cfg) 1 \<noteq> 0" "PAGE_ALIGNED demo_cfg 0x3000"
    by (simp_all add: valid_range_def demo_cfg_def PAGE_ALIGNED_def take_bit_eq_mod)
  show ?thesis
    using map_fixed_replaces [OF demo_map_wf p(1,2) demo_alloc p(3,4,5), of None 3 1 0] by fastforce
qed

end
