(* ===== verification/Pages.thy ===== *)
theory Pages
  imports OS_Prelude
begin

text \<open>
  The allocator of pages, \<^verbatim>\<open>src/kernel/mm/page.c\<close>: a buddy system.

  Memory is handed out in blocks of \<open>2 ^ order\<close> pages.  A group of pages has a list of free blocks for each order below
  \<open>PAGE_NSIZES\<close>, and for each order above 0 a bit for every pair of buddies that could be joined to a block of that order.
  The links of a free list are stored in the free pages themselves; here a free list is the list of the addresses, and \<open>list_remove\<close>, which
  is given only an address, takes it from the list it is on.

  Addresses are natural numbers below \<open>2 ^ 32\<close>.  A result \<^const>\<open>None\<close> is a failed \<open>KASSERT\<close>, a panic, an address that is
  not on a list, or, when a group is set up in a range that is too small for its own bookkeeping, a subtraction that wraps around.
  The constants of \<^verbatim>\<open>mm/page.h\<close> are a parameter.  When there is no block, the slab allocators are asked to give
  pages back; what that does is the parameter \<open>reclaim\<close>.
\<close>

section \<open>Data\<close>

record page_config =
  PAGE_SHIFT :: nat
  PAGE_NSIZES :: nat
  sizeof_pagegroup :: nat

record pagegroup =
  pg_freelist :: "nat \<Rightarrow> addr list"
  pg_map :: "nat \<Rightarrow> bool list"
  pg_baseaddr :: addr
  pg_endaddr :: addr

record page_state =
  pagegroup_list :: "pagegroup list"
  page_freecount :: int

definition PAGE_SIZE :: "page_config \<Rightarrow> nat" where
  "PAGE_SIZE cfg = 2 ^ PAGE_SHIFT cfg"

definition PAGE_ALIGN_DOWN :: "page_config \<Rightarrow> addr \<Rightarrow> addr" where
  "PAGE_ALIGN_DOWN cfg a = a div PAGE_SIZE cfg * PAGE_SIZE cfg"

text \<open>The size of a block in bytes, \<^verbatim>\<open>(1 << order) << PAGE_SHIFT\<close>.\<close>

definition block_size :: "page_config \<Rightarrow> nat \<Rightarrow> nat" where
  "block_size cfg order = 2 ^ order * 2 ^ PAGE_SHIFT cfg"

section \<open>Setting up\<close>

text \<open>The bytes of the bit map of an order: the bits for all pages, rounded up to whole bytes.\<close>

definition map_bytes :: "nat \<Rightarrow> nat \<Rightarrow> nat" where
  "map_bytes npages order = (let count = npages div 2 ^ order in if count = 0 then 0 else ((count - 1) div 8 * 8 + 8) div 8)"

fun maps_bytes :: "nat \<Rightarrow> nat list \<Rightarrow> nat" where
  "maps_bytes npages [] = 0"
| "maps_bytes npages (order # orders) = map_bytes npages order + maps_bytes npages orders"

text \<open>The pages that do not fill a block of the largest order are cut off at the end of the group, and are not put on a list.\<close>

fun cut_off :: "page_config \<Rightarrow> nat \<Rightarrow> nat list \<Rightarrow> addr \<Rightarrow> addr" where
  "cut_off cfg npages [] e = e"
| "cut_off cfg npages (order # orders) e = cut_off cfg npages orders (if odd (npages div 2 ^ order) then e - block_size cfg order else e)"

function fill_list :: "page_config \<Rightarrow> nat \<Rightarrow> addr \<Rightarrow> addr \<Rightarrow> addr list \<Rightarrow> addr list" where
  "fill_list cfg order current e l =
     (if current < e then fill_list cfg order (current + block_size cfg order) e (current # l) else l)"
  by pat_completeness auto
termination by (relation "measure (\<lambda>(cfg, order, current, e, l). e - current)") (auto simp: block_size_def intro!: diff_less_mono2)

declare fill_list.simps [simp del]

definition pagegroup_create :: "page_config \<Rightarrow> addr \<Rightarrow> addr \<Rightarrow> pagegroup option" where
  "pagegroup_create cfg start e =
     (let npages = (e - start) div 2 ^ PAGE_SHIFT cfg;
          top = PAGE_NSIZES cfg - 1;
          used = sizeof_pagegroup cfg + maps_bytes npages [1..<PAGE_NSIZES cfg];
          e1 = PAGE_ALIGN_DOWN cfg (e - used);
          npages1 = (e1 - start) div 2 ^ PAGE_SHIFT cfg;
          e2 = cut_off cfg npages1 [0..<top] e1
      in if \<not> (0 < PAGE_NSIZES cfg \<and> sizeof_pagegroup cfg \<le> PAGE_SIZE cfg) then None
         else if \<not> (start \<le> e \<and> used \<le> e \<and> start \<le> e1) then None
         else if (e2 - start) mod 2 ^ top \<noteq> 0 then None
         else Some \<lparr>pg_freelist = (\<lambda>_. [])(top := fill_list cfg top start e2 []), pg_map = (\<lambda>order. replicate (8 * map_bytes npages order) False), pg_baseaddr = start, pg_endaddr = e1\<rparr>)"

definition page_init :: page_state where
  "page_init = \<lparr>pagegroup_list = [], page_freecount = 0\<rparr>"

definition page_add_range :: "page_config \<Rightarrow> addr \<Rightarrow> addr \<Rightarrow> page_state \<Rightarrow> page_state option" where
  "page_add_range cfg start e s = do {
     grp \<leftarrow> pagegroup_create cfg (PAGE_ALIGN_DOWN cfg start) (PAGE_ALIGN_DOWN cfg e);
     Some (if pg_baseaddr grp < pg_endaddr grp
       then s\<lparr>pagegroup_list := pagegroup_list s @ [grp],
              page_freecount := page_freecount s + int ((pg_endaddr grp - pg_baseaddr grp) div 2 ^ PAGE_SHIFT cfg)\<rparr>
       else s)
   }"

section \<open>Free lists and bit maps\<close>

definition set_freelist :: "nat \<Rightarrow> addr list \<Rightarrow> pagegroup \<Rightarrow> pagegroup" where
  "set_freelist order l g = g\<lparr>pg_freelist := (pg_freelist g)(order := l)\<rparr>"

definition list_insert_head :: "nat \<Rightarrow> addr \<Rightarrow> pagegroup \<Rightarrow> pagegroup" where
  "list_insert_head order a g = set_freelist order (a # pg_freelist g order) g"

definition list_remove :: "page_config \<Rightarrow> addr \<Rightarrow> pagegroup \<Rightarrow> pagegroup option" where
  "list_remove cfg a g =
     (case filter (\<lambda>k. a \<in> set (pg_freelist g k)) [0..<PAGE_NSIZES cfg] of
        [] \<Rightarrow> None
      | k # _ \<Rightarrow> Some (set_freelist k (remove1 a (pg_freelist g k)) g))"

text \<open>The bits of a map; a bit beyond the space that was set aside for the map is some other memory.\<close>

definition bit_check :: "nat \<Rightarrow> nat \<Rightarrow> pagegroup \<Rightarrow> bool option" where
  "bit_check order i g = (if i < length (pg_map g order) then Some (pg_map g order ! i) else None)"

definition bit_flip :: "nat \<Rightarrow> nat \<Rightarrow> pagegroup \<Rightarrow> pagegroup option" where
  "bit_flip order i g =
     (if i < length (pg_map g order)
      then Some (g\<lparr>pg_map := (pg_map g)(order := (pg_map g order)[i := \<not> pg_map g order ! i])\<rparr>)
      else None)"

text \<open>The index of an address in the bit map of an order.\<close>

definition pagegroup_calculate_index :: "page_config \<Rightarrow> pagegroup \<Rightarrow> nat \<Rightarrow> addr \<Rightarrow> nat option" where
  "pagegroup_calculate_index cfg grp order a =
     (if a mod PAGE_SIZE cfg \<noteq> 0 then None
      else if \<not> order < PAGE_NSIZES cfg then None
      else if \<not> (pg_baseaddr grp \<le> a \<and> a < pg_endaddr grp) then None
      else
        (let offset = a - pg_baseaddr grp in
         if offset mod 2 ^ order \<noteq> 0 then None else Some (offset div 2 ^ order div 2 ^ PAGE_SHIFT cfg)))"

text \<open>Recording that a block was put on the list of its order or taken from it: the bit of its pair is flipped, unless it is of the largest order.\<close>

definition flip_pair :: "page_config \<Rightarrow> nat \<Rightarrow> addr \<Rightarrow> pagegroup \<Rightarrow> pagegroup option" where
  "flip_pair cfg order a grp =
     (if order < PAGE_NSIZES cfg - 1 then do {
        index \<leftarrow> pagegroup_calculate_index cfg grp (order + 1) a;
        bit_flip (order + 1) index grp
      } else Some grp)"

fun first_group :: "(pagegroup \<Rightarrow> bool) \<Rightarrow> pagegroup list \<Rightarrow> nat option" where
  "first_group P [] = None"
| "first_group P (g # gs) = (if P g then Some 0 else map_option Suc (first_group P gs))"

definition pagegroup_from_address :: "addr \<Rightarrow> page_state \<Rightarrow> nat option" where
  "pagegroup_from_address a s = first_group (\<lambda>g. pg_baseaddr g \<le> a \<and> a < pg_endaddr g) (pagegroup_list s)"

definition put_group :: "nat \<Rightarrow> pagegroup \<Rightarrow> page_state \<Rightarrow> page_state" where
  "put_group i g s = s\<lparr>pagegroup_list := (pagegroup_list s)[i := g]\<rparr>"

section \<open>Splitting\<close>

definition page_split_block :: "page_config \<Rightarrow> pagegroup \<Rightarrow> nat \<Rightarrow> pagegroup option" where
  "page_split_block cfg grp order =
     (if \<not> 0 < order \<or> \<not> order < PAGE_NSIZES cfg \<or> pg_freelist grp order = [] \<or> \<not> 4 \<le> PAGE_SIZE cfg then None
      else do {
        let target = hd (pg_freelist grp order);
        let grp = set_freelist order (tl (pg_freelist grp order)) grp;
        grp \<leftarrow> flip_pair cfg order target grp;
        index \<leftarrow> pagegroup_calculate_index cfg grp order target;
        flag \<leftarrow> bit_check order index grp;
        if flag then None
        else do {
          let buddy = target + block_size cfg (order - 1);
          Some (list_insert_head (order - 1) buddy (list_insert_head (order - 1) target grp))
        }
      })"

fun split_down :: "page_config \<Rightarrow> pagegroup \<Rightarrow> nat \<Rightarrow> nat \<Rightarrow> pagegroup option" where
  "split_down cfg grp order 0 = Some grp"
| "split_down cfg grp order (Suc n) = do {
     grp \<leftarrow> page_split_block cfg grp (order + Suc n);
     split_down cfg grp order n
   }"

text \<open>The first larger order, and for it the first group, with a free block.\<close>

fun find_bigger :: "pagegroup list \<Rightarrow> nat list \<Rightarrow> (nat \<times> nat) option" where
  "find_bigger gs [] = None"
| "find_bigger gs (norder # orders) =
     (case first_group (\<lambda>g. pg_freelist g norder \<noteq> []) gs of Some i \<Rightarrow> Some (norder, i) | None \<Rightarrow> find_bigger gs orders)"

fun page_split :: "page_config \<Rightarrow> (page_state \<Rightarrow> page_state) \<Rightarrow> nat \<Rightarrow> nat \<Rightarrow> page_state \<Rightarrow> (nat option \<times> page_state) option" where
  "page_split cfg reclaim num_retrys order s =
     (case find_bigger (pagegroup_list s) [order + 1..<PAGE_NSIZES cfg] of
        Some (norder, i) \<Rightarrow> do {
          grp \<leftarrow> split_down cfg (pagegroup_list s ! i) order (norder - order);
          if pg_freelist grp order = [] then None else Some (Some i, put_group i grp s)
        }
      | None \<Rightarrow>
          (case num_retrys of
             0 \<Rightarrow> Some (None, reclaim s)
           | Suc n \<Rightarrow> page_split cfg reclaim n order (reclaim s)))"

declare page_split.simps [simp del]

section \<open>Allocating\<close>

definition take_block :: "page_config \<Rightarrow> nat \<Rightarrow> nat \<Rightarrow> page_state \<Rightarrow> (addr \<times> page_state) option" where
  "take_block cfg order i s = do {
     let grp = pagegroup_list s ! i;
     let a = hd (pg_freelist grp order);
     let grp = set_freelist order (tl (pg_freelist grp order)) grp;
     grp \<leftarrow> flip_pair cfg order a grp;
     Some (a, (put_group i grp s)\<lparr>page_freecount := page_freecount s - 2 ^ order\<rparr>)
   }"

definition page_alloc_order :: "page_config \<Rightarrow> (page_state \<Rightarrow> page_state) \<Rightarrow> nat \<Rightarrow> nat \<Rightarrow> page_state \<Rightarrow> (addr \<times> page_state) option" where
  "page_alloc_order cfg reclaim retrys order s =
     (case first_group (\<lambda>g. pg_freelist g order \<noteq> []) (pagegroup_list s) of
        Some i \<Rightarrow> take_block cfg order i s
      | None \<Rightarrow> do {
          (r, s) \<leftarrow> page_split cfg reclaim retrys order s;
          (case r of
             None \<Rightarrow> Some (NULL, s)
           | Some i \<Rightarrow> if pg_freelist (pagegroup_list s ! i) order = [] then None else take_block cfg order i s)
        })"

section \<open>Freeing\<close>

function page_join :: "page_config \<Rightarrow> pagegroup \<Rightarrow> nat \<Rightarrow> addr \<Rightarrow> pagegroup option" where
  "page_join cfg grp order a =
     (if \<not> order < PAGE_NSIZES cfg - 1 then Some grp
      else case do { index \<leftarrow> pagegroup_calculate_index cfg grp (order + 1) a; bit_check (order + 1) index grp } of
        None \<Rightarrow> None
      | Some flag \<Rightarrow>
          if flag then Some grp
          else
            (let offset = a - pg_baseaddr grp;
                 buddy = (if odd (offset div 2 ^ PAGE_SHIFT cfg div 2 ^ order) then a - block_size cfg order else a + block_size cfg order)
             in if offset mod 2 ^ order \<noteq> 0 then None
                else case do {
                  grp \<leftarrow> list_remove cfg a grp;
                  grp \<leftarrow> list_remove cfg buddy grp;
                  flip_pair cfg (order + 1) (min a buddy) (list_insert_head (order + 1) (min a buddy) grp)
                } of
                  None \<Rightarrow> None
                | Some grp \<Rightarrow> page_join cfg grp (order + 1) (min a buddy)))"
  by pat_completeness auto
termination by (relation "measure (\<lambda>(cfg, grp, order, a). PAGE_NSIZES cfg - order)") auto

declare page_join.simps [simp del]

definition page_free_order :: "page_config \<Rightarrow> addr \<Rightarrow> nat \<Rightarrow> page_state \<Rightarrow> page_state option" where
  "page_free_order cfg a order s =
     (case pagegroup_from_address a s of
        None \<Rightarrow> Some s
      | Some i \<Rightarrow> do {
          let grp = list_insert_head order a (pagegroup_list s ! i);
          grp \<leftarrow> (if order < PAGE_NSIZES cfg - 1
                    then do { grp \<leftarrow> flip_pair cfg order a grp; page_join cfg grp order a }
                    else Some grp);
          Some ((put_group i grp s)\<lparr>page_freecount := page_freecount s + 2 ^ order\<rparr>)
        })"

section \<open>The interface\<close>

definition page_alloc :: "page_config \<Rightarrow> (page_state \<Rightarrow> page_state) \<Rightarrow> nat \<Rightarrow> page_state \<Rightarrow> (addr \<times> page_state) option" where
  "page_alloc cfg reclaim retrys s = page_alloc_order cfg reclaim retrys 0 s"

definition page_free :: "page_config \<Rightarrow> addr \<Rightarrow> page_state \<Rightarrow> page_state option" where
  "page_free cfg a s = page_free_order cfg a 0 s"

text \<open>The smallest order with at least \<open>npages\<close> pages; the number is compared as a signed integer.\<close>

fun order_for :: "int \<Rightarrow> nat list \<Rightarrow> nat option" where
  "order_for npages [] = None"
| "order_for npages (order # orders) = (if npages \<le> 2 ^ order then Some order else order_for npages orders)"

definition page_alloc_n :: "page_config \<Rightarrow> (page_state \<Rightarrow> page_state) \<Rightarrow> nat \<Rightarrow> 32 word \<Rightarrow> page_state \<Rightarrow> (addr \<times> page_state) option" where
  "page_alloc_n cfg reclaim retrys npages s = do {
     order \<leftarrow> order_for (sint npages) [0..<PAGE_NSIZES cfg];
     page_alloc_order cfg reclaim retrys order s
   }"

definition page_free_n :: "page_config \<Rightarrow> addr \<Rightarrow> 32 word \<Rightarrow> page_state \<Rightarrow> page_state option" where
  "page_free_n cfg start npages s = do {
     order \<leftarrow> order_for (sint npages) [0..<PAGE_NSIZES cfg];
     page_free_order cfg start order s
   }"

definition page_free_count :: "page_state \<Rightarrow> int" where
  "page_free_count s = page_freecount s"

end
