(* ===== verification/Pages_Inv.thy ===== *)
theory Pages_Inv
  imports Pages "HOL-Library.Multiset"
begin

text \<open>
  What the allocator of pages maintains.  A block is given by its order and its number in the group; \<open>in_list\<close> says
  that it is on the free list of its order.  The free pages of a group are collected as a multiset of page numbers, so that a page that two free blocks share
  is counted twice: splitting and joining keep the multiset, and no page is in it more than once.
\<close>

section \<open>Blocks\<close>

definition config_ok :: "page_config \<Rightarrow> bool" where
  "config_ok cfg \<longleftrightarrow> 0 < PAGE_NSIZES cfg \<and> 2 \<le> PAGE_SHIFT cfg \<and> sizeof_pagegroup cfg \<le> PAGE_SIZE cfg"

abbreviation top_order :: "page_config \<Rightarrow> nat" where
  "top_order cfg \<equiv> PAGE_NSIZES cfg - 1"

definition blk :: "page_config \<Rightarrow> pagegroup \<Rightarrow> nat \<Rightarrow> nat \<Rightarrow> addr" where
  "blk cfg g k j = pg_baseaddr g + j * block_size cfg k"

text \<open>The number of blocks of an order: the group consists of whole blocks of the largest order.\<close>

definition nblocks :: "page_config \<Rightarrow> pagegroup \<Rightarrow> nat \<Rightarrow> nat" where
  "nblocks cfg g k = (pg_endaddr g - pg_baseaddr g) div block_size cfg (top_order cfg) * 2 ^ (top_order cfg - k)"

definition in_list :: "page_config \<Rightarrow> pagegroup \<Rightarrow> nat \<Rightarrow> nat \<Rightarrow> bool" where
  "in_list cfg g k j \<longleftrightarrow> blk cfg g k j \<in> set (pg_freelist g k)"

definition block_pages :: "page_config \<Rightarrow> nat \<Rightarrow> addr \<Rightarrow> nat multiset" where
  "block_pages cfg k a = mset [a div PAGE_SIZE cfg..<a div PAGE_SIZE cfg + 2 ^ k]"

definition free_pages :: "page_config \<Rightarrow> pagegroup \<Rightarrow> nat multiset" where
  "free_pages cfg g = (\<Sum>k<PAGE_NSIZES cfg. \<Sum>a\<in>#mset (pg_freelist g k). block_pages cfg k a)"

definition lists_ok :: "page_config \<Rightarrow> pagegroup \<Rightarrow> bool" where
  "lists_ok cfg g \<longleftrightarrow> (\<forall>k<PAGE_NSIZES cfg. \<forall>a\<in>set (pg_freelist g k). \<exists>j<nblocks cfg g k. a = blk cfg g k j)"

definition maps_ok :: "page_config \<Rightarrow> pagegroup \<Rightarrow> bool" where
  "maps_ok cfg g \<longleftrightarrow> (\<forall>k<top_order cfg. nblocks cfg g (Suc k) \<le> length (pg_map g (Suc k)))"

definition bits_ok :: "page_config \<Rightarrow> pagegroup \<Rightarrow> bool" where
  "bits_ok cfg g \<longleftrightarrow>
     (\<forall>k<top_order cfg. \<forall>j<nblocks cfg g (Suc k). pg_map g (Suc k) ! j = (in_list cfg g k (2 * j) \<noteq> in_list cfg g k (2 * j + 1)))"

text \<open>A group is well formed up to the pair \<open>j\<close> of order \<open>k\<close>: no other pair of buddies has both on the free list.\<close>

definition merged_but :: "page_config \<Rightarrow> nat \<Rightarrow> nat \<Rightarrow> pagegroup \<Rightarrow> bool" where
  "merged_but cfg k j g \<longleftrightarrow>
     (\<forall>k'<top_order cfg. \<forall>j'. (k', j') \<noteq> (k, j) \<longrightarrow> \<not> (in_list cfg g k' (2 * j') \<and> in_list cfg g k' (2 * j' + 1)))"

definition merged :: "page_config \<Rightarrow> pagegroup \<Rightarrow> bool" where
  "merged cfg g \<longleftrightarrow> (\<forall>k<top_order cfg. \<forall>j. \<not> (in_list cfg g k (2 * j) \<and> in_list cfg g k (2 * j + 1)))"

definition base_ok :: "page_config \<Rightarrow> pagegroup \<Rightarrow> bool" where
  "base_ok cfg g \<longleftrightarrow> 0 < pg_baseaddr g \<and> pg_baseaddr g mod PAGE_SIZE cfg = 0 \<and> pg_baseaddr g \<le> pg_endaddr g"

definition once :: "'a multiset \<Rightarrow> bool" where
  "once M \<longleftrightarrow> (\<forall>x. count M x \<le> 1)"

definition buddies_ok :: "page_config \<Rightarrow> pagegroup \<Rightarrow> bool" where
  "buddies_ok cfg g \<longleftrightarrow> base_ok cfg g \<and> lists_ok cfg g \<and> maps_ok cfg g \<and> bits_ok cfg g \<and> once (free_pages cfg g)"

section \<open>Arithmetic of blocks\<close>

lemma block_size_pos [simp]: "0 < block_size cfg k"
  by (simp add: block_size_def)

lemma block_size_Suc: "block_size cfg (Suc k) = 2 * block_size cfg k"
  by (simp add: block_size_def)

lemma block_size_nonzero [simp]: "block_size cfg k \<noteq> 0"
  by (simp add: block_size_def)

lemma block_size_pages: "block_size cfg k = 2 ^ k * PAGE_SIZE cfg"
  by (simp add: block_size_def PAGE_SIZE_def)

lemma blk_inject [simp]: "blk cfg g k i = blk cfg g k j \<longleftrightarrow> i = j"
  by (simp add: blk_def)

lemma blk_halves: "blk cfg g (Suc k) j = blk cfg g k (2 * j)" "blk cfg g (Suc k) j + block_size cfg k = blk cfg g k (2 * j + 1)"
  by (simp_all add: blk_def block_size_Suc algebra_simps)

lemma nblocks_Suc: "k < top_order cfg \<Longrightarrow> nblocks cfg g k = 2 * nblocks cfg g (Suc k)"
  by (simp add: nblocks_def Suc_diff_Suc flip: power_Suc)

lemma nblocks_end: "k \<le> top_order cfg \<Longrightarrow> nblocks cfg g k * block_size cfg k \<le> pg_endaddr g - pg_baseaddr g"
proof -
  assume k: "k \<le> top_order cfg"
  have "2 ^ (top_order cfg - k) * block_size cfg k = block_size cfg (top_order cfg)"
    using k by (simp add: block_size_def flip: power_add mult.assoc)
  then have "nblocks cfg g k * block_size cfg k =
      (pg_endaddr g - pg_baseaddr g) div block_size cfg (top_order cfg) * block_size cfg (top_order cfg)"
    unfolding nblocks_def mult.assoc by simp
  then show ?thesis
    by simp
qed

lemma blk_before_end:
  assumes "j < nblocks cfg g k" "k \<le> top_order cfg" "base_ok cfg g"
  shows "blk cfg g k j + block_size cfg k \<le> pg_endaddr g"
proof -
  have "Suc j * block_size cfg k \<le> nblocks cfg g k * block_size cfg k"
    using assms(1) by (intro mult_le_mono1) simp
  also note nblocks_end [OF assms(2)]
  finally show ?thesis
    using assms(3) unfolding blk_def base_ok_def by simp linarith
qed

lemma blk_in_range:
  assumes "j < nblocks cfg g k" "k \<le> top_order cfg" "base_ok cfg g"
  shows "pg_baseaddr g \<le> blk cfg g k j" "blk cfg g k j < pg_endaddr g" "0 < blk cfg g k j"
proof -
  show "blk cfg g k j < pg_endaddr g"
    using blk_before_end [OF assms] block_size_pos [of cfg k] by linarith
qed (use assms in \<open>auto simp: blk_def base_ok_def\<close>)

lemma blk_page: "base_ok cfg g \<Longrightarrow> blk cfg g k j div PAGE_SIZE cfg = pg_baseaddr g div PAGE_SIZE cfg + j * 2 ^ k"
  by (auto simp: blk_def block_size_pages base_ok_def PAGE_SIZE_def simp flip: mult.assoc elim!: dvdE)

lemma blk_aligned: "base_ok cfg g \<Longrightarrow> blk cfg g k j mod PAGE_SIZE cfg = 0"
  by (auto simp: blk_def block_size_pages base_ok_def)

lemma block_pages_split:
  assumes "base_ok cfg g"
  shows "block_pages cfg (Suc k) (blk cfg g (Suc k) j) = block_pages cfg k (blk cfg g k (2 * j)) + block_pages cfg k (blk cfg g k (2 * j + 1))"
proof -
  define b where "b = pg_baseaddr g div PAGE_SIZE cfg + j * 2 ^ Suc k"
  have "[b..<b + 2 ^ Suc k] = [b..<b + 2 ^ k] @ [b + 2 ^ k..<b + 2 ^ k + 2 ^ k]"
    by (subst upt_add_eq_append [symmetric]) (auto simp: ac_simps mult_2)
  then show ?thesis
    using assms by (simp add: block_pages_def blk_page b_def algebra_simps del: upt_Suc)
qed

lemma block_pages_nonempty: "a div PAGE_SIZE cfg \<in># block_pages cfg k a"
  by (simp add: block_pages_def)

lemma size_block_pages [simp]: "size (block_pages cfg k a) = 2 ^ k"
  by (simp add: block_pages_def)

section \<open>The index of a block\<close>

lemma shift_index: "j * block_size cfg k div 2 ^ k div 2 ^ PAGE_SHIFT cfg = j" "j * block_size cfg k div 2 ^ PAGE_SHIFT cfg div 2 ^ k = j"
  by (simp_all add: block_size_def algebra_simps)

lemma index_same:
  assumes "base_ok cfg g" "j < nblocks cfg g k" "k < PAGE_NSIZES cfg"
  shows "pagegroup_calculate_index cfg g k (blk cfg g k j) = Some j"
proof -
  have "k \<le> top_order cfg"
    using assms by simp
  note r = blk_in_range [OF assms(2) this assms(1)] blk_aligned [OF assms(1), of k j]
  have "(blk cfg g k j - pg_baseaddr g) mod 2 ^ k = 0"
    by (simp add: blk_def block_size_def)
  moreover have "(blk cfg g k j - pg_baseaddr g) div 2 ^ k div 2 ^ PAGE_SHIFT cfg = j"
    by (simp add: blk_def shift_index)
  ultimately show ?thesis
    using r assms by (simp add: pagegroup_calculate_index_def)
qed

lemma index_pair:
  assumes "base_ok cfg g" "j < nblocks cfg g k" "k < top_order cfg" "config_ok cfg"
  shows "pagegroup_calculate_index cfg g (Suc k) (blk cfg g k j) = Some (j div 2)"
proof -
  note r = blk_in_range [OF assms(2) less_imp_le [OF assms(3)] assms(1)] blk_aligned [OF assms(1), of k j]
  obtain m where m: "PAGE_SHIFT cfg = Suc m"
    using assms(4) by (cases "PAGE_SHIFT cfg") (auto simp: config_ok_def)
  have "(blk cfg g k j - pg_baseaddr g) mod 2 ^ Suc k = 0"
    by (simp add: blk_def block_size_def m algebra_simps)
  moreover have "(blk cfg g k j - pg_baseaddr g) div 2 ^ Suc k div 2 ^ PAGE_SHIFT cfg = j div 2"
    by (simp add: blk_def block_size_def div_mult2_eq [symmetric] algebra_simps)
  moreover have "Suc k < PAGE_NSIZES cfg"
    using assms(3) by simp
  ultimately show ?thesis
    using r by (simp add: pagegroup_calculate_index_def)
qed

section \<open>Multisets without repetition\<close>

lemma once_plusD: "once (M + N) \<Longrightarrow> x \<in># M \<Longrightarrow> x \<notin># N"
  unfolding once_def by (metis add_le_same_cancel1 count_greater_eq_one_iff count_union le_trans not_one_le_zero add_le_cancel_right)

lemma once_mono: "M \<subseteq># N \<Longrightarrow> once N \<Longrightarrow> once M"
  unfolding once_def by (meson le_trans mset_subset_eq_count)

lemma once_plusI: "once M \<Longrightarrow> once N \<Longrightarrow> set_mset M \<inter> set_mset N = {} \<Longrightarrow> once (M + N)"
  unfolding once_def by (metis IntI add.right_neutral add_0 count_union empty_iff not_in_iff)

lemma once_block_pages [simp]: "once (block_pages cfg k a)"
  using distinct_upt [unfolded distinct_count_atmost_1] by (simp add: once_def block_pages_def)

definition list_pages :: "page_config \<Rightarrow> nat \<Rightarrow> addr list \<Rightarrow> nat multiset" where
  "list_pages cfg k l = (\<Sum>a\<in>#mset l. block_pages cfg k a)"

lemma list_pages_simps [simp]:
  "list_pages cfg k [] = {#}"
  "list_pages cfg k (a # l) = block_pages cfg k a + list_pages cfg k l"
  by (simp_all add: list_pages_def)

lemma list_pages_remove1: "a \<in> set l \<Longrightarrow> block_pages cfg k a + list_pages cfg k (remove1 a l) = list_pages cfg k l"
  by (induction l) (auto simp: ac_simps)

lemma list_pages_member: "a \<in> set l \<Longrightarrow> p \<in># block_pages cfg k a \<Longrightarrow> p \<in># list_pages cfg k l"
  by (induction l) auto

lemma once_list_distinct: "once (list_pages cfg k l) \<Longrightarrow> distinct l"
proof (induction l)
  case (Cons a l)
  then show ?case
    using once_plusD [of "block_pages cfg k a" "list_pages cfg k l", OF _ block_pages_nonempty]
      list_pages_member [OF _ block_pages_nonempty, of a l] once_mono [of "list_pages cfg k l" "list_pages cfg k (a # l)"]
    by auto
qed simp

lemma free_pages_at: "k < PAGE_NSIZES cfg \<Longrightarrow>
    free_pages cfg g = list_pages cfg k (pg_freelist g k) + (\<Sum>l\<in>{..<PAGE_NSIZES cfg} - {k}. list_pages cfg l (pg_freelist g l))"
  unfolding free_pages_def list_pages_def by (subst sum.remove [of _ k]) auto

lemma free_pages_set_freelist:
  assumes "k < PAGE_NSIZES cfg"
  shows "free_pages cfg (set_freelist k l g) + list_pages cfg k (pg_freelist g k) = free_pages cfg g + list_pages cfg k l"
  unfolding free_pages_at [OF assms, of g] free_pages_at [OF assms, of "set_freelist k l g"]
  by (simp add: set_freelist_def)

lemma free_pages_member: "k < PAGE_NSIZES cfg \<Longrightarrow> a \<in> set (pg_freelist g k) \<Longrightarrow> p \<in># block_pages cfg k a \<Longrightarrow> p \<in># free_pages cfg g"
  using free_pages_at [of k cfg g] list_pages_member [of a "pg_freelist g k" p cfg k] by simp

lemma free_once_distinct: "once (free_pages cfg g) \<Longrightarrow> k < PAGE_NSIZES cfg \<Longrightarrow> distinct (pg_freelist g k)"
  using free_pages_at [of k cfg g] once_mono [of "list_pages cfg k (pg_freelist g k)" "free_pages cfg g"]
    once_list_distinct [of cfg k "pg_freelist g k"] by simp

lemma free_once_lists:
  assumes "once (free_pages cfg g)" "k < PAGE_NSIZES cfg" "l < PAGE_NSIZES cfg" "k \<noteq> l"
    "a \<in> set (pg_freelist g k)" "b \<in> set (pg_freelist g l)" "p \<in># block_pages cfg k a"
  shows "p \<notin># block_pages cfg l b"
proof
  assume p: "p \<in># block_pages cfg l b"
  have "free_pages cfg g = list_pages cfg k (pg_freelist g k) + (list_pages cfg l (pg_freelist g l) +
      (\<Sum>l\<in>{..<PAGE_NSIZES cfg} - {k} - {l}. list_pages cfg l (pg_freelist g l)))"
    unfolding free_pages_at [OF assms(2)] using assms(3,4) by (subst sum.remove [of _ l]) auto
  then show False
    using once_plusD [OF assms(1) [unfolded \<open>free_pages cfg g = _\<close>], of p] list_pages_member [OF assms(5,7)]
      list_pages_member [OF assms(6) p] by simp
qed

section \<open>Putting blocks on the lists and taking them off\<close>

lemma set_freelist_simps [simp]:
  "pg_freelist (set_freelist k l g) = (pg_freelist g)(k := l)"
  "pg_map (set_freelist k l g) = pg_map g"
  "pg_baseaddr (set_freelist k l g) = pg_baseaddr g"
  "pg_endaddr (set_freelist k l g) = pg_endaddr g"
  by (simp_all add: set_freelist_def)

definition flipped :: "page_config \<Rightarrow> nat \<Rightarrow> nat \<Rightarrow> pagegroup \<Rightarrow> pagegroup" where
  "flipped cfg k j g =
     (if k < top_order cfg
      then g\<lparr>pg_map := (pg_map g)(Suc k := (pg_map g (Suc k))[j div 2 := \<not> pg_map g (Suc k) ! (j div 2)])\<rparr>
      else g)"

lemma flipped_simps [simp]:
  "pg_freelist (flipped cfg k j g) = pg_freelist g"
  "pg_baseaddr (flipped cfg k j g) = pg_baseaddr g"
  "pg_endaddr (flipped cfg k j g) = pg_endaddr g"
  by (simp_all add: flipped_def)

lemma pg_map_flipped: "pg_map (flipped cfg k j g) =
    (if k < top_order cfg then (pg_map g)(Suc k := (pg_map g (Suc k))[j div 2 := \<not> pg_map g (Suc k) ! (j div 2)]) else pg_map g)"
  by (simp add: flipped_def)

lemma range_simps [simp]:
  "blk cfg (set_freelist k l g) = blk cfg g" "nblocks cfg (set_freelist k l g) = nblocks cfg g"
  "base_ok cfg (set_freelist k l g) = base_ok cfg g"
  "blk cfg (flipped cfg k j g) = blk cfg g" "nblocks cfg (flipped cfg k j g) = nblocks cfg g"
  "base_ok cfg (flipped cfg k j g) = base_ok cfg g"
  by (simp_all add: blk_def nblocks_def base_ok_def fun_eq_iff)

lemma in_list_set_freelist: "in_list cfg (set_freelist k l g) k' j \<longleftrightarrow> (if k' = k then blk cfg g k j \<in> set l else in_list cfg g k' j)"
  by (simp add: in_list_def)

lemma in_list_flipped [simp]: "in_list cfg (flipped cfg k j g) = in_list cfg g"
  by (simp add: in_list_def fun_eq_iff)

lemma flip_pair_blk:
  assumes "base_ok cfg g" "maps_ok cfg g" "j < nblocks cfg g k" "config_ok cfg"
  shows "flip_pair cfg k (blk cfg g k j) g = Some (flipped cfg k j g)"
proof (cases "k < top_order cfg")
  case True
  have "j div 2 < length (pg_map g (Suc k))"
    using assms(3) nblocks_Suc [OF True, of g] assms(2) [unfolded maps_ok_def, rule_format, OF True] by linarith
  then show ?thesis
    using True index_pair [OF assms(1,3) True assms(4)] by (simp add: flip_pair_def bit_flip_def flipped_def)
qed (simp add: flip_pair_def flipped_def)

lemma lists_ok_set_freelist:
  "lists_ok cfg g \<Longrightarrow> (\<And>a. a \<in> set l \<Longrightarrow> \<exists>j<nblocks cfg g k. a = blk cfg g k j) \<Longrightarrow> lists_ok cfg (set_freelist k l g)"
  by (simp add: lists_ok_def)

lemma lists_ok_flipped [simp]: "lists_ok cfg (flipped cfg k j g) = lists_ok cfg g"
  by (simp add: lists_ok_def)

lemma lists_okD: "lists_ok cfg g \<Longrightarrow> k < PAGE_NSIZES cfg \<Longrightarrow> a \<in> set (pg_freelist g k) \<Longrightarrow> \<exists>j<nblocks cfg g k. a = blk cfg g k j"
  by (simp add: lists_ok_def)

lemma maps_ok_simps [simp]:
  "maps_ok cfg (set_freelist k l g) = maps_ok cfg g"
  "maps_ok cfg (flipped cfg k j g) = maps_ok cfg g"
  by (auto simp: maps_ok_def pg_map_flipped)

lemma free_pages_flipped [simp]: "free_pages cfg (flipped cfg k j g) = free_pages cfg g"
  by (simp add: free_pages_def)

text \<open>A list changes in one block and the bit of its pair is flipped.\<close>

lemma bits_flip:
  assumes "bits_ok cfg g" "maps_ok cfg g" "blk cfg g k j \<in> set l \<longleftrightarrow> \<not> in_list cfg g k j"
    "\<And>i. i \<noteq> j \<Longrightarrow> blk cfg g k i \<in> set l \<longleftrightarrow> in_list cfg g k i"
  shows "bits_ok cfg (flipped cfg k j (set_freelist k l g))"
  unfolding bits_ok_def
proof (intro allI impI)
  fix k' j'
  assume k': "k' < top_order cfg" and j': "j' < nblocks cfg (flipped cfg k j (set_freelist k l g)) (Suc k')"
  have old: "pg_map g (Suc k') ! j' = (in_list cfg g k' (2 * j') \<noteq> in_list cfg g k' (2 * j' + 1))"
    using assms(1) k' j' by (simp add: bits_ok_def)
  show "pg_map (flipped cfg k j (set_freelist k l g)) (Suc k') ! j' =
      (in_list cfg (flipped cfg k j (set_freelist k l g)) k' (2 * j') \<noteq> in_list cfg (flipped cfg k j (set_freelist k l g)) k' (2 * j' + 1))"
  proof (cases "k' = k \<and> j' = j div 2")
    case True
    then have "j' < length (pg_map g (Suc k))"
      using assms(2) k' j' by (force simp: maps_ok_def)
    moreover have "j = 2 * j' \<or> j = 2 * j' + 1"
      using True by presburger
    ultimately show ?thesis
      using True old k' assms(3) assms(4) [of "2 * j'"] assms(4) [of "2 * j' + 1"]
      by (auto simp: pg_map_flipped in_list_set_freelist)
  next
    case False
    then have "k' = k \<longrightarrow> 2 * j' \<noteq> j \<and> 2 * j' + 1 \<noteq> j"
      by auto
    then show ?thesis
      using False old k' assms(4) [of "2 * j'"] assms(4) [of "2 * j' + 1"]
      by (cases "k' = k") (auto simp: pg_map_flipped in_list_set_freelist)
  qed
qed

text \<open>A list changes in both blocks of a pair and no bit is flipped.\<close>

lemma bits_pair:
  assumes "bits_ok cfg g" "in_list cfg g k (2 * j) = in_list cfg g k (2 * j + 1)" "blk cfg g k (2 * j) \<in> set l \<longleftrightarrow> blk cfg g k (2 * j + 1) \<in> set l"
    "\<And>i. i \<noteq> 2 * j \<Longrightarrow> i \<noteq> 2 * j + 1 \<Longrightarrow> blk cfg g k i \<in> set l \<longleftrightarrow> in_list cfg g k i"
  shows "bits_ok cfg (set_freelist k l g)"
  unfolding bits_ok_def
proof (intro allI impI)
  fix k' j'
  assume k': "k' < top_order cfg" and j': "j' < nblocks cfg (set_freelist k l g) (Suc k')"
  have old: "pg_map g (Suc k') ! j' = (in_list cfg g k' (2 * j') \<noteq> in_list cfg g k' (2 * j' + 1))"
    using assms(1) k' j' by (simp add: bits_ok_def)
  show "pg_map (set_freelist k l g) (Suc k') ! j' =
      (in_list cfg (set_freelist k l g) k' (2 * j') \<noteq> in_list cfg (set_freelist k l g) k' (2 * j' + 1))"
  proof (cases "k' = k \<and> j' = j")
    case True
    then show ?thesis
      using old assms(2,3) by (simp add: in_list_set_freelist)
  next
    case False
    have "2 * j' \<noteq> 2 * j + 1" "2 * j' + 1 \<noteq> 2 * j"
      by arith+
    with False have "k' = k \<Longrightarrow> blk cfg g k (2 * j') \<in> set l \<longleftrightarrow> in_list cfg g k (2 * j')"
      "k' = k \<Longrightarrow> blk cfg g k (2 * j' + 1) \<in> set l \<longleftrightarrow> in_list cfg g k (2 * j' + 1)"
      using assms(4) [of "2 * j'"] assms(4) [of "2 * j' + 1"] by auto
    then show ?thesis
      using old by (cases "k' = k") (simp_all only: in_list_set_freelist set_freelist_simps if_True if_False simp_thms)
  qed
qed

lemma buddies_okD:
  assumes "buddies_ok cfg g"
  shows "base_ok cfg g" "lists_ok cfg g" "maps_ok cfg g" "bits_ok cfg g" "once (free_pages cfg g)"
  using assms by (simp_all add: buddies_ok_def)

definition add_block :: "page_config \<Rightarrow> nat \<Rightarrow> nat \<Rightarrow> pagegroup \<Rightarrow> pagegroup" where
  "add_block cfg k j g = flipped cfg k j (set_freelist k (blk cfg g k j # pg_freelist g k) g)"

definition del_block :: "page_config \<Rightarrow> nat \<Rightarrow> nat \<Rightarrow> pagegroup \<Rightarrow> pagegroup" where
  "del_block cfg k j g = flipped cfg k j (set_freelist k (remove1 (blk cfg g k j) (pg_freelist g k)) g)"

definition add_pair :: "page_config \<Rightarrow> nat \<Rightarrow> nat \<Rightarrow> pagegroup \<Rightarrow> pagegroup" where
  "add_pair cfg k j g = set_freelist k (blk cfg g k (2 * j + 1) # blk cfg g k (2 * j) # pg_freelist g k) g"

definition del_pair :: "page_config \<Rightarrow> nat \<Rightarrow> nat \<Rightarrow> pagegroup \<Rightarrow> pagegroup" where
  "del_pair cfg k j g = set_freelist k (remove1 (blk cfg g k (2 * j)) (remove1 (blk cfg g k (2 * j + 1)) (pg_freelist g k))) g"

lemma pair_simps [simp]:
  "pg_baseaddr (add_block cfg k j g) = pg_baseaddr g" "pg_endaddr (add_block cfg k j g) = pg_endaddr g"
  "pg_baseaddr (del_block cfg k j g) = pg_baseaddr g" "pg_endaddr (del_block cfg k j g) = pg_endaddr g"
  "pg_baseaddr (add_pair cfg k j g) = pg_baseaddr g" "pg_endaddr (add_pair cfg k j g) = pg_endaddr g"
  "pg_baseaddr (del_pair cfg k j g) = pg_baseaddr g" "pg_endaddr (del_pair cfg k j g) = pg_endaddr g"
  "blk cfg (add_block cfg k j g) = blk cfg g" "nblocks cfg (add_block cfg k j g) = nblocks cfg g"
  "blk cfg (del_block cfg k j g) = blk cfg g" "nblocks cfg (del_block cfg k j g) = nblocks cfg g"
  "blk cfg (add_pair cfg k j g) = blk cfg g" "nblocks cfg (add_pair cfg k j g) = nblocks cfg g"
  "blk cfg (del_pair cfg k j g) = blk cfg g" "nblocks cfg (del_pair cfg k j g) = nblocks cfg g"
  by (simp_all add: add_block_def del_block_def add_pair_def del_pair_def)

lemma in_list_ops:
  "in_list cfg (add_block cfg k j g) k' j' \<longleftrightarrow> in_list cfg g k' j' \<or> (k' = k \<and> j' = j)"
  "in_list cfg (add_pair cfg k j g) k' j' \<longleftrightarrow> in_list cfg g k' j' \<or> (k' = k \<and> (j' = 2 * j \<or> j' = 2 * j + 1))"
  "distinct (pg_freelist g k) \<Longrightarrow> in_list cfg (del_block cfg k j g) k' j' \<longleftrightarrow> in_list cfg g k' j' \<and> (k' \<noteq> k \<or> j' \<noteq> j)"
  "distinct (pg_freelist g k) \<Longrightarrow> in_list cfg (del_pair cfg k j g) k' j' \<longleftrightarrow> in_list cfg g k' j' \<and> (k' \<noteq> k \<or> (j' \<noteq> 2 * j \<and> j' \<noteq> 2 * j + 1))"
  by (auto simp: add_block_def del_block_def add_pair_def del_pair_def in_list_set_freelist) (auto simp: in_list_def)

lemma mset_taken: "F' + L = F + L' \<Longrightarrow> P + L' = L \<Longrightarrow> F = P + (F' :: 'a multiset)"
proof -
  assume "F' + L = F + L'" "P + L' = L"
  then have "F + L' = P + F' + L'"
    by (simp add: ac_simps)
  then show ?thesis
    by (simp only: add_right_cancel)
qed

lemma not_listed:
  assumes "k < PAGE_NSIZES cfg" "set_mset (block_pages cfg k (blk cfg g k j)) \<inter> set_mset (free_pages cfg g) = {}"
  shows "\<not> in_list cfg g k j"
  using free_pages_member [OF assms(1) _ block_pages_nonempty, of "blk cfg g k j" g] assms(2)
    block_pages_nonempty [of "blk cfg g k j" cfg k] by (auto simp: in_list_def)

lemma add_block_ok:
  assumes g: "buddies_ok cfg g" and k: "k < PAGE_NSIZES cfg" and j: "j < nblocks cfg g k"
    and new: "set_mset (block_pages cfg k (blk cfg g k j)) \<inter> set_mset (free_pages cfg g) = {}"
  shows "buddies_ok cfg (add_block cfg k j g)" "free_pages cfg (add_block cfg k j g) = block_pages cfg k (blk cfg g k j) + free_pages cfg g"
proof -
  note ok = buddies_okD [OF g]
  show free: "free_pages cfg (add_block cfg k j g) = block_pages cfg k (blk cfg g k j) + free_pages cfg g"
    using free_pages_set_freelist [OF k, of "blk cfg g k j # pg_freelist g k" g] by (simp add: add_block_def ac_simps)
  have "bits_ok cfg (add_block cfg k j g)"
    unfolding add_block_def using not_listed [OF k new] by (intro bits_flip ok) (auto simp: in_list_def)
  moreover have "lists_ok cfg (add_block cfg k j g)"
    unfolding add_block_def lists_ok_flipped using j lists_okD [OF ok(2) k] by (intro lists_ok_set_freelist ok) auto
  moreover have "once (free_pages cfg (add_block cfg k j g))"
    unfolding free by (intro once_plusI ok new) simp
  ultimately show "buddies_ok cfg (add_block cfg k j g)"
    using ok by (simp add: buddies_ok_def add_block_def)
qed

lemma del_block_ok:
  assumes g: "buddies_ok cfg g" and k: "k < PAGE_NSIZES cfg" and j: "in_list cfg g k j"
  shows "buddies_ok cfg (del_block cfg k j g)" "free_pages cfg g = block_pages cfg k (blk cfg g k j) + free_pages cfg (del_block cfg k j g)"
proof -
  note ok = buddies_okD [OF g]
  have d: "distinct (pg_freelist g k)"
    by (rule free_once_distinct [OF ok(5) k])
  show free: "free_pages cfg g = block_pages cfg k (blk cfg g k j) + free_pages cfg (del_block cfg k j g)"
    unfolding del_block_def free_pages_flipped
    by (rule mset_taken [OF free_pages_set_freelist [OF k] list_pages_remove1]) (use j in \<open>simp add: in_list_def\<close>)
  have "bits_ok cfg (del_block cfg k j g)"
    unfolding del_block_def using j d by (intro bits_flip ok) (auto simp: in_list_def)
  moreover have "lists_ok cfg (del_block cfg k j g)"
    unfolding del_block_def lists_ok_flipped using lists_okD [OF ok(2) k]
    by (intro lists_ok_set_freelist ok) (metis notin_set_remove1)
  moreover have "once (free_pages cfg (del_block cfg k j g))"
    using ok(5) unfolding free by (rule once_mono [rotated]) simp
  ultimately show "buddies_ok cfg (del_block cfg k j g)"
    using ok by (simp add: buddies_ok_def del_block_def)
qed

lemma halves_new:
  assumes "base_ok cfg g" "set_mset (block_pages cfg (Suc k) (blk cfg g (Suc k) j)) \<inter> set_mset (free_pages cfg g) = {}"
  shows "set_mset (block_pages cfg k (blk cfg g k (2 * j))) \<inter> set_mset (free_pages cfg g) = {}"
    "set_mset (block_pages cfg k (blk cfg g k (2 * j + 1))) \<inter> set_mset (free_pages cfg g) = {}"
  using assms(2) unfolding block_pages_split [OF assms(1)] by auto

lemma add_pair_ok:
  assumes g: "buddies_ok cfg g" and k: "Suc k < PAGE_NSIZES cfg" and j: "j < nblocks cfg g (Suc k)"
    and new: "set_mset (block_pages cfg (Suc k) (blk cfg g (Suc k) j)) \<inter> set_mset (free_pages cfg g) = {}"
  shows "buddies_ok cfg (add_pair cfg k j g)"
    "free_pages cfg (add_pair cfg k j g) = block_pages cfg (Suc k) (blk cfg g (Suc k) j) + free_pages cfg g"
proof -
  note ok = buddies_okD [OF g]
  have k': "k < PAGE_NSIZES cfg" "k < top_order cfg"
    using k by auto
  note off = not_listed [OF k'(1) halves_new(1) [OF ok(1) new]] not_listed [OF k'(1) halves_new(2) [OF ok(1) new]]
  show free: "free_pages cfg (add_pair cfg k j g) = block_pages cfg (Suc k) (blk cfg g (Suc k) j) + free_pages cfg g"
    using free_pages_set_freelist [OF k'(1), of "blk cfg g k (2 * j + 1) # blk cfg g k (2 * j) # pg_freelist g k" g]
    unfolding block_pages_split [OF ok(1)] by (simp add: add_pair_def ac_simps)
  have "bits_ok cfg (add_pair cfg k j g)"
    unfolding add_pair_def using off by (intro bits_pair [where j = j] ok) (auto simp: in_list_def)
  moreover have "lists_ok cfg (add_pair cfg k j g)"
    unfolding add_pair_def using j lists_okD [OF ok(2) k'(1)] nblocks_Suc [OF k'(2), of g]
    by (intro lists_ok_set_freelist ok) auto
  moreover have "once (free_pages cfg (add_pair cfg k j g))"
    unfolding free by (intro once_plusI ok new) simp
  ultimately show "buddies_ok cfg (add_pair cfg k j g)"
    using ok by (simp add: buddies_ok_def add_pair_def)
qed

lemma del_pair_ok:
  assumes g: "buddies_ok cfg g" and k: "Suc k < PAGE_NSIZES cfg" and j: "in_list cfg g k (2 * j)" "in_list cfg g k (2 * j + 1)"
  shows "buddies_ok cfg (del_pair cfg k j g)"
    "free_pages cfg g = block_pages cfg (Suc k) (blk cfg g (Suc k) j) + free_pages cfg (del_pair cfg k j g)"
proof -
  note ok = buddies_okD [OF g]
  have k': "k < PAGE_NSIZES cfg"
    using k by auto
  have d: "distinct (pg_freelist g k)"
    by (rule free_once_distinct [OF ok(5) k'])
  let ?l = "remove1 (blk cfg g k (2 * j + 1)) (pg_freelist g k)"
  have in_l: "blk cfg g k (2 * j) \<in> set ?l"
    using j d by (simp add: in_list_def)
  have "block_pages cfg (Suc k) (blk cfg g (Suc k) j) + list_pages cfg k (remove1 (blk cfg g k (2 * j)) ?l) = list_pages cfg k (pg_freelist g k)"
    unfolding block_pages_split [OF ok(1)] list_pages_remove1 [OF j(2) [unfolded in_list_def], of cfg, symmetric]
      list_pages_remove1 [OF in_l, of cfg k, symmetric] by (simp add: ac_simps)
  then show free: "free_pages cfg g = block_pages cfg (Suc k) (blk cfg g (Suc k) j) + free_pages cfg (del_pair cfg k j g)"
    unfolding del_pair_def by (rule mset_taken [OF free_pages_set_freelist [OF k']])
  have "bits_ok cfg (del_pair cfg k j g)"
    unfolding del_pair_def using j d by (intro bits_pair [where j = j] ok) (auto simp: in_list_def)
  moreover have "lists_ok cfg (del_pair cfg k j g)"
    unfolding del_pair_def using lists_okD [OF ok(2) k'] by (intro lists_ok_set_freelist ok) (metis notin_set_remove1)
  moreover have "once (free_pages cfg (del_pair cfg k j g))"
    using ok(5) unfolding free by (rule once_mono [rotated]) simp
  ultimately show "buddies_ok cfg (del_pair cfg k j g)"
    using ok by (simp add: buddies_ok_def del_pair_def)
qed

section \<open>Splitting\<close>

lemma taken_disjoint:
  assumes "buddies_ok cfg g" "k < PAGE_NSIZES cfg" "in_list cfg g k j"
  shows "set_mset (block_pages cfg k (blk cfg g k j)) \<inter> set_mset (free_pages cfg (del_block cfg k j g)) = {}"
  using once_plusD [of "block_pages cfg k (blk cfg g k j)" "free_pages cfg (del_block cfg k j g)"]
    buddies_okD(5) [OF assms(1)] del_block_ok(2) [OF assms] by auto

lemma set_freelist_twice [simp]: "set_freelist k l (set_freelist k l' g) = set_freelist k l g"
  by (simp add: set_freelist_def)

lemma blk_next: "blk cfg g k j + block_size cfg k = blk cfg g k (Suc j)"
  by (simp add: blk_def)

definition split_group :: "page_config \<Rightarrow> nat \<Rightarrow> nat \<Rightarrow> pagegroup \<Rightarrow> pagegroup" where
  "split_group cfg k j g = add_pair cfg k j (del_block cfg (Suc k) j g)"

lemma page_split_block_eq:
  assumes g: "buddies_ok cfg g" and cfg: "config_ok cfg" and k: "Suc k < PAGE_NSIZES cfg" and j: "j < nblocks cfg g (Suc k)"
    and l: "pg_freelist g (Suc k) = blk cfg g (Suc k) j # l"
  shows "page_split_block cfg g (Suc k) = Some (split_group cfg k j g)"
proof -
  let ?g = "del_block cfg (Suc k) j g"
  have listed: "in_list cfg g (Suc k) j"
    by (simp add: in_list_def l)
  note g' = del_block_ok(1) [OF g k listed]
  note ok = buddies_okD [OF g] and ok' = buddies_okD [OF g']
  have k': "k < PAGE_NSIZES cfg" "k < top_order cfg"
    using k by auto
  have flip: "flip_pair cfg (Suc k) (blk cfg g (Suc k) j) (set_freelist (Suc k) l g) = Some ?g"
    using flip_pair_blk [of cfg "set_freelist (Suc k) l g" j "Suc k"] ok cfg j by (simp add: del_block_def l)
  have index: "pagegroup_calculate_index cfg ?g (Suc k) (blk cfg g (Suc k) j) = Some j"
    using index_same [OF ok'(1), of j "Suc k"] k j by simp
  note new = taken_disjoint [OF g k listed]
  have off: "\<not> in_list cfg ?g k (2 * j)" "\<not> in_list cfg ?g k (2 * j + 1)"
    using not_listed [OF k'(1), of ?g] halves_new [OF ok'(1), of k j] new by simp_all
  have "pg_map ?g (Suc k) ! j = False"
    using ok'(4) k'(2) j off unfolding bits_ok_def by simp
  moreover have "j < length (pg_map ?g (Suc k))"
    using ok'(3) [unfolded maps_ok_def, rule_format, OF k'(2)] j by simp
  ultimately have bit: "bit_check (Suc k) j ?g = Some False"
    by (simp add: bit_check_def)
  have four: "4 \<le> PAGE_SIZE cfg"
    using cfg power_increasing [of 2 "PAGE_SHIFT cfg" "2 :: nat"] by (simp add: config_ok_def PAGE_SIZE_def)
  show ?thesis
    using k four by (simp add: page_split_block_def l Let_def flip index bit)
      (simp add: split_group_def add_pair_def list_insert_head_def blk_halves(1) blk_next)
qed

lemma split_group_ok:
  assumes g: "buddies_ok cfg g" and k: "Suc k < PAGE_NSIZES cfg" and j: "j < nblocks cfg g (Suc k)" "in_list cfg g (Suc k) j"
  shows "buddies_ok cfg (split_group cfg k j g)" "free_pages cfg (split_group cfg k j g) = free_pages cfg g"
    "in_list cfg (split_group cfg k j g) k' j' \<longleftrightarrow>
       (in_list cfg g k' j' \<and> (k' \<noteq> Suc k \<or> j' \<noteq> j)) \<or> (k' = k \<and> (j' = 2 * j \<or> j' = 2 * j + 1))"
proof -
  note g' = del_block_ok [OF g k j(2)] and new = taken_disjoint [OF g k j(2)]
  show "buddies_ok cfg (split_group cfg k j g)" "free_pages cfg (split_group cfg k j g) = free_pages cfg g"
    using add_pair_ok [OF g'(1) k, of j] j new g'(2) by (simp_all add: split_group_def)
  show "in_list cfg (split_group cfg k j g) k' j' \<longleftrightarrow>
       (in_list cfg g k' j' \<and> (k' \<noteq> Suc k \<or> j' \<noteq> j)) \<or> (k' = k \<and> (j' = 2 * j \<or> j' = 2 * j + 1))"
    unfolding split_group_def in_list_ops(2) in_list_ops(3) [OF free_once_distinct [OF buddies_okD(5) [OF g] k]] by auto
qed

lemma split_group_simps [simp]:
  "pg_baseaddr (split_group cfg k j g) = pg_baseaddr g" "pg_endaddr (split_group cfg k j g) = pg_endaddr g"
  "blk cfg (split_group cfg k j g) = blk cfg g" "nblocks cfg (split_group cfg k j g) = nblocks cfg g"
  by (simp_all add: split_group_def)

lemma split_group_head: "pg_freelist (split_group cfg k j g) k = blk cfg g k (2 * j + 1) # blk cfg g k (2 * j) # pg_freelist g k"
  by (simp add: split_group_def add_pair_def del_block_def)

lemma merged_merged_but: "merged cfg g \<Longrightarrow> merged_but cfg k j g"
  by (simp add: merged_def merged_but_def)

lemma merged_but_merged:
  assumes "merged_but cfg k i g" "\<not> (in_list cfg g k (2 * i) \<and> in_list cfg g k (2 * i + 1))"
  shows "merged cfg g"
  unfolding merged_def
proof (intro allI impI)
  fix k' j'
  assume "k' < top_order cfg"
  then show "\<not> (in_list cfg g k' (2 * j') \<and> in_list cfg g k' (2 * j' + 1))"
    using assms by (cases "(k', j') = (k, i)") (simp_all add: merged_but_def)
qed

lemma split_group_merged:
  assumes g: "buddies_ok cfg g" and k: "Suc k < PAGE_NSIZES cfg" and j: "j < nblocks cfg g (Suc k)" "in_list cfg g (Suc k) j"
    and m: "merged_but cfg (Suc k) (j div 2) g"
  shows "merged_but cfg k j (split_group cfg k j g)"
  unfolding merged_but_def split_group_ok(3) [OF g k j]
proof (intro allI impI notI)
  fix k' j'
  assume k': "k' < top_order cfg" and ne: "(k', j') \<noteq> (k, j)"
    and both: "((in_list cfg g k' (2 * j') \<and> (k' \<noteq> Suc k \<or> 2 * j' \<noteq> j)) \<or> (k' = k \<and> (2 * j' = 2 * j \<or> 2 * j' = 2 * j + 1))) \<and>
      ((in_list cfg g k' (2 * j' + 1) \<and> (k' \<noteq> Suc k \<or> 2 * j' + 1 \<noteq> j)) \<or> (k' = k \<and> (2 * j' + 1 = 2 * j \<or> 2 * j' + 1 = 2 * j + 1)))"
  have "2 * j' \<noteq> 2 * j + 1" "2 * j' + 1 \<noteq> 2 * j"
    by arith+
  then have "in_list cfg g k' (2 * j')" "in_list cfg g k' (2 * j' + 1)"
    using both ne by auto
  then have eq: "k' = Suc k" "j' = j div 2"
    using m k' by (auto simp: merged_but_def)
  then have "j = 2 * j' \<or> j = 2 * j' + 1"
    by presburger
  then show False
    using both eq(1) by auto
qed

lemma split_down_ok:
  assumes "buddies_ok cfg g" "config_ok cfg" "k + n < PAGE_NSIZES cfg" "j < nblocks cfg g (k + n)"
    "pg_freelist g (k + n) = blk cfg g (k + n) j # l" "merged_but cfg (k + n) (j div 2) g"
  shows "\<exists>g' j' l'. split_down cfg g k n = Some g' \<and> buddies_ok cfg g' \<and> free_pages cfg g' = free_pages cfg g \<and>
    pg_baseaddr g' = pg_baseaddr g \<and> pg_endaddr g' = pg_endaddr g \<and>
    j' < nblocks cfg g k \<and> pg_freelist g' k = blk cfg g k j' # l' \<and> merged_but cfg k (j' div 2) g'"
  using assms
proof (induction n arbitrary: g j l)
  case (Suc n)
  let ?g = "split_group cfg (k + n) j g"
  have k: "Suc (k + n) < PAGE_NSIZES cfg" and top: "k + n < top_order cfg"
    using Suc.prems(3) by auto
  have j: "j < nblocks cfg g (Suc (k + n))" "in_list cfg g (Suc (k + n)) j"
    using Suc.prems(4,5) by (simp_all add: in_list_def)
  have "page_split_block cfg g (Suc (k + n)) = Some ?g"
    using Suc.prems k j by (intro page_split_block_eq) auto
  moreover have "merged_but cfg (k + n) ((2 * j + 1) div 2) ?g"
    using split_group_merged [OF Suc.prems(1) k j] Suc.prems(6) by simp
  ultimately show ?case
    using Suc.IH [of ?g "2 * j + 1", OF split_group_ok(1) [OF Suc.prems(1) k j] Suc.prems(2)] k j
      nblocks_Suc [OF top, of g] split_group_ok(2) [OF Suc.prems(1) k j] by (simp add: split_group_head)
qed auto

section \<open>Joining\<close>

lemma filter_upt_single: "k < n \<Longrightarrow> (\<And>i. i < n \<Longrightarrow> P i \<longleftrightarrow> i = k) \<Longrightarrow> filter P [0..<n] = [k]"
proof (induction n)
  case (Suc n)
  then show ?case
    by (cases "k = n") (auto simp: filter_empty_conv)
qed simp

lemma list_remove_listed:
  assumes "once (free_pages cfg g)" "k < PAGE_NSIZES cfg" "a \<in> set (pg_freelist g k)"
  shows "list_remove cfg a g = Some (set_freelist k (remove1 a (pg_freelist g k)) g)"
proof -
  have "i < PAGE_NSIZES cfg \<Longrightarrow> a \<in> set (pg_freelist g i) \<longleftrightarrow> i = k" for i
    using free_once_lists [OF assms(1,2), of i a a "a div PAGE_SIZE cfg"] block_pages_nonempty assms(3) by auto
  then have "filter (\<lambda>i. a \<in> set (pg_freelist g i)) [0..<PAGE_NSIZES cfg] = [k]"
    by (rule filter_upt_single [OF assms(2)])
  then show ?thesis
    by (simp add: list_remove_def)
qed

lemma list_remove_pair:
  assumes g: "buddies_ok cfg g" and k: "k < PAGE_NSIZES cfg" and a: "in_list cfg g k a" "in_list cfg g k b" "a \<noteq> b"
  shows "(list_remove cfg (blk cfg g k a) g \<bind> list_remove cfg (blk cfg g k b)) =
    Some (set_freelist k (remove1 (blk cfg g k b) (remove1 (blk cfg g k a) (pg_freelist g k))) g)"
proof -
  let ?g = "set_freelist k (remove1 (blk cfg g k a) (pg_freelist g k)) g"
  have "once (free_pages cfg ?g)"
    using buddies_okD(5) [OF del_block_ok(1) [OF g k a(1)]] by (simp add: del_block_def)
  moreover have "blk cfg g k b \<in> set (pg_freelist ?g k)"
    using a by (simp add: in_list_def)
  ultimately show ?thesis
    using list_remove_listed [OF buddies_okD(5) [OF g] k] list_remove_listed [of cfg ?g k "blk cfg g k b"] k a(1)
    by (simp add: in_list_def)
qed

definition join_group :: "page_config \<Rightarrow> nat \<Rightarrow> nat \<Rightarrow> pagegroup \<Rightarrow> pagegroup" where
  "join_group cfg k i g = add_block cfg (Suc k) i (del_pair cfg k i g)"

lemma join_group_simps [simp]:
  "pg_baseaddr (join_group cfg k j g) = pg_baseaddr g" "pg_endaddr (join_group cfg k j g) = pg_endaddr g"
  "blk cfg (join_group cfg k j g) = blk cfg g" "nblocks cfg (join_group cfg k j g) = nblocks cfg g"
  by (simp_all add: join_group_def)

lemma join_group_ok:
  assumes g: "buddies_ok cfg g" and k: "Suc k < PAGE_NSIZES cfg" and i: "i < nblocks cfg g (Suc k)"
    and both: "in_list cfg g k (2 * i)" "in_list cfg g k (2 * i + 1)"
  shows "buddies_ok cfg (join_group cfg k i g)" "free_pages cfg (join_group cfg k i g) = free_pages cfg g"
    "in_list cfg (join_group cfg k i g) k' j' \<longleftrightarrow>
       (in_list cfg g k' j' \<and> (k' \<noteq> k \<or> (j' \<noteq> 2 * i \<and> j' \<noteq> 2 * i + 1))) \<or> (k' = Suc k \<and> j' = i)"
proof -
  note d = del_pair_ok [OF g k both]
  have new: "set_mset (block_pages cfg (Suc k) (blk cfg g (Suc k) i)) \<inter> set_mset (free_pages cfg (del_pair cfg k i g)) = {}"
    using once_plusD [of "block_pages cfg (Suc k) (blk cfg g (Suc k) i)" "free_pages cfg (del_pair cfg k i g)"]
      buddies_okD(5) [OF g] d(2) by auto
  show "buddies_ok cfg (join_group cfg k i g)" "free_pages cfg (join_group cfg k i g) = free_pages cfg g"
    using add_block_ok [OF d(1) k, of i] i new d(2) by (simp_all add: join_group_def)
  have "k < PAGE_NSIZES cfg"
    using k by simp
  then show "in_list cfg (join_group cfg k i g) k' j' \<longleftrightarrow>
       (in_list cfg g k' j' \<and> (k' \<noteq> k \<or> (j' \<noteq> 2 * i \<and> j' \<noteq> 2 * i + 1))) \<or> (k' = Suc k \<and> j' = i)"
    unfolding join_group_def in_list_ops(1) using free_once_distinct [OF buddies_okD(5) [OF g]] by (subst in_list_ops(4)) auto
qed

lemma join_group_merged:
  assumes g: "buddies_ok cfg g" and k: "Suc k < PAGE_NSIZES cfg" and i: "i < nblocks cfg g (Suc k)"
    and both: "in_list cfg g k (2 * i)" "in_list cfg g k (2 * i + 1)" and m: "merged_but cfg k i g"
  shows "merged_but cfg (Suc k) (i div 2) (join_group cfg k i g)"
  unfolding merged_but_def
proof (intro allI impI notI)
  fix k' j'
  assume k': "k' < top_order cfg" and ne: "(k', j') \<noteq> (Suc k, i div 2)"
    and b: "in_list cfg (join_group cfg k i g) k' (2 * j') \<and> in_list cfg (join_group cfg k i g) k' (2 * j' + 1)"
  have "k' = Suc k \<Longrightarrow> 2 * j' \<noteq> i \<and> 2 * j' + 1 \<noteq> i"
    using ne by auto
  then have "in_list cfg g k' (2 * j')" "in_list cfg g k' (2 * j' + 1)" "\<not> (k' = k \<and> j' = i)"
    using b unfolding join_group_ok(3) [OF g k i both] by auto
  then show False
    using m k' by (auto simp: merged_but_def)
qed

text \<open>One round of the loop: the two buddies leave their list and the joined block enters the next one.\<close>

lemma page_join_round:
  assumes g: "buddies_ok cfg g" and cfg: "config_ok cfg" and k: "k < top_order cfg" and j: "j < nblocks cfg g k"
    and both: "in_list cfg g k (2 * (j div 2))" "in_list cfg g k (2 * (j div 2) + 1)"
  shows "page_join cfg g k (blk cfg g k j) = page_join cfg (join_group cfg k (j div 2) g) (Suc k) (blk cfg g (Suc k) (j div 2))"
proof -
  define i where "i = j div 2"
  note ok = buddies_okD [OF g]
  have k': "k < PAGE_NSIZES cfg" "Suc k < PAGE_NSIZES cfg"
    using k by auto
  have i: "i < nblocks cfg g (Suc k)"
    using j nblocks_Suc [OF k, of g] by (simp add: i_def)
  note both = both [folded i_def]
  have bit: "bit_check (Suc k) i g = Some False"
    using ok(4) ok(3) [unfolded maps_ok_def, rule_format, OF k] k i both by (simp add: bits_ok_def bit_check_def)
  note index = index_pair [OF ok(1) j k cfg, folded i_def]
  have offset: "(blk cfg g k j - pg_baseaddr g) div 2 ^ PAGE_SHIFT cfg div 2 ^ k = j" "(blk cfg g k j - pg_baseaddr g) mod 2 ^ k = 0"
    by (simp_all add: blk_def shift_index(2)) (simp add: block_size_def)
  define b where "b = (if odd j then j - 1 else j + 1)"
  have b: "{j, b} = {2 * i, 2 * i + 1}" "j \<noteq> b"
    by (auto simp: b_def i_def elim!: oddE evenE)
  have buddy: "(if odd j then blk cfg g k j - block_size cfg k else blk cfg g k j + block_size cfg k) = blk cfg g k b"
    by (auto simp: b_def blk_def elim!: oddE)
  have min: "min (blk cfg g k j) (blk cfg g k b) = blk cfg g (Suc k) i"
    unfolding blk_halves(1) by (auto simp: b_def blk_def i_def min_def elim!: oddE evenE)
  have listed: "in_list cfg g k j" "in_list cfg g k b"
    using b both by (auto simp: doubleton_eq_iff)
  have "remove1 (blk cfg g k b) (remove1 (blk cfg g k j) (pg_freelist g k)) =
      remove1 (blk cfg g k (2 * i)) (remove1 (blk cfg g k (2 * i + 1)) (pg_freelist g k))"
    using b(1) by (auto simp: doubleton_eq_iff remove1_commute)
  then have removed: "(list_remove cfg (blk cfg g k j) g \<bind> list_remove cfg (blk cfg g k b)) = Some (del_pair cfg k i g)"
    using list_remove_pair [OF g k'(1) listed b(2)] by (simp add: del_pair_def)
  note ok' = buddies_okD [OF del_pair_ok(1) [OF g k'(2) both]]
  have "flip_pair cfg (Suc k) (blk cfg g (Suc k) i) (list_insert_head (Suc k) (blk cfg g (Suc k) i) (del_pair cfg k i g)) =
      Some (join_group cfg k i g)"
    using flip_pair_blk [of cfg "list_insert_head (Suc k) (blk cfg g (Suc k) i) (del_pair cfg k i g)" i "Suc k"] ok'(1,3) i cfg
    by (simp add: list_insert_head_def join_group_def add_block_def)
  with removed have "do { grp \<leftarrow> list_remove cfg (blk cfg g k j) g; grp \<leftarrow> list_remove cfg (blk cfg g k b) grp;
      flip_pair cfg (Suc k) (blk cfg g (Suc k) i) (list_insert_head (Suc k) (blk cfg g (Suc k) i) grp) } = Some (join_group cfg k i g)"
    by (cases "list_remove cfg (blk cfg g k j) g") auto
  then show ?thesis
    using k by (subst page_join.simps) (simp add: index bit offset buddy min Let_def flip: i_def)
qed

lemma page_join_ok:
  assumes "buddies_ok cfg g" "config_ok cfg" "k < PAGE_NSIZES cfg" "j < nblocks cfg g k" "in_list cfg g k j" "merged_but cfg k (j div 2) g"
  shows "\<exists>g'. page_join cfg g k (blk cfg g k j) = Some g' \<and> buddies_ok cfg g' \<and> free_pages cfg g' = free_pages cfg g \<and>
    pg_baseaddr g' = pg_baseaddr g \<and> pg_endaddr g' = pg_endaddr g \<and> merged cfg g'"
  using assms
proof (induction "top_order cfg - k" arbitrary: g k j)
  case 0
  then have k: "\<not> k < top_order cfg"
    by simp
  then have "page_join cfg g k (blk cfg g k j) = Some g"
    by (subst page_join.simps) simp
  moreover have "merged cfg g"
    using k 0(7) by (auto simp: merged_def merged_but_def)
  ultimately show ?case
    using 0 by auto
next
  case (Suc n)
  note ok = buddies_okD [OF Suc.prems(1)]
  have k: "k < top_order cfg" "Suc k < PAGE_NSIZES cfg"
    using Suc.hyps(2) by auto
  have i: "j div 2 < nblocks cfg g (Suc k)"
    using Suc.prems(4) nblocks_Suc [OF k(1), of g] by simp
  show ?case
  proof (cases "in_list cfg g k (2 * (j div 2)) \<and> in_list cfg g k (2 * (j div 2) + 1)")
    case True
    then have both: "in_list cfg g k (2 * (j div 2))" "in_list cfg g k (2 * (j div 2) + 1)"
      by auto
    let ?g = "join_group cfg k (j div 2) g"
    note ok' = join_group_ok [OF Suc.prems(1) k(2) i both]
    have "n = top_order cfg - Suc k"
      using Suc.hyps(2) by simp
    moreover have "merged_but cfg (Suc k) (j div 2 div 2) ?g"
      by (rule join_group_merged [OF Suc.prems(1) k(2) i both Suc.prems(6)])
    ultimately have "\<exists>g'. page_join cfg ?g (Suc k) (blk cfg ?g (Suc k) (j div 2)) = Some g' \<and> buddies_ok cfg g' \<and>
        free_pages cfg g' = free_pages cfg ?g \<and> pg_baseaddr g' = pg_baseaddr ?g \<and> pg_endaddr g' = pg_endaddr ?g \<and> merged cfg g'"
      using ok' i k(2) Suc.prems(2) by (intro Suc.hyps(1)) simp_all
    then show ?thesis
      unfolding page_join_round [OF Suc.prems(1,2) k(1) Suc.prems(4) both] by (simp add: ok'(2))
  next
    case False
    have "in_list cfg g k (2 * (j div 2)) \<or> in_list cfg g k (2 * (j div 2) + 1)"
    proof (cases "even j")
      case True
      then have "2 * (j div 2) = j"
        by simp
      then show ?thesis
        using Suc.prems(5) by (simp only: simp_thms)
    next
      case False
      then have "2 * (j div 2) + 1 = j"
        by simp
      then show ?thesis
        using Suc.prems(5) by (simp only: simp_thms)
    qed
    then have "pg_map g (Suc k) ! (j div 2)"
      using ok(4) [unfolded bits_ok_def, rule_format, OF k(1) i] False by blast
    then have "page_join cfg g k (blk cfg g k j) = Some g"
      using k(1) index_pair [OF ok(1) Suc.prems(4) k(1) Suc.prems(2)] ok(3) [unfolded maps_ok_def, rule_format, OF k(1)] i
      by (subst page_join.simps) (simp add: bit_check_def)
    moreover have "merged cfg g"
      using Suc.prems(6) False by (rule merged_but_merged)
    ultimately show ?thesis
      using Suc.prems by auto
  qed
qed

end
