(* ===== verification/Pages_Alloc.thy ===== *)
theory Pages_Alloc
  imports Pages_Inv
begin

text \<open>
  The allocator of pages as a whole: what allocating and freeing do to the free pages of all groups, and
  what that means for clients that hold blocks.
\<close>

section \<open>The groups together\<close>

definition apart :: "pagegroup \<Rightarrow> pagegroup \<Rightarrow> bool" where
  "apart g h \<longleftrightarrow> pg_endaddr g \<le> pg_baseaddr h \<or> pg_endaddr h \<le> pg_baseaddr g"

definition pages_inv :: "page_config \<Rightarrow> page_state \<Rightarrow> bool" where
  "pages_inv cfg s \<longleftrightarrow> (\<forall>g\<in>set (pagegroup_list s). buddies_ok cfg g \<and> merged cfg g) \<and> sorted_wrt apart (pagegroup_list s)"

definition all_free :: "page_config \<Rightarrow> page_state \<Rightarrow> nat multiset" where
  "all_free cfg s = sum_list (map (free_pages cfg) (pagegroup_list s))"

text \<open>Where the groups are.\<close>

definition layout :: "page_state \<Rightarrow> (addr \<times> addr) list" where
  "layout s = map (\<lambda>g. (pg_baseaddr g, pg_endaddr g)) (pagegroup_list s)"

definition valid_block :: "page_config \<Rightarrow> page_state \<Rightarrow> nat \<Rightarrow> addr \<Rightarrow> bool" where
  "valid_block cfg s k a \<longleftrightarrow> (\<exists>g\<in>set (pagegroup_list s). \<exists>j<nblocks cfg g k. a = blk cfg g k j)"

lemma sum_list_update_mset: "i < length xs \<Longrightarrow> sum_list (xs[i := x]) + xs ! i = sum_list xs + (x :: 'a multiset)"
proof (induction xs arbitrary: i)
  case (Cons y ys)
  then show ?case
    by (cases i) (auto simp: ac_simps)
qed simp

lemma all_free_put:
  assumes "i < length (pagegroup_list s)"
  shows "all_free cfg (put_group i g s) + free_pages cfg (pagegroup_list s ! i) = all_free cfg s + free_pages cfg g"
  using sum_list_update_mset [of i "map (free_pages cfg) (pagegroup_list s)" "free_pages cfg g"] assms
  by (simp add: all_free_def put_group_def map_update)

lemma all_free_freecount [simp]: "all_free cfg (s\<lparr>page_freecount := n\<rparr>) = all_free cfg s"
  by (simp add: all_free_def)

lemma pages_inv_freecount [simp]: "pages_inv cfg (s\<lparr>page_freecount := n\<rparr>) = pages_inv cfg s"
  by (simp add: pages_inv_def)

lemma layout_freecount [simp]: "layout (s\<lparr>page_freecount := n\<rparr>) = layout s"
  by (simp add: layout_def)

lemma layout_put:
  assumes "i < length (pagegroup_list s)" "pg_baseaddr g = pg_baseaddr (pagegroup_list s ! i)" "pg_endaddr g = pg_endaddr (pagegroup_list s ! i)"
  shows "layout (put_group i g s) = layout s"
  using assms by (auto simp: layout_def put_group_def map_update intro!: list_update_same_conv [THEN iffD2])

lemma sorted_wrt_layout: "sorted_wrt apart (pagegroup_list s) \<longleftrightarrow> sorted_wrt (\<lambda>(b, e) (b', e'). e \<le> b' \<or> e' \<le> b) (layout s)"
  by (simp add: layout_def sorted_wrt_map apart_def [abs_def])

lemma pages_inv_put:
  assumes "pages_inv cfg s" "i < length (pagegroup_list s)" "pg_baseaddr g = pg_baseaddr (pagegroup_list s ! i)"
    "pg_endaddr g = pg_endaddr (pagegroup_list s ! i)" "buddies_ok cfg g" "merged cfg g"
  shows "pages_inv cfg (put_group i g s)"
  using assms layout_put [OF assms(2-4)] set_update_subset_insert [of "pagegroup_list s" i g]
  unfolding pages_inv_def sorted_wrt_layout by (auto simp: put_group_def)

lemma valid_block_layout: "valid_block cfg s k a \<longleftrightarrow> (\<exists>(b, e)\<in>set (layout s).
    \<exists>j<(e - b) div block_size cfg (top_order cfg) * 2 ^ (top_order cfg - k). a = b + j * block_size cfg k)"
  by (auto simp: valid_block_def layout_def nblocks_def blk_def)

lemma valid_block_cong: "layout s' = layout s \<Longrightarrow> valid_block cfg s' k a = valid_block cfg s k a"
  by (simp add: valid_block_layout)

lemma pages_invD: "pages_inv cfg s \<Longrightarrow> i < length (pagegroup_list s) \<Longrightarrow> buddies_ok cfg (pagegroup_list s ! i) \<and> merged cfg (pagegroup_list s ! i)"
  by (simp add: pages_inv_def)

section \<open>Every page is free at most once\<close>

lemma page_in_block:
  assumes "base_ok cfg g" "j < nblocks cfg g k" "k \<le> top_order cfg" "p \<in># block_pages cfg k (blk cfg g k j)"
  shows "pg_baseaddr g \<le> p * PAGE_SIZE cfg \<and> p * PAGE_SIZE cfg < pg_endaddr g"
proof -
  define b where "b = pg_baseaddr g div PAGE_SIZE cfg"
  have b: "pg_baseaddr g = b * PAGE_SIZE cfg"
    using assms(1) by (auto simp: base_ok_def b_def)
  have p: "b + j * 2 ^ k \<le> p" "p < b + j * 2 ^ k + 2 ^ k"
    using assms(4) blk_page [OF assms(1), of k j] by (auto simp: block_pages_def b_def)
  have "p * PAGE_SIZE cfg < (b + j * 2 ^ k + 2 ^ k) * PAGE_SIZE cfg"
    using p(2) by (simp add: PAGE_SIZE_def)
  also have "\<dots> = blk cfg g k j + block_size cfg k"
    by (simp add: blk_def block_size_pages b algebra_simps)
  also have "\<dots> \<le> pg_endaddr g"
    by (rule blk_before_end [OF assms(2,3,1)])
  finally show ?thesis
    using p(1) by (simp add: b)
qed

lemma free_pages_elim:
  assumes "p \<in># free_pages cfg g" "lists_ok cfg g"
  obtains k j where "k < PAGE_NSIZES cfg" "j < nblocks cfg g k" "in_list cfg g k j" "p \<in># block_pages cfg k (blk cfg g k j)"
proof -
  obtain k where k: "k < PAGE_NSIZES cfg" "p \<in># (\<Sum>a\<in>#mset (pg_freelist g k). block_pages cfg k a)"
    using assms(1) unfolding free_pages_def by (auto simp: set_mset_sum)
  then obtain a where a: "a \<in> set (pg_freelist g k)" "p \<in># block_pages cfg k a"
    by auto
  then obtain j where "j < nblocks cfg g k" "a = blk cfg g k j"
    using lists_okD [OF assms(2) k(1)] by blast
  then show thesis
    using that k(1) a by (simp add: in_list_def)
qed

lemma page_in_group:
  assumes "buddies_ok cfg g" "p \<in># free_pages cfg g"
  shows "pg_baseaddr g \<le> p * PAGE_SIZE cfg \<and> p * PAGE_SIZE cfg < pg_endaddr g"
proof -
  obtain k j where "k < PAGE_NSIZES cfg" "j < nblocks cfg g k" "p \<in># block_pages cfg k (blk cfg g k j)"
    using free_pages_elim [OF assms(2) buddies_okD(2) [OF assms(1)]] .
  then show ?thesis
    using page_in_block [OF buddies_okD(1) [OF assms(1)], of j k p] by simp
qed

lemma apart_free:
  assumes "buddies_ok cfg g" "buddies_ok cfg h" "apart g h"
  shows "set_mset (free_pages cfg g) \<inter> set_mset (free_pages cfg h) = {}"
  using page_in_group [OF assms(1)] page_in_group [OF assms(2)] assms(3) unfolding apart_def by fastforce

lemma once_groups: "\<forall>g\<in>set gs. buddies_ok cfg g \<Longrightarrow> sorted_wrt apart gs \<Longrightarrow> once (sum_list (map (free_pages cfg) gs))"
proof (induction gs)
  case (Cons g gs)
  have "set_mset (free_pages cfg g) \<inter> set_mset (sum_list (map (free_pages cfg) gs)) = {}"
    using Cons.prems apart_free [of cfg g] by (fastforce simp: set_mset_sum_list)
  then show ?case
    using Cons buddies_okD(5) [of cfg g] by (auto intro!: once_plusI)
qed (simp add: once_def)

lemma once_all_free: "pages_inv cfg s \<Longrightarrow> once (all_free cfg s)"
  using once_groups [of "pagegroup_list s" cfg] by (simp add: pages_inv_def all_free_def)

section \<open>Looking for a group\<close>

lemma first_group_Some: "first_group P gs = Some i \<Longrightarrow> i < length gs \<and> P (gs ! i)"
  by (induction gs arbitrary: i) (auto split: if_splits)

lemma first_group_None: "first_group P gs = None \<longleftrightarrow> (\<forall>g\<in>set gs. \<not> P g)"
  by (induction gs) auto

lemma find_bigger_Some: "find_bigger gs ks = Some (k, i) \<Longrightarrow> k \<in> set ks \<and> i < length gs \<and> pg_freelist (gs ! i) k \<noteq> []"
  by (induction ks) (auto split: option.splits dest: first_group_Some)

lemma find_bigger_None: "find_bigger gs ks = None \<longleftrightarrow> (\<forall>k\<in>set ks. \<forall>g\<in>set gs. pg_freelist g k = [])"
  by (induction ks) (auto split: option.splits simp: first_group_None dest!: first_group_Some intro: bexI [OF _ nth_mem])

lemma from_address:
  assumes s: "pages_inv cfg s" and g: "g \<in> set (pagegroup_list s)" and a: "pg_baseaddr g \<le> a" "a < pg_endaddr g"
  shows "\<exists>i<length (pagegroup_list s). pagegroup_from_address a s = Some i \<and> pagegroup_list s ! i = g"
proof -
  let ?in = "\<lambda>h. pg_baseaddr h \<le> a \<and> a < pg_endaddr h"
  obtain i where i: "pagegroup_from_address a s = Some i" "i < length (pagegroup_list s)" "?in (pagegroup_list s ! i)"
    using g a first_group_None [of ?in "pagegroup_list s"] first_group_Some [of ?in "pagegroup_list s"]
    unfolding pagegroup_from_address_def by (cases "first_group ?in (pagegroup_list s)") auto
  obtain j where j: "j < length (pagegroup_list s)" "g = pagegroup_list s ! j"
    using g by (auto simp: in_set_conv_nth)
  have "i = j"
    using s i(2,3) j a sorted_wrt_nth_less [of apart "pagegroup_list s" i j] sorted_wrt_nth_less [of apart "pagegroup_list s" j i]
    unfolding pages_inv_def apart_def by (cases i j rule: linorder_cases) auto
  then show ?thesis
    using i j by auto
qed

section \<open>Taking a block\<close>

lemma lists_head:
  assumes "buddies_ok cfg g" "k < PAGE_NSIZES cfg" "pg_freelist g k \<noteq> []"
  obtains j l where "j < nblocks cfg g k" "pg_freelist g k = blk cfg g k j # l"
  using assms(3) lists_okD [OF buddies_okD(2) [OF assms(1)] assms(2)] by (cases "pg_freelist g k") auto

text \<open>A step of the allocator keeps the invariant, the groups, and the difference between the count and the number of free pages.\<close>

definition steady :: "page_config \<Rightarrow> page_state \<Rightarrow> page_state \<Rightarrow> bool" where
  "steady cfg s s' \<longleftrightarrow> pages_inv cfg s' \<and> layout s' = layout s \<and>
     page_freecount s' - int (size (all_free cfg s')) = page_freecount s - int (size (all_free cfg s))"

lemma steady_trans: "steady cfg s s' \<Longrightarrow> steady cfg s' s'' \<Longrightarrow> steady cfg s s''"
  by (simp add: steady_def)

definition handed_out :: "page_config \<Rightarrow> nat \<Rightarrow> page_state \<Rightarrow> addr \<Rightarrow> page_state \<Rightarrow> bool" where
  "handed_out cfg k s a s' \<longleftrightarrow> steady cfg s s' \<and> valid_block cfg s k a \<and> a \<noteq> NULL \<and> all_free cfg s = block_pages cfg k a + all_free cfg s'"

lemma del_block_merged:
  assumes g: "buddies_ok cfg g" and k: "k < PAGE_NSIZES cfg" and m: "merged_but cfg k (j div 2) g"
  shows "merged cfg (del_block cfg k j g)"
proof -
  note eq = in_list_ops(3) [OF free_once_distinct [OF buddies_okD(5) [OF g] k]]
  have "2 * (j div 2) = j \<or> 2 * (j div 2) + 1 = j"
    by presburger
  then have "\<not> (in_list cfg (del_block cfg k j g) k (2 * (j div 2)) \<and> in_list cfg (del_block cfg k j g) k (2 * (j div 2) + 1))"
    by (auto simp: eq)
  moreover have "merged_but cfg k (j div 2) (del_block cfg k j g)"
    using m unfolding merged_but_def eq by blast
  ultimately show ?thesis
    by (rule merged_but_merged [rotated])
qed

text \<open>Taking the first block of a list, from a group that may just have been split.\<close>

lemma take_block_ok:
  assumes s: "pages_inv cfg s" and i: "i < length (pagegroup_list s)" and cfg: "config_ok cfg" and k: "k < PAGE_NSIZES cfg"
    and g: "buddies_ok cfg g" "pg_baseaddr g = pg_baseaddr (pagegroup_list s ! i)" "pg_endaddr g = pg_endaddr (pagegroup_list s ! i)"
      "free_pages cfg g = free_pages cfg (pagegroup_list s ! i)"
    and j: "j < nblocks cfg g k" "pg_freelist g k = blk cfg g k j # l" "merged_but cfg k (j div 2) g"
  shows "\<exists>s'. take_block cfg k i (put_group i g s) = Some (blk cfg g k j, s') \<and> handed_out cfg k s (blk cfg g k j) s'"
proof -
  let ?g = "del_block cfg k j g"
  let ?s = "(put_group i ?g s)\<lparr>page_freecount := page_freecount s - 2 ^ k\<rparr>"
  note ok = buddies_okD [OF g(1)]
  have listed: "in_list cfg g k j"
    using j(2) by (simp add: in_list_def)
  note d = del_block_ok [OF g(1) k listed]
  have "flip_pair cfg k (blk cfg g k j) (set_freelist k l g) = Some ?g"
    using flip_pair_blk [of cfg "set_freelist k l g" j k] ok cfg j by (simp add: del_block_def)
  then have "take_block cfg k i (put_group i g s) = Some (blk cfg g k j, ?s)"
    using i j(2) by (simp add: take_block_def put_group_def Let_def)
  moreover have all: "all_free cfg s = block_pages cfg k (blk cfg g k j) + all_free cfg ?s"
    using all_free_put [OF i, of cfg ?g] d(2) g(4) by (simp add: ac_simps)
  have "pages_inv cfg ?s" "layout ?s = layout s"
    using pages_inv_put [OF s i _ _ d(1) del_block_merged [OF g(1) k j(3)]] layout_put [OF i, of ?g] g(2,3) by simp_all
  then have "steady cfg s ?s"
    by (simp add: steady_def all put_group_def)
  moreover have "blk cfg g = blk cfg (pagegroup_list s ! i)" "nblocks cfg g = nblocks cfg (pagegroup_list s ! i)"
    using g(2,3) by (auto simp: blk_def nblocks_def fun_eq_iff)
  then have "valid_block cfg s k (blk cfg g k j)"
    using i j(1) by (auto simp: valid_block_def intro!: bexI [of _ "pagegroup_list s ! i"])
  moreover have "blk cfg g k j \<noteq> NULL"
    using blk_in_range(3) [OF j(1) _ ok(1)] k by simp
  ultimately show ?thesis
    using all by (auto simp: handed_out_def)
qed

lemma put_group_same [simp]: "put_group i (pagegroup_list s ! i) s = s"
  by (simp add: put_group_def)

section \<open>Allocating\<close>

text \<open>
  Giving pages back: what the allocator relies on when it asks the slab allocators to release pages.  They free blocks that they had
  allocated, so the invariant is kept, and pages become free that were theirs.
\<close>

definition gained :: "page_config \<Rightarrow> nat set \<Rightarrow> page_state \<Rightarrow> nat multiset \<Rightarrow> bool" where
  "gained cfg slabs s M \<longleftrightarrow> (\<exists>R. M = all_free cfg s + R \<and> set_mset R \<subseteq> slabs)"

lemma gained_refl: "gained cfg slabs s (all_free cfg s)"
  by (auto simp: gained_def intro!: exI [of _ "{#}"])

lemma gained_trans: "gained cfg slabs s (all_free cfg s') \<Longrightarrow> gained cfg slabs s' M \<Longrightarrow> gained cfg slabs s M"
  unfolding gained_def by (metis add.assoc set_mset_union Un_subset_iff)

definition reclaim_ok :: "page_config \<Rightarrow> nat set \<Rightarrow> (page_state \<Rightarrow> page_state) \<Rightarrow> bool" where
  "reclaim_ok cfg slabs reclaim \<longleftrightarrow> (\<forall>s. pages_inv cfg s \<longrightarrow> steady cfg s (reclaim s) \<and> gained cfg slabs s (all_free cfg (reclaim s)))"

text \<open>No list of at least the order has a block.\<close>

definition none_bigger :: "page_config \<Rightarrow> nat \<Rightarrow> page_state \<Rightarrow> bool" where
  "none_bigger cfg k s \<longleftrightarrow> (\<forall>g\<in>set (pagegroup_list s). \<forall>k'\<in>{k..<PAGE_NSIZES cfg}. pg_freelist g k' = [])"

lemma take_first:
  assumes s: "pages_inv cfg s" and cfg: "config_ok cfg" and k: "k < PAGE_NSIZES cfg"
    and i: "i < length (pagegroup_list s)" "pg_freelist (pagegroup_list s ! i) k \<noteq> []"
  shows "\<exists>a s'. take_block cfg k i s = Some (a, s') \<and> handed_out cfg k s a s'"
proof -
  note g = conjunct1 [OF pages_invD [OF s i(1)]] and m = conjunct2 [OF pages_invD [OF s i(1)]]
  obtain j l where j: "j < nblocks cfg (pagegroup_list s ! i) k" "pg_freelist (pagegroup_list s ! i) k = blk cfg (pagegroup_list s ! i) k j # l"
    using lists_head [OF g k i(2)] .
  then show ?thesis
    using take_block_ok [OF s i(1) cfg k g refl refl refl j merged_merged_but [OF m]] by auto
qed

text \<open>A larger block is split and its last part taken.\<close>

lemma split_take:
  assumes s: "pages_inv cfg s" and cfg: "config_ok cfg"
    and f: "find_bigger (pagegroup_list s) [k + 1..<PAGE_NSIZES cfg] = Some (n, i)"
  shows "\<exists>g a s'. split_down cfg (pagegroup_list s ! i) k (n - k) = Some g \<and> i < length (pagegroup_list s) \<and> pg_freelist g k \<noteq> [] \<and>
    take_block cfg k i (put_group i g s) = Some (a, s') \<and> handed_out cfg k s a s'"
proof -
  let ?g = "pagegroup_list s ! i"
  have n: "k < n" "n < PAGE_NSIZES cfg" and i: "i < length (pagegroup_list s)" "pg_freelist ?g n \<noteq> []"
    using find_bigger_Some [OF f] by auto
  note g = conjunct1 [OF pages_invD [OF s i(1)]] and m = conjunct2 [OF pages_invD [OF s i(1)]]
  obtain j l where j: "j < nblocks cfg ?g n" "pg_freelist ?g n = blk cfg ?g n j # l"
    using lists_head [OF g n(2) i(2)] .
  have nk: "k + (n - k) = n" and k: "k < PAGE_NSIZES cfg"
    using n by auto
  obtain g' j' l' where g': "split_down cfg ?g k (n - k) = Some g'" "buddies_ok cfg g'" "free_pages cfg g' = free_pages cfg ?g"
      "pg_baseaddr g' = pg_baseaddr ?g" "pg_endaddr g' = pg_endaddr ?g" "j' < nblocks cfg ?g k" "pg_freelist g' k = blk cfg ?g k j' # l'"
      "merged_but cfg k (j' div 2) g'"
    using split_down_ok [of cfg ?g k "n - k" j l, unfolded nk, OF g cfg n(2) j merged_merged_but [OF m]] by blast
  have "blk cfg ?g = blk cfg g'" "nblocks cfg ?g = nblocks cfg g'"
    using g'(4,5) by (auto simp: blk_def nblocks_def fun_eq_iff)
  then show ?thesis
    using take_block_ok [OF s i(1) cfg k g'(2,4,5,3) _ _ g'(8), of l'] g'(1,6,7) i(1) by auto
qed

text \<open>
  The outcome of an allocation: no block, and then there was none of the order or larger; or a valid block of
  pages that were free or have been given back, and pages are only given back when no list had a block.
\<close>

definition alloc_result :: "page_config \<Rightarrow> nat set \<Rightarrow> nat \<Rightarrow> page_state \<Rightarrow> addr \<Rightarrow> page_state \<Rightarrow> bool" where
  "alloc_result cfg slabs k s a s' \<longleftrightarrow> steady cfg s s' \<and>
     (if a = NULL then none_bigger cfg k s \<and> gained cfg slabs s (all_free cfg s')
      else valid_block cfg s k a \<and> gained cfg (if none_bigger cfg k s then slabs else {}) s (block_pages cfg k a + all_free cfg s'))"

lemma handed_out_gained: "handed_out cfg k s a s' \<Longrightarrow> gained cfg slabs s (block_pages cfg k a + all_free cfg s')"
  using gained_refl [of cfg slabs s] by (simp add: handed_out_def)

lemma handed_out_result: "handed_out cfg k s a s' \<Longrightarrow> alloc_result cfg slabs k s a s'"
  using handed_out_gained [of cfg k s a s'] by (auto simp: alloc_result_def handed_out_def)

definition split_result :: "page_config \<Rightarrow> nat set \<Rightarrow> nat \<Rightarrow> page_state \<Rightarrow> nat option \<Rightarrow> page_state \<Rightarrow> bool" where
  "split_result cfg slabs k s r s1 \<longleftrightarrow>
     (case r of
        None \<Rightarrow> steady cfg s s1 \<and> gained cfg slabs s (all_free cfg s1)
      | Some i \<Rightarrow> pg_freelist (pagegroup_list s1 ! i) k \<noteq> [] \<and>
          (\<exists>a s'. take_block cfg k i s1 = Some (a, s') \<and> steady cfg s s' \<and> valid_block cfg s k a \<and> a \<noteq> NULL \<and>
             gained cfg slabs s (block_pages cfg k a + all_free cfg s')))"

lemma split_result_more:
  assumes "steady cfg s s0" "gained cfg slabs s (all_free cfg s0)" "split_result cfg slabs k s0 r s1"
  shows "split_result cfg slabs k s r s1"
  using assms(3) steady_trans [OF assms(1)] gained_trans [OF assms(2)] valid_block_cong [of s0 s cfg k] assms(1)
  unfolding split_result_def steady_def [of cfg s s0] by (cases r) (simp, fastforce)

lemma split_result_taken:
  "pg_freelist (pagegroup_list s1 ! i) k \<noteq> [] \<Longrightarrow> take_block cfg k i s1 = Some (a, s') \<Longrightarrow> handed_out cfg k s a s' \<Longrightarrow>
   split_result cfg slabs k s (Some i) s1"
  using handed_out_gained [of cfg k s a s' slabs] by (auto simp: split_result_def handed_out_def)

lemma find_bigger_result:
  assumes s: "pages_inv cfg s" and cfg: "config_ok cfg"
    and f: "find_bigger (pagegroup_list s) [k + 1..<PAGE_NSIZES cfg] = Some (n, i)"
  shows "\<exists>a s1 s'. page_split cfg reclaim m k s = Some (Some i, s1) \<and> pg_freelist (pagegroup_list s1 ! i) k \<noteq> [] \<and>
    take_block cfg k i s1 = Some (a, s') \<and> handed_out cfg k s a s'"
  using split_take [OF s cfg f] by (subst page_split.simps) (auto simp: f [simplified] put_group_def)

lemma page_split_ok:
  assumes "pages_inv cfg s" "config_ok cfg" "reclaim_ok cfg slabs reclaim"
  shows "\<exists>r s1. page_split cfg reclaim m k s = Some (r, s1) \<and> split_result cfg slabs k s r s1"
  using assms(1)
proof (induction m arbitrary: s)
  case 0
  show ?case
  proof (cases "find_bigger (pagegroup_list s) [k + 1..<PAGE_NSIZES cfg]")
    case None
    then show ?thesis
      using assms(3) 0 by (subst page_split.simps) (auto simp: reclaim_ok_def split_result_def)
  next
    case (Some p)
    then show ?thesis
      using find_bigger_result [OF 0 assms(2), of k "fst p" "snd p" reclaim 0] split_result_taken by fastforce
  qed
next
  case (Suc m)
  show ?case
  proof (cases "find_bigger (pagegroup_list s) [k + 1..<PAGE_NSIZES cfg]")
    case None
    have r: "steady cfg s (reclaim s)" "gained cfg slabs s (all_free cfg (reclaim s))"
      using assms(3) Suc.prems by (auto simp: reclaim_ok_def)
    have "page_split cfg reclaim (Suc m) k s = page_split cfg reclaim m k (reclaim s)"
      using None by (subst page_split.simps) simp
    then show ?thesis
      using Suc.IH [of "reclaim s"] r split_result_more [OF r] by (auto simp: steady_def)
  next
    case (Some p)
    then show ?thesis
      using find_bigger_result [OF Suc.prems assms(2), of k "fst p" "snd p" reclaim "Suc m"] split_result_taken by fastforce
  qed
qed

lemma page_alloc_order_result:
  assumes s: "pages_inv cfg s" and cfg: "config_ok cfg" and r: "reclaim_ok cfg slabs reclaim" and k: "k < PAGE_NSIZES cfg"
  shows "\<exists>a s'. page_alloc_order cfg reclaim retrys k s = Some (a, s') \<and> alloc_result cfg slabs k s a s'"
proof (cases "first_group (\<lambda>g. pg_freelist g k \<noteq> []) (pagegroup_list s)")
  case (Some i)
  then show ?thesis
    using take_first [OF s cfg k] first_group_Some [OF Some] handed_out_result by (fastforce simp: page_alloc_order_def)
next
  case None
  show ?thesis
  proof (cases "find_bigger (pagegroup_list s) [k + 1..<PAGE_NSIZES cfg]")
    case (Some p)
    then show ?thesis
      using None find_bigger_result [OF s cfg, of k "fst p" "snd p" reclaim retrys] handed_out_result
      by (fastforce simp: page_alloc_order_def)
  next
    case no: None
    have "{k..<PAGE_NSIZES cfg} = insert k (set [k + 1..<PAGE_NSIZES cfg])"
      using k by auto
    then have "none_bigger cfg k s"
      using None no unfolding first_group_None find_bigger_None none_bigger_def by auto
    moreover obtain x s1 where x: "page_split cfg reclaim retrys k s = Some (x, s1)" "split_result cfg slabs k s x s1"
      using page_split_ok [OF s cfg r] by blast
    ultimately show ?thesis
    proof (cases x)
      case (Some i)
      then obtain a s' where "take_block cfg k i s1 = Some (a, s')" "alloc_result cfg slabs k s a s'"
        using x(2) \<open>none_bigger cfg k s\<close> by (auto simp: split_result_def alloc_result_def)
      then show ?thesis
        using None Some x by (simp add: page_alloc_order_def split_result_def)
    qed (use None x in \<open>auto simp: page_alloc_order_def split_result_def alloc_result_def\<close>)
  qed
qed

section \<open>Freeing\<close>

lemma free_pages_sub: "g \<in> set (pagegroup_list s) \<Longrightarrow> free_pages cfg g \<subseteq># all_free cfg s"
proof -
  have "g \<in> set gs \<Longrightarrow> free_pages cfg g \<subseteq># sum_list (map (free_pages cfg) gs)" for gs
    by (induction gs) (auto intro: subset_mset.order_trans)
  then show "g \<in> set (pagegroup_list s) \<Longrightarrow> free_pages cfg g \<subseteq># all_free cfg s"
    by (simp add: all_free_def)
qed

lemma page_free_order_result:
  assumes s: "pages_inv cfg s" and cfg: "config_ok cfg" and k: "k < PAGE_NSIZES cfg" and a: "valid_block cfg s k a"
    and held: "set_mset (block_pages cfg k a) \<inter> set_mset (all_free cfg s) = {}"
  shows "\<exists>s'. page_free_order cfg a k s = Some s' \<and> steady cfg s s' \<and> all_free cfg s' = block_pages cfg k a + all_free cfg s"
proof -
  obtain g j where g: "g \<in> set (pagegroup_list s)" and j: "j < nblocks cfg g k" "a = blk cfg g k j"
    using a by (auto simp: valid_block_def)
  have ok: "buddies_ok cfg g" "merged cfg g"
    using s g by (auto simp: pages_inv_def)
  note range = blk_in_range [OF j(1) _ buddies_okD(1) [OF ok(1)]]
  obtain i where i: "i < length (pagegroup_list s)" "pagegroup_from_address a s = Some i" "pagegroup_list s ! i = g"
    using from_address [OF s g, of a] range k j(2) by auto
  have new: "set_mset (block_pages cfg k (blk cfg g k j)) \<inter> set_mset (free_pages cfg g) = {}"
    using held j(2) mset_subset_eqD [OF free_pages_sub [OF g, of cfg]] by auto
  let ?g = "add_block cfg k j g"
  note add = add_block_ok [OF ok(1) k j(1) new]
  have flip: "flip_pair cfg k a (list_insert_head k a g) = Some ?g"
    using flip_pair_blk [of cfg "list_insert_head k a g" j k] buddies_okD [OF ok(1)] cfg j
    by (simp add: list_insert_head_def add_block_def)
  have listed: "in_list cfg ?g k j" and m: "merged_but cfg k (j div 2) ?g"
    using ok(2) by (auto simp: in_list_ops merged_def merged_but_def)
  obtain g' where g': "page_join cfg ?g k a = Some g'" "buddies_ok cfg g'" "free_pages cfg g' = free_pages cfg ?g"
      "pg_baseaddr g' = pg_baseaddr g" "pg_endaddr g' = pg_endaddr g" "merged cfg g'"
    using page_join_ok [OF add(1) cfg k _ listed m] j by auto
  let ?s = "(put_group i g' s)\<lparr>page_freecount := page_freecount s + 2 ^ k\<rparr>"
  have "(if k < PAGE_NSIZES cfg - 1 then do { grp \<leftarrow> flip_pair cfg k a (list_insert_head k a g); page_join cfg grp k a }
      else Some (list_insert_head k a g)) = Some g'"
  proof (cases "k < PAGE_NSIZES cfg - 1")
    case False
    then have "list_insert_head k a g = ?g" "page_join cfg ?g k a = Some ?g"
      using flip by (simp_all add: flip_pair_def page_join.simps)
    then show ?thesis
      using False g'(1) by simp
  qed (simp add: flip g'(1))
  then have "page_free_order cfg a k s = Some ?s"
    using i by (simp add: page_free_order_def)
  moreover have all: "all_free cfg ?s = block_pages cfg k a + all_free cfg s"
    using all_free_put [OF i(1), of cfg g'] i(3) g'(3) add(2) j(2) by (simp add: ac_simps)
  moreover have "steady cfg s ?s"
    using pages_inv_put [OF s i(1) _ _ g'(2,6)] layout_put [OF i(1), of g'] i(3) g'(4,5) unfolding steady_def all by simp
  ultimately show ?thesis
    by blast
qed

end
