(* ===== verification/Pages_Use.thy ===== *)
theory Pages_Use
  imports Pages_Alloc
begin

text \<open>
  What the allocator of pages promises: setting up a range, the blocks that clients hold, and when an allocation can fail.
\<close>

section \<open>Setting up a range\<close>

lemma cut_off_append: "cut_off cfg n (ks @ ls) e = cut_off cfg n ls (cut_off cfg n ks e)"
  by (induction ks arbitrary: e) auto

lemma cut_off_eq: "cut_off cfg n [0..<t] e = e - (n mod 2 ^ t) * PAGE_SIZE cfg"
proof (induction t)
  case (Suc t)
  have "n mod 2 ^ Suc t = n mod 2 ^ t + (if odd (n div 2 ^ t) then 2 ^ t else 0)"
    using mod_mult2_eq [of n "2 ^ t" 2] by (auto simp: ac_simps odd_iff_mod_2_eq_one)
  then show ?case
    using Suc by (auto simp: cut_off_append block_size_pages algebra_simps)
qed simp

lemma fill_list_eq: "fill_list cfg k c (c + n * block_size cfg k) l = rev (map (\<lambda>i. c + i * block_size cfg k) [0..<n]) @ l"
proof (induction n arbitrary: c l)
  case (Suc n)
  have "map (\<lambda>i. c + i * block_size cfg k) [0..<Suc n] = c # map (\<lambda>i. c + block_size cfg k + i * block_size cfg k) [0..<n]"
    by (subst upt_conv_Cons) (auto simp: map_Suc_upt [symmetric] simp del: upt_Suc map_Suc_upt)
  then show ?case
    using Suc [of "c + block_size cfg k" "c # l"] by (subst fill_list.simps) (simp add: ac_simps del: upt_Suc)
qed (simp add: fill_list.simps)

lemma list_pages_append: "list_pages cfg k (xs @ ys) = list_pages cfg k xs + list_pages cfg k ys"
  by (induction xs) (auto simp: ac_simps)

lemma list_pages_filled:
  assumes "base_ok cfg g"
  shows "list_pages cfg k (rev (map (blk cfg g k) [0..<n])) = mset [pg_baseaddr g div PAGE_SIZE cfg..<pg_baseaddr g div PAGE_SIZE cfg + n * 2 ^ k]"
proof (induction n)
  case (Suc n)
  let ?b = "pg_baseaddr g div PAGE_SIZE cfg"
  have "[?b..<?b + Suc n * 2 ^ k] = [?b..<?b + n * 2 ^ k] @ [?b + n * 2 ^ k..<?b + n * 2 ^ k + 2 ^ k]"
    by (subst upt_add_eq_append [symmetric]) (auto simp: ac_simps)
  then show ?case
    using Suc by (simp add: block_pages_def blk_page [OF assms] ac_simps)
qed simp

lemma map_bytes_enough: "n div 2 ^ k \<le> 8 * map_bytes n k"
proof -
  have "c \<le> 8 * (((c - 1) div 8 * 8 + 8) div 8)" for c :: nat
    by presburger
  then show ?thesis
    by (simp add: map_bytes_def Let_def)
qed

text \<open>The space a group takes for its own data.\<close>

definition bookkeeping :: "page_config \<Rightarrow> addr \<Rightarrow> addr \<Rightarrow> nat" where
  "bookkeeping cfg start e = sizeof_pagegroup cfg + maps_bytes ((e - start) div PAGE_SIZE cfg) [1..<PAGE_NSIZES cfg]"

text \<open>The pages between the start of a range and its bookkeeping.\<close>

definition range_pages :: "page_config \<Rightarrow> addr \<Rightarrow> addr \<Rightarrow> nat" where
  "range_pages cfg start e = (e - bookkeeping cfg start e) div PAGE_SIZE cfg - start div PAGE_SIZE cfg"

lemma PAGE_SIZE_pos [simp]: "0 < PAGE_SIZE cfg"
  by (simp add: PAGE_SIZE_def)

lemma pagegroup_create_eq:
  assumes cfg: "config_ok cfg" and start: "start mod PAGE_SIZE cfg = 0" and room: "start + bookkeeping cfg start e \<le> e"
  shows "pagegroup_create cfg start e = Some
    \<lparr>pg_freelist = (\<lambda>_. [])(top_order cfg := rev (map (\<lambda>i. start + i * block_size cfg (top_order cfg)) [0..<range_pages cfg start e div 2 ^ top_order cfg])),
     pg_map = (\<lambda>order. replicate (8 * map_bytes ((e - start) div PAGE_SIZE cfg) order) False), pg_baseaddr = start,
     pg_endaddr = start + range_pages cfg start e * PAGE_SIZE cfg\<rparr>"
proof -
  define P where "P = PAGE_SIZE cfg"
  define n where "n = range_pages cfg start e"
  let ?t = "top_order cfg" and ?b = "bookkeeping cfg start e"
  have P: "0 < P" "2 ^ PAGE_SHIFT cfg = P"
    by (simp_all add: P_def PAGE_SIZE_def)
  have s: "start = start div P * P"
    using start by (auto simp: P_def)
  have "start div P \<le> (e - ?b) div P"
    using room by (intro div_le_mono) linarith
  then have e1: "PAGE_ALIGN_DOWN cfg (e - ?b) = start + n * P"
    unfolding PAGE_ALIGN_DOWN_def n_def range_pages_def P_def [symmetric]
    using s mult_le_mono1 [of "start div P" "(e - ?b) div P" P] by (simp add: diff_mult_distrib)
  have "start + n * P - n mod 2 ^ ?t * P = start + n div 2 ^ ?t * block_size cfg ?t"
  proof -
    have "n * P = n div 2 ^ ?t * 2 ^ ?t * P + n mod 2 ^ ?t * P"
      by (metis add_mult_distrib div_mult_mod_eq)
    then show ?thesis
      by (simp add: block_size_pages P_def ac_simps)
  qed
  then have e2: "cut_off cfg n [0..<?t] (start + n * P) = start + n div 2 ^ ?t * block_size cfg ?t"
    by (simp add: cut_off_eq P_def)
  have b: "sizeof_pagegroup cfg + maps_bytes ((e - start) div P) [1..<PAGE_NSIZES cfg] = ?b"
    by (simp add: bookkeeping_def P_def)
  have n: "(start + n * P - start) div P = n"
    using P(1) by simp
  have "(start + n div 2 ^ ?t * block_size cfg ?t - start) mod 2 ^ ?t = 0"
    by (simp add: block_size_def)
  moreover have "start \<le> e" "?b \<le> e"
    using room by auto
  ultimately show ?thesis
    unfolding pagegroup_create_def Let_def P(2) b e1 n e2 fill_list_eq n_def [symmetric] P_def [symmetric]
    using cfg by (simp add: config_ok_def P_def)
qed

lemma pagegroup_create_ok:
  assumes cfg: "config_ok cfg" and start: "start mod PAGE_SIZE cfg = 0" "0 < start" and room: "start + bookkeeping cfg start e \<le> e"
    and g: "pagegroup_create cfg start e = Some g"
  shows "buddies_ok cfg g" "merged cfg g" "pg_baseaddr g = start" "pg_endaddr g = start + range_pages cfg start e * PAGE_SIZE cfg"
    "free_pages cfg g = mset [start div PAGE_SIZE cfg..<start div PAGE_SIZE cfg + range_pages cfg start e div 2 ^ top_order cfg * 2 ^ top_order cfg]"
proof -
  define n where "n = range_pages cfg start e"
  let ?t = "top_order cfg" and ?P = "PAGE_SIZE cfg"
  note eq = pagegroup_create_eq [OF cfg start(1) room, unfolded g, folded n_def]
  show base: "pg_baseaddr g = start" "pg_endaddr g = start + range_pages cfg start e * PAGE_SIZE cfg"
    using eq by (simp_all add: n_def)
  have base_ok: "base_ok cfg g"
    using start base by (simp add: base_ok_def)
  have top: "?t < PAGE_NSIZES cfg"
    using cfg by (simp add: config_ok_def)
  have t: "(pg_endaddr g - pg_baseaddr g) div block_size cfg ?t = n div 2 ^ ?t"
    unfolding base n_def [symmetric] by (simp add: block_size_pages)
  have lists: "pg_freelist g = (\<lambda>_. [])(?t := rev (map (blk cfg g ?t) [0..<n div 2 ^ ?t]))"
  proof -
    have "blk cfg g ?t = (\<lambda>i. start + i * block_size cfg ?t)"
      by (simp add: blk_def fun_eq_iff base)
    then show ?thesis
      using eq by simp
  qed
  have off: "k < ?t \<Longrightarrow> \<not> in_list cfg g k j" for k j
    by (simp add: in_list_def lists)
  show "merged cfg g"
    using off by (simp add: merged_def)
  have "list_pages cfg k (pg_freelist g k) = {#}" if "k \<in> {..<PAGE_NSIZES cfg} - {?t}" for k
    using that by (simp add: lists)
  then show free: "free_pages cfg g = mset [start div ?P..<start div ?P + range_pages cfg start e div 2 ^ ?t * 2 ^ ?t]"
    unfolding free_pages_at [OF top] lists fun_upd_same list_pages_filled [OF base_ok] base n_def [symmetric]
    by (simp add: lists)
  have "lists_ok cfg g"
    using top by (auto simp: lists_ok_def lists nblocks_def t [unfolded One_nat_def])
  moreover have "once (free_pages cfg g)"
    unfolding free using distinct_upt [unfolded distinct_count_atmost_1] by (simp add: once_def)
  moreover have maps: "nblocks cfg g (Suc k) \<le> length (pg_map g (Suc k))" if k: "k < ?t" for k
  proof -
    define a where "a = ?t - Suc k"
    have "?t = Suc k + a"
      using k by (simp add: a_def)
    then have "n div 2 ^ ?t * 2 ^ a = n div 2 ^ Suc k div 2 ^ a * 2 ^ a"
      by (simp only: power_add div_mult2_eq)
    also have "\<dots> \<le> n div 2 ^ Suc k"
      by (rule div_times_less_eq_dividend)
    finally have "n div 2 ^ ?t * 2 ^ (?t - Suc k) \<le> n div 2 ^ Suc k"
      by (simp only: a_def)
    also have "\<dots> \<le> (e - start) div ?P div 2 ^ Suc k"
    proof (rule div_le_mono)
      obtain q where q: "start = ?P * q"
        using start(1) by auto
      have "e = ?P * q + (e - start)"
        using room q by simp
      then have "e div ?P = q + (e - start) div ?P"
        by (metis PAGE_SIZE_pos div_mult_self4 less_irrefl)
      then show "n \<le> (e - start) div ?P"
        using div_le_mono [of "e - bookkeeping cfg start e" e ?P] unfolding n_def range_pages_def by (simp add: q)
    qed
    also have "\<dots> \<le> length (pg_map g (Suc k))"
      using eq map_bytes_enough [of "(e - start) div ?P" "Suc k"] by simp
    finally show ?thesis
      by (simp add: nblocks_def t [unfolded One_nat_def])
  qed
  moreover have "bits_ok cfg g"
    unfolding bits_ok_def
  proof (intro allI impI)
    fix k j
    assume k: "k < ?t" and j: "j < nblocks cfg g (Suc k)"
    then have "j < length (pg_map g (Suc k))"
      using maps [OF k] by linarith
    then show "pg_map g (Suc k) ! j = (in_list cfg g k (2 * j) \<noteq> in_list cfg g k (2 * j + 1))"
      using off [OF k] eq by simp
  qed
  ultimately show "buddies_ok cfg g"
    using base_ok by (simp add: buddies_ok_def maps_ok_def)
qed

lemma apart_sym: "apart g h \<longleftrightarrow> apart h g"
  by (auto simp: apart_def)

lemma page_add_range_result:
  fixes cfg start e
  defines "b \<equiv> PAGE_ALIGN_DOWN cfg start" and "t \<equiv> PAGE_ALIGN_DOWN cfg e"
  defines "n \<equiv> range_pages cfg b t"
  assumes s: "pages_inv cfg s" and cfg: "config_ok cfg" and b: "0 < b" "b + bookkeeping cfg b t \<le> t"
    and new: "\<forall>g\<in>set (pagegroup_list s). pg_endaddr g \<le> b \<or> b + n * PAGE_SIZE cfg \<le> pg_baseaddr g"
  shows "\<exists>s'. page_add_range cfg start e s = Some s' \<and> pages_inv cfg s' \<and> page_freecount s' = page_freecount s + int n \<and>
    all_free cfg s' = all_free cfg s + mset [b div PAGE_SIZE cfg..<b div PAGE_SIZE cfg + n div 2 ^ top_order cfg * 2 ^ top_order cfg]"
proof -
  have mod: "b mod PAGE_SIZE cfg = 0"
    by (simp add: b_def PAGE_ALIGN_DOWN_def)
  obtain g where g: "pagegroup_create cfg b t = Some g"
    using pagegroup_create_eq [OF cfg mod b(2)] by blast
  note ok = pagegroup_create_ok [OF cfg mod b g, folded n_def]
  have eq: "page_add_range cfg start e s = Some (if 0 < n
      then s\<lparr>pagegroup_list := pagegroup_list s @ [g], page_freecount := page_freecount s + int n\<rparr> else s)"
    unfolding page_add_range_def b_def [symmetric] t_def [symmetric] using g ok(3,4) by (simp add: PAGE_SIZE_def)
  show ?thesis
  proof (cases "0 < n")
    case True
    let ?s = "s\<lparr>pagegroup_list := pagegroup_list s @ [g], page_freecount := page_freecount s + int n\<rparr>"
    have "\<forall>h\<in>set (pagegroup_list s). apart h g"
      using new ok(3,4) by (simp add: apart_def)
    then have "pages_inv cfg ?s"
      using s ok(1,2) by (simp add: pages_inv_def sorted_wrt_append)
    moreover have "all_free cfg ?s = all_free cfg s + free_pages cfg g"
      by (simp add: all_free_def)
    ultimately show ?thesis
      using True unfolding eq ok(5) by simp
  qed (use s in \<open>simp add: eq\<close>)
qed

section \<open>A block that is free is found\<close>

lemma merged_cover:
  assumes "buddies_ok cfg g" "merged cfg g" "k < PAGE_NSIZES cfg" "j < nblocks cfg g k"
    "set_mset (block_pages cfg k (blk cfg g k j)) \<subseteq> set_mset (free_pages cfg g)"
  shows "\<exists>m. k \<le> m \<and> m < PAGE_NSIZES cfg \<and> in_list cfg g m (j div 2 ^ (m - k))"
  using assms(3-)
proof (induction k arbitrary: j)
  case 0
  note ok = buddies_okD [OF assms(1)]
  let ?b = "pg_baseaddr g div PAGE_SIZE cfg"
  have "?b + j \<in># free_pages cfg g"
    using "0.prems"(3) blk_page [OF ok(1), of 0 j] by (simp add: block_pages_def)
  then obtain m i where m: "m < PAGE_NSIZES cfg" "in_list cfg g m i" "?b + j \<in># block_pages cfg m (blk cfg g m i)"
    using free_pages_elim ok(2) by metis
  have "i * 2 ^ m \<le> j" "j < i * 2 ^ m + 2 ^ m"
    using m(3) blk_page [OF ok(1), of m i] by (auto simp: block_pages_def)
  then have "j div 2 ^ m = i"
    by (intro div_nat_eqI) (auto simp: ac_simps)
  then show ?case
    using m by auto
next
  case (Suc k)
  have k: "k < PAGE_NSIZES cfg" "k < top_order cfg"
    using Suc.prems(1) by auto
  note split = block_pages_split [OF buddies_okD(1) [OF assms(1)], of k j]
  have "2 * j < nblocks cfg g k" "2 * j + 1 < nblocks cfg g k"
    using Suc.prems(2) nblocks_Suc [OF k(2), of g] by auto
  then obtain m1 m2 where m: "k \<le> m1" "m1 < PAGE_NSIZES cfg" "in_list cfg g m1 (2 * j div 2 ^ (m1 - k))"
      "k \<le> m2" "m2 < PAGE_NSIZES cfg" "in_list cfg g m2 ((2 * j + 1) div 2 ^ (m2 - k))"
    using Suc.IH [OF k(1), of "2 * j"] Suc.IH [OF k(1), of "2 * j + 1"] Suc.prems(3) unfolding split by auto
  have up: "2 * j div 2 ^ (m - k) = j div 2 ^ (m - Suc k)" "(2 * j + 1) div 2 ^ (m - k) = j div 2 ^ (m - Suc k)" if "k < m" for m
  proof -
    have "(2 :: nat) ^ (m - k) = 2 * 2 ^ (m - Suc k)"
      using that by (simp add: Suc_diff_Suc flip: power_Suc)
    then show "2 * j div 2 ^ (m - k) = j div 2 ^ (m - Suc k)" "(2 * j + 1) div 2 ^ (m - k) = j div 2 ^ (m - Suc k)"
      by (simp_all add: div_mult2_eq)
  qed
  have "\<not> (m1 = k \<and> m2 = k)"
    using m(3,6) assms(2) k(2) by (auto simp: merged_def)
  then consider "k < m1" | "k < m2"
    using m(1,4) by linarith
  then show ?case
  proof cases
    case 1
    then show ?thesis
      using m(2,3) up(1) [OF 1] by (intro exI [of _ m1]) simp
  next
    case 2
    then show ?thesis
      using m(5,6) up(2) [OF 2] by (intro exI [of _ m2]) simp
  qed
qed

lemma free_in_its_group:
  assumes s: "pages_inv cfg s" and g: "g \<in> set (pagegroup_list s)" and p: "p \<in># all_free cfg s"
    "pg_baseaddr g \<le> p * PAGE_SIZE cfg" "p * PAGE_SIZE cfg < pg_endaddr g"
  shows "p \<in># free_pages cfg g"
proof -
  obtain h where h: "h \<in> set (pagegroup_list s)" "p \<in># free_pages cfg h"
    using p(1) by (auto simp: all_free_def set_mset_sum_list)
  have "buddies_ok cfg h"
    using s h(1) by (simp add: pages_inv_def)
  then have "pg_baseaddr h \<le> p * PAGE_SIZE cfg" "p * PAGE_SIZE cfg < pg_endaddr h"
    using page_in_group [OF _ h(2)] by auto
  then have "h = g"
    using from_address [OF s h(1), of "p * PAGE_SIZE cfg"] from_address [OF s g p(2,3)] by auto
  then show ?thesis
    using h(2) by simp
qed

lemma free_block_found:
  assumes s: "pages_inv cfg s" and k: "k < PAGE_NSIZES cfg" and b: "valid_block cfg s k b"
    and free: "set_mset (block_pages cfg k b) \<subseteq> set_mset (all_free cfg s)"
  shows "\<not> none_bigger cfg k s"
proof -
  obtain g j where g: "g \<in> set (pagegroup_list s)" and j: "j < nblocks cfg g k" "b = blk cfg g k j"
    using b by (auto simp: valid_block_def)
  have ok: "buddies_ok cfg g" "merged cfg g"
    using s g by (auto simp: pages_inv_def)
  have "set_mset (block_pages cfg k (blk cfg g k j)) \<subseteq> set_mset (free_pages cfg g)"
    using free_in_its_group [OF s g] page_in_block [OF buddies_okD(1) [OF ok(1)] j(1)] k free j(2) by auto
  then obtain m where "k \<le> m" "m < PAGE_NSIZES cfg" "in_list cfg g m (j div 2 ^ (m - k))"
    using merged_cover [OF ok k j(1)] by blast
  then show ?thesis
    using g unfolding none_bigger_def in_list_def by force
qed

section \<open>Clients\<close>

text \<open>
  A client allocates blocks of some order and frees blocks that it holds, in any order; the blocks held are kept
  with their order, the newest first.
\<close>

datatype page_op = Alloc_Op nat | Free_Op nat

fun op_order_ok :: "nat \<Rightarrow> page_op \<Rightarrow> bool" where
  "op_order_ok n (Alloc_Op k) = (k < n)"
| "op_order_ok n (Free_Op i) = True"

fun page_run :: "(nat \<Rightarrow> 's \<Rightarrow> (addr \<times> 's) option) \<Rightarrow> (addr \<Rightarrow> nat \<Rightarrow> 's \<Rightarrow> 's option) \<Rightarrow> page_op list \<Rightarrow>
    (nat \<times> addr) list \<Rightarrow> 's \<Rightarrow> ((nat \<times> addr) list \<times> 's) option" where
  "page_run alloc release [] held s = Some (held, s)"
| "page_run alloc release (Alloc_Op k # ops) held s = do {
     (a, s) \<leftarrow> alloc k s;
     page_run alloc release ops (if a = NULL then held else (k, a) # held) s
   }"
| "page_run alloc release (Free_Op i # ops) held s =
     (if i < length held then do {
        s \<leftarrow> release (snd (held ! i)) (fst (held ! i)) s;
        page_run alloc release ops (take i held @ drop (Suc i) held) s
      } else page_run alloc release ops held s)"

definition held_pages :: "(nat \<Rightarrow> addr \<Rightarrow> nat multiset) \<Rightarrow> (nat \<times> addr) list \<Rightarrow> nat multiset" where
  "held_pages pages held = sum_list (map (\<lambda>(k, a). pages k a) held)"

lemma held_pages_simps [simp]:
  "held_pages pages [] = {#}"
  "held_pages pages ((k, a) # held) = pages k a + held_pages pages held"
  "held_pages pages (xs @ ys) = held_pages pages xs + held_pages pages ys"
  by (simp_all add: held_pages_def)

lemma held_pages_drop:
  assumes "i < length held"
  shows "held_pages pages held = pages (fst (held ! i)) (snd (held ! i)) + held_pages pages (take i held @ drop (Suc i) held)"
proof -
  have "held = take i held @ (fst (held ! i), snd (held ! i)) # drop (Suc i) held"
    using id_take_nth_drop [OF assms] by simp
  then have "held_pages pages held = held_pages pages (take i held @ (fst (held ! i), snd (held ! i)) # drop (Suc i) held)"
    by (rule arg_cong)
  then show ?thesis
    unfolding held_pages_simps by (simp add: ac_simps)
qed

text \<open>
  An allocator of blocks: allocating hands out a valid block of available pages or nothing, and releasing a block that is
  not available makes its pages available again.
\<close>

locale block_allocator =
  fixes inv :: "'s \<Rightarrow> bool"
    and avail :: "'s \<Rightarrow> nat multiset"
    and pages :: "nat \<Rightarrow> addr \<Rightarrow> nat multiset"
    and valid :: "'s \<Rightarrow> nat \<Rightarrow> addr \<Rightarrow> bool"
    and orders :: nat
    and alloc :: "nat \<Rightarrow> 's \<Rightarrow> (addr \<times> 's) option"
    and release :: "addr \<Rightarrow> nat \<Rightarrow> 's \<Rightarrow> 's option"
  assumes avail_once: "inv s \<Longrightarrow> once (avail s)"
    and alloc_law: "inv s \<Longrightarrow> k < orders \<Longrightarrow> \<exists>a s'. alloc k s = Some (a, s') \<and> inv s' \<and> valid s' = valid s \<and>
          (if a = NULL then avail s' = avail s else valid s k a \<and> avail s = pages k a + avail s')"
    and release_law: "inv s \<Longrightarrow> k < orders \<Longrightarrow> valid s k a \<Longrightarrow> set_mset (pages k a) \<inter> set_mset (avail s) = {} \<Longrightarrow>
          \<exists>s'. release a k s = Some s' \<and> inv s' \<and> valid s' = valid s \<and> avail s' = pages k a + avail s"
begin

definition holds :: "(nat \<times> addr) list \<Rightarrow> 's \<Rightarrow> bool" where
  "holds held s \<longleftrightarrow> inv s \<and> (\<forall>(k, a)\<in>set held. k < orders \<and> valid s k a) \<and> once (held_pages pages held + avail s)"

lemma alloc_holds:
  assumes "holds held s" "k < orders"
  shows "\<exists>a s'. alloc k s = Some (a, s') \<and> (let held' = if a = NULL then held else (k, a) # held in
    holds held' s' \<and> held_pages pages held' + avail s' = held_pages pages held + avail s)"
proof -
  obtain a s' where a: "alloc k s = Some (a, s')" "inv s'" "valid s' = valid s"
      "if a = NULL then avail s' = avail s else valid s k a \<and> avail s = pages k a + avail s'"
    using alloc_law [of s k] assms by (auto simp: holds_def)
  show ?thesis
  proof (cases "a = NULL")
    case True
    then show ?thesis
      using a assms(1) by (auto simp: holds_def)
  next
    case False
    then have v: "valid s k a" and av: "avail s = pages k a + avail s'"
      using a(4) by simp_all
    have total: "held_pages pages ((k, a) # held) + avail s' = held_pages pages held + avail s"
      unfolding av by (simp add: ac_simps)
    moreover have "holds ((k, a) # held) s'"
      using assms a(2,3) v unfolding holds_def total by simp
    ultimately show ?thesis
      using False a(1) by (auto simp: Let_def)
  qed
qed

lemma release_holds:
  assumes h: "holds held s" and i: "i < length held"
  shows "\<exists>s'. release (snd (held ! i)) (fst (held ! i)) s = Some s' \<and> holds (take i held @ drop (Suc i) held) s' \<and>
    held_pages pages (take i held @ drop (Suc i) held) + avail s' = held_pages pages held + avail s"
proof -
  let ?k = "fst (held ! i)" and ?a = "snd (held ! i)" and ?rest = "take i held @ drop (Suc i) held"
  note eq = held_pages_drop [OF i, of pages]
  have "held ! i \<in> set held"
    using i by simp
  then have v: "?k < orders" "valid s ?k ?a"
    using h by (auto simp: holds_def)
  have "once (pages ?k ?a + (held_pages pages ?rest + avail s))"
    using h unfolding holds_def eq by (simp add: ac_simps)
  then have "set_mset (pages ?k ?a) \<inter> set_mset (avail s) = {}"
    using once_plusD [of "pages ?k ?a" "held_pages pages ?rest + avail s"] by auto
  then obtain s' where s': "release ?a ?k s = Some s'" "inv s'" "valid s' = valid s" "avail s' = pages ?k ?a + avail s"
    using release_law [OF _ v] h by (auto simp: holds_def)
  have total: "held_pages pages ?rest + avail s' = held_pages pages held + avail s"
    unfolding s'(4) eq by (simp add: ac_simps)
  moreover have "set ?rest \<subseteq> set held"
    using set_take_subset [of i held] set_drop_subset [of "Suc i" held] by auto
  ultimately have "holds ?rest s'"
    using h s'(2,3) unfolding holds_def total by auto
  then show ?thesis
    using s'(1) total by blast
qed

lemma run_holds:
  "holds held s \<Longrightarrow> list_all (op_order_ok orders) ops \<Longrightarrow>
   \<exists>held' s'. page_run alloc release ops held s = Some (held', s') \<and> holds held' s' \<and>
     held_pages pages held' + avail s' = held_pages pages held + avail s"
proof (induction ops arbitrary: held s)
  case (Cons x ops)
  show ?case
  proof (cases x)
    case (Alloc_Op k)
    then obtain a s' where a: "alloc k s = Some (a, s')" "holds (if a = NULL then held else (k, a) # held) s'"
        "held_pages pages (if a = NULL then held else (k, a) # held) + avail s' = held_pages pages held + avail s"
      using alloc_holds [OF Cons.prems(1), of k] Cons.prems(2) by (auto simp: Let_def)
    then show ?thesis
      using Cons.IH [OF a(2)] Cons.prems(2) unfolding a(3) by (simp add: Alloc_Op a(1))
  next
    case (Free_Op i)
    show ?thesis
    proof (cases "i < length held")
      case True
      obtain s' where s': "release (snd (held ! i)) (fst (held ! i)) s = Some s'" "holds (take i held @ drop (Suc i) held) s'"
          "held_pages pages (take i held @ drop (Suc i) held) + avail s' = held_pages pages held + avail s"
        using release_holds [OF Cons.prems(1) True] by blast
      show ?thesis
        using Cons.IH [OF s'(2)] Cons.prems(2) unfolding s'(3) by (simp add: Free_Op True s'(1))
    next
      case False
      then show ?thesis
        using Cons.IH [OF Cons.prems(1)] Cons.prems(2) by (simp add: Free_Op)
    qed
  qed
qed simp

lemma run_from_nothing:
  assumes "inv s" "list_all (op_order_ok orders) ops"
  shows "\<exists>held s'. page_run alloc release ops [] s = Some (held, s') \<and> inv s' \<and> held_pages pages held + avail s' = avail s \<and>
    once (held_pages pages held + avail s')"
proof -
  have "holds [] s"
    using assms(1) avail_once by (simp add: holds_def)
  then show ?thesis
    using run_holds [OF _ assms(2), of "[]" s] by (auto simp: holds_def)
qed

end

text \<open>The allocator of pages is such an allocator; here the slab allocators have nothing to give back.\<close>

lemma alloc_order_exact:
  assumes "config_ok cfg" "pages_inv cfg s" "k < PAGE_NSIZES cfg"
  shows "\<exists>a s'. page_alloc_order cfg (\<lambda>s. s) retrys k s = Some (a, s') \<and> (config_ok cfg \<and> pages_inv cfg s') \<and> valid_block cfg s' = valid_block cfg s \<and>
      (if a = NULL then all_free cfg s' = all_free cfg s else valid_block cfg s k a \<and> all_free cfg s = block_pages cfg k a + all_free cfg s')"
proof -
  have "reclaim_ok cfg {} (\<lambda>s. s)"
    by (simp add: reclaim_ok_def steady_def gained_refl)
  then obtain a s' where a: "page_alloc_order cfg (\<lambda>s. s) retrys k s = Some (a, s')" "alloc_result cfg {} k s a s'"
    using page_alloc_order_result [OF assms(2,1) _ assms(3), of "{}" "\<lambda>s. s" retrys] by blast
  have "valid_block cfg s' = valid_block cfg s"
    using a(2) valid_block_cong [of s' s cfg] by (simp add: alloc_result_def steady_def fun_eq_iff)
  then show ?thesis
    using a assms(1) by (cases "a = NULL") (simp_all add: alloc_result_def gained_def steady_def)
qed

lemma free_order_exact:
  assumes "config_ok cfg" "pages_inv cfg s" "k < PAGE_NSIZES cfg" "valid_block cfg s k a" "set_mset (block_pages cfg k a) \<inter> set_mset (all_free cfg s) = {}"
  shows "\<exists>s'. page_free_order cfg a k s = Some s' \<and> (config_ok cfg \<and> pages_inv cfg s') \<and> valid_block cfg s' = valid_block cfg s \<and>
      all_free cfg s' = block_pages cfg k a + all_free cfg s"
proof -
  obtain s' where s': "page_free_order cfg a k s = Some s'" "steady cfg s s'" "all_free cfg s' = block_pages cfg k a + all_free cfg s"
    using page_free_order_result [OF assms(2,1,3-5)] by blast
  moreover have "valid_block cfg s' = valid_block cfg s"
    using s'(2) valid_block_cong [of s' s cfg] by (simp add: steady_def fun_eq_iff)
  ultimately show ?thesis
    using assms(1) by (simp add: steady_def)
qed

interpretation buddy: block_allocator "\<lambda>s. config_ok cfg \<and> pages_inv cfg s" "all_free cfg" "block_pages cfg" "valid_block cfg"
    "PAGE_NSIZES cfg" "page_alloc_order cfg (\<lambda>s. s) retrys" "page_free_order cfg" for cfg retrys
  by unfold_locales (use once_all_free alloc_order_exact free_order_exact in \<open>simp_all\<close>)

section \<open>The number of pages asked for\<close>

lemma order_for_None: "order_for n ks = None \<longleftrightarrow> (\<forall>k\<in>set ks. 2 ^ k < n)"
  by (induction ks) auto

lemma order_for_Some: "order_for n [i..<m] = Some k \<Longrightarrow> i \<le> k \<and> k < m \<and> n \<le> 2 ^ k \<and> (\<forall>l\<in>{i..<k}. 2 ^ l < n)"
proof (induction "m - i" arbitrary: i)
  case (Suc d)
  then have m: "i < m" "d = m - Suc i"
    by auto
  then have "[i..<m] = i # [Suc i..<m]"
    by (simp add: upt_conv_Cons)
  show ?case
  proof (cases "n \<le> 2 ^ i")
    case True
    then show ?thesis
      using Suc.prems m \<open>[i..<m] = _\<close> by simp
  next
    case False
    then have "Suc i \<le> k \<and> k < m \<and> n \<le> 2 ^ k \<and> (\<forall>l\<in>{Suc i..<k}. 2 ^ l < n)"
      using Suc.prems m(2) \<open>[i..<m] = _\<close> by (intro Suc.hyps(1)) simp_all
    moreover from this have "{i..<k} = insert i {Suc i..<k}"
      by auto
    ultimately show ?thesis
      using False by auto
  qed
qed simp

lemma order_for_exists:
  assumes "0 < N" "n \<le> 2 ^ (N - 1)"
  obtains k where "order_for n [0..<N] = Some k" "k < N" "n \<le> 2 ^ k" "\<forall>l<k. 2 ^ l < n"
proof -
  have "order_for n [0..<N] \<noteq> None"
    using assms unfolding order_for_None by (auto intro!: bexI [of _ "N - 1"])
  then show thesis
    using that order_for_Some [of n 0 N] by auto
qed

text \<open>A request for half of the address space or more is taken for a negative number, and answered with a single page.\<close>

lemma huge_request:
  assumes "0 < PAGE_NSIZES cfg" "2 ^ 31 \<le> unat npages"
  shows "page_alloc_n cfg reclaim retrys npages s = page_alloc cfg reclaim retrys s"
proof -
  have "unat npages < 2 ^ 32"
    by (rule order_less_le_trans [OF unsigned_less]) simp
  then have "unat npages div 2 ^ 31 = 1"
    using assms(2) by simp
  then have "bit (unat npages) 31"
    by (simp add: bit_iff_odd)
  then have "sint npages < 0"
    by (simp add: sint_uint bit_unsigned_iff)
  then have "order_for (sint npages) [0..<PAGE_NSIZES cfg] = Some 0"
    using assms(1) by (subst upt_conv_Cons) auto
  then show ?thesis
    by (simp add: page_alloc_n_def page_alloc_def)
qed

text \<open>Without the shadow daemon the search is not repeated after pages have been given back: nothing is found, however many there are.\<close>

lemma reclaimed_too_late:
  assumes "none_bigger cfg k s" "k < PAGE_NSIZES cfg"
  shows "page_alloc_order cfg reclaim 0 k s = Some (NULL, reclaim s)"
proof -
  have "find_bigger (pagegroup_list s) [k + 1..<PAGE_NSIZES cfg] = None" "first_group (\<lambda>g. pg_freelist g k \<noteq> []) (pagegroup_list s) = None"
    using assms unfolding find_bigger_None first_group_None none_bigger_def by auto
  then show ?thesis
    by (simp add: page_alloc_order_def page_split.simps)
qed

section \<open>Examples\<close>

text \<open>Eleven pages, the last of which holds the bookkeeping; blocks of 1, 2 and 4 pages.\<close>

definition demo_config :: page_config where
  "demo_config = \<lparr>PAGE_SHIFT = 12, PAGE_NSIZES = 3, sizeof_pagegroup = 60\<rparr>"

definition demo_pages :: page_state where
  "demo_pages = the (page_add_range demo_config 4100 49152 page_init)"

lemma demo_config_ok: "config_ok demo_config"
  by (simp add: config_ok_def demo_config_def PAGE_SIZE_def)

lemma demo_range: "PAGE_ALIGN_DOWN demo_config 4100 = 4096" "PAGE_ALIGN_DOWN demo_config 49152 = 49152"
  "bookkeeping demo_config 4096 49152 = 62" "range_pages demo_config 4096 49152 = 10"
  by (simp_all add: PAGE_ALIGN_DOWN_def bookkeeping_def range_pages_def demo_config_def PAGE_SIZE_def map_bytes_def upt_conv_Cons)

lemma demo_sizes: "PAGE_SIZE demo_config = 4096" "PAGE_NSIZES demo_config = 3"
  by (simp_all add: demo_config_def PAGE_SIZE_def)

lemma demo_added: "page_add_range demo_config 4100 49152 page_init = Some demo_pages"
  "pages_inv demo_config demo_pages" "page_freecount demo_pages = 10" "all_free demo_config demo_pages = mset [1..<9]"
proof -
  have "pages_inv demo_config page_init"
    by (simp add: pages_inv_def page_init_def)
  then obtain s' where "page_add_range demo_config 4100 49152 page_init = Some s'" "pages_inv demo_config s'"
      "page_freecount s' = 10" "all_free demo_config s' = mset [1..<9]"
    using page_add_range_result [of demo_config page_init 4100 49152, unfolded demo_range demo_sizes] demo_config_ok
    by (auto simp: page_init_def all_free_def [of _ "\<lparr>pagegroup_list = [], page_freecount = 0\<rparr>"])
  then show "page_add_range demo_config 4100 49152 page_init = Some demo_pages" "pages_inv demo_config demo_pages"
      "page_freecount demo_pages = 10" "all_free demo_config demo_pages = mset [1..<9]"
    by (simp_all add: demo_pages_def)
qed

lemma demo_idle: "reclaim_ok demo_config {} (\<lambda>s. s)"
  by (simp add: reclaim_ok_def steady_def gained_refl)

lemma demo_block: "valid_block demo_config demo_pages 1 4096" "set_mset (block_pages demo_config 1 4096) \<subseteq> set_mset (all_free demo_config demo_pages)"
proof -
  obtain g where g: "pagegroup_create demo_config 4096 49152 = Some g"
    using pagegroup_create_eq [OF demo_config_ok, of 4096 49152] by (simp add: demo_range demo_sizes)
  have "pg_baseaddr g = 4096" "pg_endaddr g = 45056"
    using pagegroup_create_ok(3,4) [OF demo_config_ok _ _ _ g] by (simp_all add: demo_range demo_sizes)
  moreover from this have "pagegroup_list demo_pages = [g]"
    unfolding demo_pages_def page_add_range_def demo_range by (simp add: g page_init_def)
  ultimately show "valid_block demo_config demo_pages 1 4096"
    by (auto simp: valid_block_def nblocks_def blk_def demo_sizes block_size_pages intro!: exI [of _ 0])
  show "set_mset (block_pages demo_config 1 4096) \<subseteq> set_mset (all_free demo_config demo_pages)"
    by (auto simp: demo_added(4) block_pages_def demo_sizes)
qed

lemma range_pages_end:
  assumes "b mod PAGE_SIZE cfg = 0" "b + bookkeeping cfg b t \<le> t"
  shows "b + range_pages cfg b t * PAGE_SIZE cfg \<le> t"
proof -
  let ?P = "PAGE_SIZE cfg" and ?e = "t - bookkeeping cfg b t"
  have b: "b = b div ?P * ?P"
    using assms(1) by auto
  have "b div ?P \<le> ?e div ?P"
    using assms(2) by (intro div_le_mono) linarith
  then have "b div ?P * ?P + (?e div ?P - b div ?P) * ?P = ?e div ?P * ?P"
    by (simp flip: add_mult_distrib)
  also have "\<dots> \<le> t"
    using div_times_less_eq_dividend [of ?e ?P] by linarith
  finally show ?thesis
    unfolding range_pages_def using b by simp
qed

lemma free_block_alloc:
  assumes "pages_inv cfg s" "config_ok cfg" "reclaim_ok cfg slabs reclaim" "k < PAGE_NSIZES cfg" "valid_block cfg s k b"
    "set_mset (block_pages cfg k b) \<subseteq> set_mset (all_free cfg s)"
  shows "\<exists>a s'. page_alloc_order cfg reclaim retrys k s = Some (a, s') \<and> handed_out cfg k s a s'"
proof -
  have some: "\<not> none_bigger cfg k s"
    by (rule free_block_found [OF assms(1,4-6)])
  obtain a s' where "page_alloc_order cfg reclaim retrys k s = Some (a, s')" "alloc_result cfg slabs k s a s'"
    using page_alloc_order_result [OF assms(1-4), of retrys] by blast
  then show ?thesis
    using some by (auto simp: alloc_result_def gained_def handed_out_def split: if_splits)
qed

section \<open>Properties\<close>



text \<open>
  C20. \<open>page_free_n\<close> takes a block back: when the block is one of the group and none of its pages is free, the call returns, its pages are free
  again and no others change, the count grows by their number, and buddies that are now both free have been joined all the way up.
\<close>

theorem page_free_n_block:
  assumes "pages_inv cfg s" "config_ok cfg" "order_for (sint npages) [0..<PAGE_NSIZES cfg] = Some k" "valid_block cfg s k a"
    "set_mset (block_pages cfg k a) \<inter> set_mset (all_free cfg s) = {}"
  shows "\<exists>s'. page_free_n cfg a npages s = Some s' \<and> pages_inv cfg s' \<and> layout s' = layout s \<and>
    all_free cfg s' = block_pages cfg k a + all_free cfg s \<and> page_free_count s' = page_free_count s + 2 ^ k"
proof -
  have "k < PAGE_NSIZES cfg"
    using order_for_Some [OF assms(3)] by simp
  then show ?thesis
    using page_free_order_result [OF assms(1,2) _ assms(4,5)] assms(3) by (auto simp: page_free_n_def page_free_count_def steady_def)
qed

theorem page_free_n_block_witness:
  "\<exists>a s s'. page_alloc_order demo_config (\<lambda>s. s) 0 1 demo_pages = Some (a, s) \<and> page_free_n demo_config a 2 s = Some s' \<and>
    pages_inv demo_config s' \<and> all_free demo_config s' = all_free demo_config demo_pages \<and> page_free_count s' = page_free_count s + 2"
proof -
  obtain a s where s: "page_alloc_order demo_config (\<lambda>s. s) 0 1 demo_pages = Some (a, s)" "handed_out demo_config 1 demo_pages a s"
    using free_block_alloc [OF demo_added(2) demo_config_ok demo_idle _ demo_block, of 0] by (auto simp: demo_sizes)
  then have inv: "pages_inv demo_config s" "valid_block demo_config s 1 a"
    and free: "all_free demo_config demo_pages = block_pages demo_config 1 a + all_free demo_config s"
    using valid_block_cong [of s demo_pages] by (auto simp: handed_out_def steady_def)
  have "set_mset (block_pages demo_config 1 a) \<inter> set_mset (all_free demo_config s) = {}"
    using once_plusD [OF once_all_free [OF demo_added(2), unfolded free]] by auto
  moreover have "order_for (sint (2 :: 32 word)) [0..<PAGE_NSIZES demo_config] = Some 1"
    by (simp add: demo_sizes upt_conv_Cons)
  ultimately obtain s' where "page_free_n demo_config a 2 s = Some s'" "pages_inv demo_config s'" "page_free_count s' = page_free_count s + 2"
      "all_free demo_config s' = block_pages demo_config 1 a + all_free demo_config s"
    using page_free_n_block [OF inv(1) demo_config_ok, of 2 1 a] inv(2) by auto
  then show ?thesis
    using s(1) free by metis
qed



text \<open>
  C10. Memory is not lost to fragmentation beyond what the buddy scheme implies: as long as the pages of any aligned block of the
  order are all free, however they were freed, an allocation of that order succeeds without asking for pages to be given back.
\<close>

theorem free_block_is_allocated:
  assumes "pages_inv cfg s" "config_ok cfg" "reclaim_ok cfg slabs reclaim" "k < PAGE_NSIZES cfg" "valid_block cfg s k b"
    "set_mset (block_pages cfg k b) \<subseteq> set_mset (all_free cfg s)"
  shows "\<exists>a s'. page_alloc_order cfg reclaim retrys k s = Some (a, s') \<and> a \<noteq> NULL \<and> pages_inv cfg s' \<and>
    all_free cfg s = block_pages cfg k a + all_free cfg s'"
  using free_block_alloc [OF assms, of retrys] by (auto simp: handed_out_def steady_def)

theorem free_block_is_allocated_witness:
  "\<exists>a s'. page_alloc_order demo_config (\<lambda>s. s) 0 1 demo_pages = Some (a, s') \<and> a \<noteq> NULL \<and> pages_inv demo_config s' \<and>
    all_free demo_config demo_pages = block_pages demo_config 1 a + all_free demo_config s'"
  using free_block_is_allocated [OF demo_added(2) demo_config_ok demo_idle _ demo_block] by (simp add: demo_sizes)

text \<open>
  C26. Adding a range that has room for its bookkeeping and is apart from the other groups sets up a well-formed group.  The
  pages that fill whole blocks of the largest order become free.  The count of free pages, though, grows by all pages of the range, so it
  exceeds the number of pages that can ever be allocated by the pages that are cut off.
\<close>

theorem range_added:
  assumes "pages_inv cfg s" "config_ok cfg" "b = PAGE_ALIGN_DOWN cfg start" "t = PAGE_ALIGN_DOWN cfg e" "0 < b" "b + bookkeeping cfg b t \<le> t"
    "\<forall>g\<in>set (pagegroup_list s). pg_endaddr g \<le> b \<or> t \<le> pg_baseaddr g"
  shows "\<exists>s'. page_add_range cfg start e s = Some s' \<and> pages_inv cfg s' \<and>
    all_free cfg s' = all_free cfg s + mset [b div PAGE_SIZE cfg..<b div PAGE_SIZE cfg + range_pages cfg b t div 2 ^ (PAGE_NSIZES cfg - 1) * 2 ^ (PAGE_NSIZES cfg - 1)] \<and>
    page_free_count s' - int (size (all_free cfg s')) =
      page_free_count s - int (size (all_free cfg s)) + int (range_pages cfg b t mod 2 ^ (PAGE_NSIZES cfg - 1))"
proof -
  define n where "n = range_pages cfg b t"
  let ?k = "PAGE_NSIZES cfg - 1"
  have "b mod PAGE_SIZE cfg = 0"
    by (simp add: assms(3) PAGE_ALIGN_DOWN_def)
  then have "b + n * PAGE_SIZE cfg \<le> t"
    using range_pages_end assms(6) by (simp add: n_def)
  then have new: "\<forall>g\<in>set (pagegroup_list s). pg_endaddr g \<le> b \<or> b + n * PAGE_SIZE cfg \<le> pg_baseaddr g"
    using assms(7) by fastforce
  obtain s' where s': "page_add_range cfg start e s = Some s'" "pages_inv cfg s'" "page_freecount s' = page_freecount s + int n"
      "all_free cfg s' = all_free cfg s + mset [b div PAGE_SIZE cfg..<b div PAGE_SIZE cfg + n div 2 ^ ?k * 2 ^ ?k]"
    using page_add_range_result [OF assms(1,2), of start e, folded assms(3,4), OF assms(5,6), folded n_def, OF new] by blast
  have "size (mset [b div PAGE_SIZE cfg..<b div PAGE_SIZE cfg + n div 2 ^ ?k * 2 ^ ?k]) = n div 2 ^ ?k * 2 ^ ?k"
    by (simp only: size_mset length_upt diff_add_inverse)
  moreover have "int n = int (n div 2 ^ ?k * 2 ^ ?k) + int (n mod 2 ^ ?k)"
    by (metis div_mult_mod_eq of_nat_add)
  ultimately have "page_free_count s' - int (size (all_free cfg s')) = page_free_count s - int (size (all_free cfg s)) + int (n mod 2 ^ ?k)"
    unfolding page_free_count_def s'(3,4) size_union by linarith
  then show ?thesis
    using s' unfolding n_def by blast
qed

theorem range_added_witness:
  "\<exists>s'. page_add_range demo_config 4100 49152 page_init = Some s' \<and> pages_inv demo_config s' \<and>
    page_free_count s' - int (size (all_free demo_config s')) = 2"
  using range_added [of demo_config page_init 4096 4100 49152 49152] demo_config_ok
  by (auto simp: demo_range demo_sizes page_init_def pages_inv_def page_free_count_def all_free_def [of _ "\<lparr>pagegroup_list = [], page_freecount = 0\<rparr>"])

end
