(* ===== verification/Kstate.thy ===== *)
theory Kstate
  imports OS_Prelude
begin

text \<open>
  The state of the process subsystem: threads, processes and the queues threads wait on
  (\<^verbatim>\<open>kthread_t\<close>, \<^verbatim>\<open>proc_t\<close> and \<^verbatim>\<open>ktqueue_t\<close>), the global variables of
  \<^verbatim>\<open>sched.c\<close>, \<^verbatim>\<open>kthread.c\<close> and \<^verbatim>\<open>proc.c\<close>, and the interrupt priority level.

  Threads and processes are named by addresses; 0 is \<open>NULL\<close>.  The run queue, the queue on which
  a process waits for its children and the queue of a mutex are named by \<open>qid\<close>.  A linked list is
  the list of what is linked, first element first.  The links of a thread are the flag whether
  \<open>kt_qlink\<close> is on a queue and its place in \<open>p_threads\<close>.  \<open>kt_oldipl\<close> is the local variable
  \<open>oldipl\<close> that a thread that is switched out keeps on its stack.  The rest of the kernel
  (files, memory) is a value of a type \<open>'x\<close>.
\<close>

datatype kt_state_t = KT_NO_STATE | KT_RUN | KT_SLEEP | KT_SLEEP_CANCELLABLE | KT_EXITED

datatype p_state_t = PROC_RUNNING | PROC_DEAD

datatype qid = Kt_runq | P_wait addr | Km_waitq addr

datatype ipl_t = IPL_LOW | IPL_HIGH

record ktqueue =
  tq_list :: "addr list"
  tq_size :: int

record kthread =
  kt_kstack :: addr
  kt_retval :: int
  kt_errno :: int
  kt_proc :: addr
  kt_cancelled :: int
  kt_wchan :: "qid option"
  kt_state :: kt_state_t
  kt_qlinked :: bool
  kt_oldipl :: ipl_t

record proc =
  p_pid :: int
  p_comm :: string
  p_threads :: "addr list"
  p_children :: "addr list"
  p_pproc :: addr
  p_status :: int
  p_state :: p_state_t
  p_pagedir :: addr
  p_files :: "addr list"
  p_cwd :: addr
  p_brk :: addr
  p_start_brk :: addr
  p_vmmap :: addr

record 'x kernel =
  threads :: "addr \<rightharpoonup> kthread"
  procs :: "addr \<rightharpoonup> proc"
  queues :: "qid \<Rightarrow> ktqueue"
  proc_list :: "addr list"
  next_pid :: int
  proc_initproc :: addr
  curthr :: addr
  curproc :: addr
  ipl :: ipl_t
  km_holder :: "addr \<Rightarrow> addr"
  ext :: 'x

text \<open>
  How a call ends that may give the processor away: it returns, or another thread runs now and
  the rest of the call is done when this thread is switched to again.
\<close>

datatype 'k outcome = Ret 'k | Away 'k

text \<open>Updates of one thread and of one process; \<^const>\<open>None\<close> is an access through a bad pointer.\<close>

definition upd_thr :: "addr \<Rightarrow> (kthread \<Rightarrow> kthread) \<Rightarrow> 'x kernel \<Rightarrow> 'x kernel option" where
  "upd_thr t f s = (case threads s t of None \<Rightarrow> None | Some th \<Rightarrow> Some (s\<lparr>threads := (threads s)(t \<mapsto> f th)\<rparr>))"

definition upd_proc :: "addr \<Rightarrow> (proc \<Rightarrow> proc) \<Rightarrow> 'x kernel \<Rightarrow> 'x kernel option" where
  "upd_proc p f s = (case procs s p of None \<Rightarrow> None | Some pr \<Rightarrow> Some (s\<lparr>procs := (procs s)(p \<mapsto> f pr)\<rparr>))"

lemma upd_thr_Some [simp]: "threads s t = Some th \<Longrightarrow> upd_thr t f s = Some (s\<lparr>threads := (threads s)(t \<mapsto> f th)\<rparr>)"
  by (simp add: upd_thr_def)

lemma upd_proc_Some [simp]: "procs s p = Some pr \<Longrightarrow> upd_proc p f s = Some (s\<lparr>procs := (procs s)(p \<mapsto> f pr)\<rparr>)"
  by (simp add: upd_proc_def)

lemma upd_thrE:
  assumes "upd_thr t f s = Some s'"
  obtains th where "threads s t = Some th" "s' = s\<lparr>threads := (threads s)(t \<mapsto> f th)\<rparr>"
  using assms by (auto simp: upd_thr_def split: option.splits)

lemma upd_procE:
  assumes "upd_proc p f s = Some s'"
  obtains pr where "procs s p = Some pr" "s' = s\<lparr>procs := (procs s)(p \<mapsto> f pr)\<rparr>"
  using assms by (auto simp: upd_proc_def split: option.splits)

end
