(* ===== verification/Sched.thy ===== *)
theory Sched
  imports Kstate
begin

text \<open>
  The scheduler, \<^verbatim>\<open>sched.c\<close>: the queues threads wait on and the operations that move threads
  between them.  A result \<^const>\<open>None\<close> is a failed \<^verbatim>\<open>KASSERT\<close>, an access through a bad pointer or,
  for \<open>sched_switch\<close>, waiting for work forever.

  \<open>sched_switch\<close> saves the context of one thread and continues in that of another.  Its model
  ends at \<open>context_switch\<close>: the state it gives is the one in which the other thread continues.
  What is left of the call is done when the thread is switched to again (\<open>sched_switch_end\<close> and,
  for a cancellable sleep, \<open>check_cancelled\<close>).  Interrupt handlers are not among the sources;
  they are the parameter \<open>intr\<close>, constrained by \<open>intr_ok\<close> where that matters.
\<close>

section \<open>Queues\<close>

definition ktqueue_enqueue :: "qid \<Rightarrow> addr \<Rightarrow> 'x kernel \<Rightarrow> 'x kernel option" where
  "ktqueue_enqueue q thr s = do {
     th \<leftarrow> threads s thr;
     if kt_wchan th \<noteq> None then None
     else Some (s\<lparr>queues := (queues s)(q := \<lparr>tq_list = thr # tq_list (queues s q), tq_size = tq_size (queues s q) + 1\<rparr>),
                  threads := (threads s)(thr \<mapsto> th\<lparr>kt_wchan := Some q, kt_qlinked := True\<rparr>)\<rparr>)
   }"

definition ktqueue_dequeue :: "qid \<Rightarrow> 'x kernel \<Rightarrow> (addr \<times> 'x kernel) option" where
  "ktqueue_dequeue q s =
     (let l = tq_list (queues s q) in
      if l = [] then Some (NULL, s)
      else do {
        th \<leftarrow> threads s (last l);
        Some (last l, s\<lparr>queues := (queues s)(q := \<lparr>tq_list = butlast l, tq_size = tq_size (queues s q) - 1\<rparr>),
                        threads := (threads s)(last l \<mapsto> th\<lparr>kt_wchan := None, kt_qlinked := False\<rparr>)\<rparr>)
      })"

definition ktqueue_remove :: "qid option \<Rightarrow> addr \<Rightarrow> 'x kernel \<Rightarrow> 'x kernel option" where
  "ktqueue_remove qo thr s = do {
     th \<leftarrow> threads s thr;
     q \<leftarrow> qo;
     if \<not> kt_qlinked th then None
     else Some (s\<lparr>queues := (queues s)(q := \<lparr>tq_list = remove1 thr (tq_list (queues s q)), tq_size = tq_size (queues s q) - 1\<rparr>),
                  threads := (threads s)(thr \<mapsto> th\<lparr>kt_wchan := None, kt_qlinked := False\<rparr>)\<rparr>)
   }"

definition sched_queue_init :: "qid \<Rightarrow> 'x kernel \<Rightarrow> 'x kernel" where
  "sched_queue_init q s = s\<lparr>queues := (queues s)(q := \<lparr>tq_list = [], tq_size = 0\<rparr>)\<rparr>"

definition sched_queue_empty :: "qid \<Rightarrow> 'x kernel \<Rightarrow> bool" where
  "sched_queue_empty q s \<longleftrightarrow> tq_list (queues s q) = []"

definition sched_init :: "'x kernel \<Rightarrow> 'x kernel" where
  "sched_init s = sched_queue_init Kt_runq s"

section \<open>The scheduler\<close>

definition sched_make_runnable :: "addr \<Rightarrow> 'x kernel \<Rightarrow> 'x kernel option" where
  "sched_make_runnable thr s = do {
     th \<leftarrow> threads s thr;
     if thr = NULL \<or> kt_wchan th = Some Kt_runq then None
     else do {
       let oldipl = ipl s;
       let s = s\<lparr>ipl := IPL_HIGH\<rparr>;
       s \<leftarrow> upd_thr thr (\<lambda>th. th\<lparr>kt_state := KT_RUN\<rparr>) s;
       s \<leftarrow> ktqueue_enqueue Kt_runq thr s;
       Some (s\<lparr>ipl := oldipl\<rparr>)
     }
   }"

text \<open>
  The loop that waits for work.  \<open>intr n\<close> is what happens in the \<open>n\<close>-th wait: \<open>intr_disable\<close>, the
  priority level set low, and \<open>intr_wait\<close> with the interrupt handlers that run in it.
\<close>

partial_function (option) switch_wait :: "(nat \<Rightarrow> 'x kernel \<Rightarrow> 'x kernel) \<Rightarrow> nat \<Rightarrow> 'x kernel \<Rightarrow> 'x kernel option" where
  "switch_wait intr n s =
     (if sched_queue_empty Kt_runq s then switch_wait intr (Suc n) (intr n (s\<lparr>ipl := IPL_LOW\<rparr>)) else Some s)"

definition sched_switch :: "(nat \<Rightarrow> 'x kernel \<Rightarrow> 'x kernel) \<Rightarrow> 'x kernel \<Rightarrow> 'x kernel option" where
  "sched_switch intr s =
     (if curthr s = NULL then None
      else do {
        let oldipl = ipl s;
        s \<leftarrow> upd_thr (curthr s) (\<lambda>th. th\<lparr>kt_oldipl := oldipl\<rparr>) s;
        s \<leftarrow> switch_wait intr 0 (s\<lparr>ipl := IPL_HIGH\<rparr>);
        (t, s) \<leftarrow> ktqueue_dequeue Kt_runq (s\<lparr>ipl := IPL_HIGH\<rparr>);
        th \<leftarrow> threads s t;
        Some (s\<lparr>curthr := t, curproc := kt_proc th\<rparr>)
      })"

text \<open>The end of \<open>sched_switch\<close>, in the thread that is switched to again.\<close>

definition sched_switch_end :: "'x kernel \<Rightarrow> 'x kernel option" where
  "sched_switch_end s = do { th \<leftarrow> threads s (curthr s); Some (s\<lparr>ipl := kt_oldipl th\<rparr>) }"

definition sched_sleep_on :: "(nat \<Rightarrow> 'x kernel \<Rightarrow> 'x kernel) \<Rightarrow> qid \<Rightarrow> 'x kernel \<Rightarrow> 'x kernel option" where
  "sched_sleep_on intr q s =
     (if curthr s = NULL then None
      else do {
        s \<leftarrow> upd_thr (curthr s) (\<lambda>th. th\<lparr>kt_state := KT_SLEEP\<rparr>) s;
        s \<leftarrow> ktqueue_enqueue q (curthr s) s;
        sched_switch intr s
      })"

text \<open>What both ends of a cancellable sleep do: the result is whether it ends with \<open>-EINTR\<close>.\<close>

definition check_cancelled :: "'x kernel \<Rightarrow> (bool \<times> 'x kernel) option" where
  "check_cancelled s = do {
     th \<leftarrow> threads s (curthr s);
     if kt_cancelled th = 1 then do {
       s \<leftarrow> upd_proc (curproc s) (\<lambda>p. p\<lparr>p_state := PROC_DEAD\<rparr>) s;
       s \<leftarrow> upd_thr (curthr s) (\<lambda>th. th\<lparr>kt_state := KT_EXITED\<rparr>) s;
       Some (True, s)
     } else Some (False, s)
   }"

definition sched_cancellable_sleep_on ::
  "(nat \<Rightarrow> 'x kernel \<Rightarrow> 'x kernel) \<Rightarrow> qid \<Rightarrow> 'x kernel \<Rightarrow> 'x kernel outcome option" where
  "sched_cancellable_sleep_on intr q s =
     (if curthr s = NULL then None
      else do {
        (eintr, s) \<leftarrow> check_cancelled s;
        if eintr then Some (Ret s)
        else do {
          s \<leftarrow> upd_thr (curthr s) (\<lambda>th. th\<lparr>kt_state := KT_SLEEP_CANCELLABLE\<rparr>) s;
          s \<leftarrow> ktqueue_enqueue q (curthr s) s;
          s \<leftarrow> sched_switch intr s;
          Some (Away s)
        }
      })"

definition sched_wakeup_on :: "qid \<Rightarrow> 'x kernel \<Rightarrow> (addr \<times> 'x kernel) option" where
  "sched_wakeup_on q s =
     (if \<not> sched_queue_empty q s then do {
        (tmp, s) \<leftarrow> ktqueue_dequeue q s;
        th \<leftarrow> threads s tmp;
        if kt_state th \<noteq> KT_SLEEP \<and> kt_state th \<noteq> KT_SLEEP_CANCELLABLE then None
        else do {
          s \<leftarrow> sched_make_runnable tmp s;
          Some (tmp, s)
        }
      } else Some (NULL, s))"

partial_function (option) sched_broadcast_on :: "qid \<Rightarrow> 'x kernel \<Rightarrow> 'x kernel option" where
  "sched_broadcast_on q s =
     (if \<not> sched_queue_empty q s then do {
        (_, s) \<leftarrow> sched_wakeup_on q s;
        sched_broadcast_on q s
      } else Some s)"

definition sched_cancel :: "addr \<Rightarrow> 'x kernel \<Rightarrow> 'x kernel option" where
  "sched_cancel kthr s = do {
     s \<leftarrow> upd_thr kthr (\<lambda>th. th\<lparr>kt_cancelled := 1\<rparr>) s;
     th \<leftarrow> threads s kthr;
     if kt_state th = KT_SLEEP_CANCELLABLE then do {
       s \<leftarrow> ktqueue_remove (kt_wchan th) kthr s;
       sched_make_runnable kthr s
     } else Some s
   }"

section \<open>The invariant of the queues\<close>

definition wait_state :: "qid \<Rightarrow> kt_state_t \<Rightarrow> bool" where
  "wait_state q st \<longleftrightarrow> (if q = Kt_runq then st = KT_RUN else st = KT_SLEEP \<or> st = KT_SLEEP_CANCELLABLE)"

definition thr_ok :: "kthread \<Rightarrow> bool" where
  "thr_ok th \<longleftrightarrow> kt_qlinked th = (kt_wchan th \<noteq> None) \<and> (\<forall>q. kt_wchan th = Some q \<longrightarrow> wait_state q (kt_state th))"

definition wf_queues :: "'x kernel \<Rightarrow> bool" where
  "wf_queues s \<longleftrightarrow> threads s NULL = None \<and>
     (\<forall>q. distinct (tq_list (queues s q)) \<and> tq_size (queues s q) = int (length (tq_list (queues s q)))) \<and>
     (\<forall>q t. t \<in> set (tq_list (queues s q)) \<longleftrightarrow> (\<exists>th. threads s t = Some th \<and> kt_wchan th = Some q)) \<and>
     (\<forall>t th. threads s t = Some th \<longrightarrow> thr_ok th)"

text \<open>
  A thread that is on no queue is found again only if it is the current one; every other one
  has not started or has exited.
\<close>

definition parked :: "'x kernel \<Rightarrow> addr \<Rightarrow> bool" where
  "parked s t \<longleftrightarrow> (\<forall>th. threads s t = Some th \<longrightarrow> kt_wchan th \<noteq> None \<or> kt_state th \<in> {KT_NO_STATE, KT_EXITED})"

definition no_lost :: "'x kernel \<Rightarrow> bool" where
  "no_lost s \<longleftrightarrow> (\<forall>t. t \<noteq> curthr s \<longrightarrow> parked s t)"

definition cur_free :: "'x kernel \<Rightarrow> bool" where
  "cur_free s \<longleftrightarrow> (\<exists>th. threads s (curthr s) = Some th \<and> kt_wchan th = None \<and> kt_state th \<in> {KT_RUN, KT_EXITED})"

definition sched_inv :: "'x kernel \<Rightarrow> bool" where
  "sched_inv s \<longleftrightarrow> wf_queues s \<and> no_lost s \<and> cur_free s"

text \<open>What the scheduler relies on of interrupt handlers: they keep the queues and lose no thread.\<close>

definition intr_ok :: "(nat \<Rightarrow> 'x kernel \<Rightarrow> 'x kernel) \<Rightarrow> bool" where
  "intr_ok intr \<longleftrightarrow> (\<forall>n s. wf_queues s \<and> (\<forall>t. parked s t) \<longrightarrow>
     wf_queues (intr n s) \<and> (\<forall>t. parked (intr n s) t))"

lemma wf_queues_ipl [simp]: "wf_queues (s\<lparr>ipl := i\<rparr>) = wf_queues s" "parked (s\<lparr>ipl := i\<rparr>) t = parked s t"
  by (simp_all add: wf_queues_def parked_def)

lemma wf_queuesD:
  assumes "wf_queues s"
  shows "threads s NULL = None" "distinct (tq_list (queues s q))"
    "tq_size (queues s q) = int (length (tq_list (queues s q)))"
    "t \<in> set (tq_list (queues s q)) \<longleftrightarrow> (\<exists>th. threads s t = Some th \<and> kt_wchan th = Some q)"
    "threads s t = Some th \<Longrightarrow> thr_ok th"
  using assms by (simp_all add: wf_queues_def)

text \<open>Changing one thread, with the queues changed to match.\<close>

lemma wf_queues_upd:
  assumes w: "wf_queues s" and t: "threads s t = Some th" and ok: "thr_ok th'"
    and q: "\<And>q. distinct (tq_list (qs q)) \<and> tq_size (qs q) = int (length (tq_list (qs q)))"
    and other: "\<And>q u. u \<noteq> t \<Longrightarrow> u \<in> set (tq_list (qs q)) \<longleftrightarrow> u \<in> set (tq_list (queues s q))"
    and self: "\<And>q. t \<in> set (tq_list (qs q)) \<longleftrightarrow> kt_wchan th' = Some q"
  shows "wf_queues (s\<lparr>queues := qs, threads := (threads s)(t \<mapsto> th')\<rparr>)"
proof -
  have "t \<noteq> NULL" using wf_queuesD(1) [OF w] t by (metis option.distinct(1))
  moreover have "u \<in> set (tq_list (qs q)) \<longleftrightarrow> (\<exists>th. ((threads s)(t \<mapsto> th')) u = Some th \<and> kt_wchan th = Some q)" for q u
    using other self wf_queuesD(4) [OF w] by (cases "u = t") auto
  ultimately show ?thesis
    using w ok q unfolding wf_queues_def by auto
qed

lemma wf_queues_thr:
  assumes w: "wf_queues s" and t: "threads s t = Some th" and ok: "thr_ok th'" and wc: "kt_wchan th' = kt_wchan th"
  shows "wf_queues (s\<lparr>threads := (threads s)(t \<mapsto> th')\<rparr>)"
proof -
  have "t \<in> set (tq_list (queues s q)) \<longleftrightarrow> kt_wchan th' = Some q" for q
    using wf_queuesD(4) [OF w, of t q] t wc by simp
  from wf_queues_upd [where qs = "queues s", OF w t ok _ _ this]
  show ?thesis using wf_queuesD(2,3) [OF w] by simp
qed

lemma enqueue_eq:
  assumes "ktqueue_enqueue q t s = Some s'"
  obtains th where "threads s t = Some th" "kt_wchan th = None"
    "s' = s\<lparr>queues := (queues s)(q := \<lparr>tq_list = t # tq_list (queues s q), tq_size = tq_size (queues s q) + 1\<rparr>),
       threads := (threads s)(t \<mapsto> th\<lparr>kt_wchan := Some q, kt_qlinked := True\<rparr>)\<rparr>"
  using assms by (auto simp: ktqueue_enqueue_def split: bind_splits if_splits)

lemma enqueue_wf:
  assumes w: "wf_queues s" and e: "ktqueue_enqueue q t s = Some s'"
    and st: "\<And>th. threads s t = Some th \<Longrightarrow> wait_state q (kt_state th)"
  shows "wf_queues s'"
proof (rule enqueue_eq [OF e])
  fix th assume th: "threads s t = Some th" "kt_wchan th = None"
    and s': "s' = s\<lparr>queues := (queues s)(q := \<lparr>tq_list = t # tq_list (queues s q), tq_size = tq_size (queues s q) + 1\<rparr>),
       threads := (threads s)(t \<mapsto> th\<lparr>kt_wchan := Some q, kt_qlinked := True\<rparr>)\<rparr>"
  have "t \<notin> set (tq_list (queues s q'))" for q' using wf_queuesD(4) [OF w] th by simp
  then show ?thesis
    unfolding s' using wf_queuesD(2,3) [OF w] st [OF th(1)]
    by (intro wf_queues_upd [OF w th(1)]) (auto simp: thr_ok_def)
qed

lemma dequeue_eq:
  assumes w: "wf_queues s" and ne: "tq_list (queues s q) = ts @ [t]"
  obtains th where "threads s t = Some th" "kt_wchan th = Some q" "wait_state q (kt_state th)"
    "ktqueue_dequeue q s = Some (t, s\<lparr>queues := (queues s)(q := \<lparr>tq_list = ts, tq_size = tq_size (queues s q) - 1\<rparr>),
       threads := (threads s)(t \<mapsto> th\<lparr>kt_wchan := None, kt_qlinked := False\<rparr>)\<rparr>)"
proof -
  obtain th where "threads s t = Some th" "kt_wchan th = Some q"
    using wf_queuesD(4) [OF w, of t q] ne by auto
  then show thesis
    using that wf_queuesD(5) [OF w] ne by (auto simp: ktqueue_dequeue_def thr_ok_def)
qed

lemma unqueue_wf:
  assumes w: "wf_queues s" and t: "threads s t = Some th" "kt_wchan th = Some q"
    and l: "distinct l" "set l = set (tq_list (queues s q)) - {t}" "k = int (length l)"
  shows "wf_queues (s\<lparr>queues := (queues s)(q := \<lparr>tq_list = l, tq_size = k\<rparr>),
       threads := (threads s)(t \<mapsto> th\<lparr>kt_wchan := None, kt_qlinked := False\<rparr>)\<rparr>)"
  using wf_queuesD(2,3) [OF w] wf_queuesD(4) [OF w, of t] t l
  by (intro wf_queues_upd [OF w t(1)]) (auto simp: thr_ok_def)

lemma dequeue_wf:
  assumes w: "wf_queues s" and ne: "tq_list (queues s q) = ts @ [t]"
  shows "\<exists>th. threads s t = Some th \<and> kt_wchan th = Some q \<and> wait_state q (kt_state th) \<and>
    (\<exists>s'. ktqueue_dequeue q s = Some (t, s') \<and> wf_queues s' \<and>
       s' = s\<lparr>queues := (queues s)(q := \<lparr>tq_list = ts, tq_size = tq_size (queues s q) - 1\<rparr>),
       threads := (threads s)(t \<mapsto> th\<lparr>kt_wchan := None, kt_qlinked := False\<rparr>)\<rparr>)"
proof (rule dequeue_eq [OF w ne])
  fix th assume th: "threads s t = Some th" "kt_wchan th = Some q" "wait_state q (kt_state th)"
    "ktqueue_dequeue q s = Some (t, s\<lparr>queues := (queues s)(q := \<lparr>tq_list = ts, tq_size = tq_size (queues s q) - 1\<rparr>),
       threads := (threads s)(t \<mapsto> th\<lparr>kt_wchan := None, kt_qlinked := False\<rparr>)\<rparr>)"
  have "wf_queues (s\<lparr>queues := (queues s)(q := \<lparr>tq_list = ts, tq_size = tq_size (queues s q) - 1\<rparr>),
       threads := (threads s)(t \<mapsto> th\<lparr>kt_wchan := None, kt_qlinked := False\<rparr>)\<rparr>)"
    using wf_queuesD(2,3) [OF w, of q] ne by (intro unqueue_wf [OF w th(1,2)]) auto
  with th show ?thesis by blast
qed

lemma make_runnable_eq:
  assumes w: "wf_queues s" and t: "threads s t = Some th" "kt_wchan th = None"
  shows "\<exists>s'. sched_make_runnable t s = Some s' \<and> wf_queues s' \<and>
    s' = s\<lparr>queues := (queues s)(Kt_runq := \<lparr>tq_list = t # tq_list (queues s Kt_runq), tq_size = tq_size (queues s Kt_runq) + 1\<rparr>),
       threads := (threads s)(t \<mapsto> th\<lparr>kt_state := KT_RUN, kt_wchan := Some Kt_runq, kt_qlinked := True\<rparr>)\<rparr>"
proof -
  have n: "t \<noteq> NULL" using wf_queuesD(1) [OF w] t by (metis option.distinct(1))
  have "t \<notin> set (tq_list (queues s q'))" for q' using wf_queuesD(4) [OF w] t by simp
  then have "wf_queues (s\<lparr>queues := (queues s)(Kt_runq := \<lparr>tq_list = t # tq_list (queues s Kt_runq), tq_size = tq_size (queues s Kt_runq) + 1\<rparr>),
       threads := (threads s)(t \<mapsto> th\<lparr>kt_state := KT_RUN, kt_wchan := Some Kt_runq, kt_qlinked := True\<rparr>)\<rparr>)"
    using wf_queuesD(2,3) [OF w] by (intro wf_queues_upd [OF w t(1)]) (auto simp: thr_ok_def wait_state_def)
  then show ?thesis
    using t n by (simp add: sched_make_runnable_def ktqueue_enqueue_def)
qed

section \<open>Every operation keeps the invariant\<close>

lemma queue_last: "tq_list (queues s q) \<noteq> [] \<Longrightarrow> tq_list (queues s q) = butlast (tq_list (queues s q)) @ [last (tq_list (queues s q))]"
  by simp

lemma wakeup_empty [simp]: "tq_list (queues s q) = [] \<Longrightarrow> sched_wakeup_on q s = Some (NULL, s)"
  by (simp add: sched_wakeup_on_def sched_queue_empty_def)

lemma wakeup_eq:
  assumes w: "wf_queues s" and q: "q \<noteq> Kt_runq" and ne: "tq_list (queues s q) = ts @ [t]"
  shows "\<exists>th s'. threads s t = Some th \<and> kt_wchan th = Some q \<and> sched_wakeup_on q s = Some (t, s') \<and> wf_queues s' \<and>
    s' = s\<lparr>queues := (queues s)(q := \<lparr>tq_list = ts, tq_size = tq_size (queues s q) - 1\<rparr>,
         Kt_runq := \<lparr>tq_list = t # tq_list (queues s Kt_runq), tq_size = tq_size (queues s Kt_runq) + 1\<rparr>),
       threads := (threads s)(t \<mapsto> th\<lparr>kt_state := KT_RUN, kt_wchan := Some Kt_runq, kt_qlinked := True\<rparr>)\<rparr>"
proof -
  obtain th s1 where d: "threads s t = Some th" "kt_wchan th = Some q" "wait_state q (kt_state th)"
    "ktqueue_dequeue q s = Some (t, s1)" "wf_queues s1"
    "s1 = s\<lparr>queues := (queues s)(q := \<lparr>tq_list = ts, tq_size = tq_size (queues s q) - 1\<rparr>),
       threads := (threads s)(t \<mapsto> th\<lparr>kt_wchan := None, kt_qlinked := False\<rparr>)\<rparr>"
    using dequeue_wf [OF w ne] by blast
  have t1: "threads s1 t = Some (th\<lparr>kt_wchan := None, kt_qlinked := False\<rparr>)" using d(6) by simp
  from make_runnable_eq [OF d(5) t1] obtain s' where r: "sched_make_runnable t s1 = Some s'" "wf_queues s'"
    "s' = s1\<lparr>queues := (queues s1)(Kt_runq := \<lparr>tq_list = t # tq_list (queues s1 Kt_runq), tq_size = tq_size (queues s1 Kt_runq) + 1\<rparr>),
       threads := (threads s1)(t \<mapsto> th\<lparr>kt_wchan := None, kt_qlinked := False, kt_state := KT_RUN, kt_wchan := Some Kt_runq, kt_qlinked := True\<rparr>)\<rparr>"
    by auto
  have "sched_wakeup_on q s = Some (t, s')"
    using d(3,4) t1 r(1) ne q by (auto simp: sched_wakeup_on_def sched_queue_empty_def wait_state_def)
  moreover have "s' = s\<lparr>queues := (queues s)(q := \<lparr>tq_list = ts, tq_size = tq_size (queues s q) - 1\<rparr>,
         Kt_runq := \<lparr>tq_list = t # tq_list (queues s Kt_runq), tq_size = tq_size (queues s Kt_runq) + 1\<rparr>),
       threads := (threads s)(t \<mapsto> th\<lparr>kt_state := KT_RUN, kt_wchan := Some Kt_runq, kt_qlinked := True\<rparr>)\<rparr>"
    unfolding r(3) d(6) using q by simp
  ultimately show ?thesis using d(1,2) r(2) by blast
qed

text \<open>A step that only moves threads that are on queues to the run queue.\<close>

lemma sched_inv_move:
  assumes i: "sched_inv s" and w: "wf_queues s'" and t: "threads s' = (threads s)(t \<mapsto> th')" "kt_wchan th' \<noteq> None"
    "t \<noteq> curthr s" and c: "curthr s' = curthr s"
  shows "sched_inv s'"
proof -
  have "parked s' u" if "parked s u" for u using that t by (auto simp: parked_def)
  moreover have "cur_free s'" using i t c by (simp add: sched_inv_def cur_free_def)
  ultimately show ?thesis using i w c by (simp add: sched_inv_def no_lost_def)
qed

lemma sched_inv_thr:
  assumes i: "sched_inv s" and t: "threads s t = Some th" and ok: "thr_ok th'"
    and eq: "kt_wchan th' = kt_wchan th" "kt_state th' = kt_state th"
  shows "sched_inv (s\<lparr>threads := (threads s)(t \<mapsto> th')\<rparr>)"
proof -
  let ?s = "s\<lparr>threads := (threads s)(t \<mapsto> th')\<rparr>"
  have "wf_queues ?s" using i wf_queues_thr [OF _ t ok eq(1)] by (simp add: sched_inv_def)
  moreover have "parked ?s u" if "parked s u" for u
    using that t eq by (cases "u = t") (auto simp: parked_def)
  moreover have "cur_free ?s" using i t eq by (cases "curthr s = t") (auto simp: sched_inv_def cur_free_def)
  ultimately show ?thesis using i by (simp add: sched_inv_def no_lost_def)
qed

lemma on_queue_not_cur: "sched_inv s \<Longrightarrow> threads s t = Some th \<Longrightarrow> kt_wchan th = Some q \<Longrightarrow> t \<noteq> curthr s"
  by (auto simp: sched_inv_def cur_free_def)

lemma wakeup_inv:
  assumes i: "sched_inv s" and q: "q \<noteq> Kt_runq"
  shows "\<exists>t s'. sched_wakeup_on q s = Some (t, s') \<and> sched_inv s' \<and> curthr s' = curthr s \<and>
    (\<exists>xs. tq_list (queues s' Kt_runq) = xs @ tq_list (queues s Kt_runq))"
proof (cases "tq_list (queues s q) = []")
  case True
  then show ?thesis using i by simp
next
  case False
  have w: "wf_queues s" using i by (simp add: sched_inv_def)
  obtain th s' where e: "threads s (last (tq_list (queues s q))) = Some th" "kt_wchan th = Some q"
    "sched_wakeup_on q s = Some (last (tq_list (queues s q)), s')" "wf_queues s'"
    "s' = s\<lparr>queues := (queues s)(q := \<lparr>tq_list = butlast (tq_list (queues s q)), tq_size = tq_size (queues s q) - 1\<rparr>,
         Kt_runq := \<lparr>tq_list = last (tq_list (queues s q)) # tq_list (queues s Kt_runq), tq_size = tq_size (queues s Kt_runq) + 1\<rparr>),
       threads := (threads s)(last (tq_list (queues s q)) \<mapsto> th\<lparr>kt_state := KT_RUN, kt_wchan := Some Kt_runq, kt_qlinked := True\<rparr>)\<rparr>"
    using wakeup_eq [OF w q queue_last [OF False]] by blast
  show ?thesis
    using e(3) sched_inv_move [OF i e(4) _ _ on_queue_not_cur [OF i e(1,2)]] e(5) by simp
qed

lemma broadcast_eq:
  assumes "sched_inv s" "q \<noteq> Kt_runq"
  shows "\<exists>s'. sched_broadcast_on q s = Some s' \<and> sched_inv s' \<and> curthr s' = curthr s \<and> tq_list (queues s' q) = [] \<and>
    tq_list (queues s' Kt_runq) = tq_list (queues s q) @ tq_list (queues s Kt_runq) \<and>
    (\<forall>q'. q' \<noteq> q \<and> q' \<noteq> Kt_runq \<longrightarrow> queues s' q' = queues s q')"
  using assms(1)
proof (induction "tq_list (queues s q)" arbitrary: s rule: rev_induct)
  case Nil
  then show ?case by (subst sched_broadcast_on.simps) (simp add: sched_queue_empty_def)
next
  case (snoc t ts)
  have w: "wf_queues s" using snoc.prems by (simp add: sched_inv_def)
  obtain th s1 where e: "threads s t = Some th" "kt_wchan th = Some q" "sched_wakeup_on q s = Some (t, s1)" "wf_queues s1"
    "s1 = s\<lparr>queues := (queues s)(q := \<lparr>tq_list = ts, tq_size = tq_size (queues s q) - 1\<rparr>,
         Kt_runq := \<lparr>tq_list = t # tq_list (queues s Kt_runq), tq_size = tq_size (queues s Kt_runq) + 1\<rparr>),
       threads := (threads s)(t \<mapsto> th\<lparr>kt_state := KT_RUN, kt_wchan := Some Kt_runq, kt_qlinked := True\<rparr>)\<rparr>"
    using wakeup_eq [OF w assms(2) snoc.hyps(2) [symmetric]] by blast
  have i1: "sched_inv s1"
    using sched_inv_move [OF snoc.prems e(4) _ _ on_queue_not_cur [OF snoc.prems e(1,2)]] e(5) by simp
  have q1: "ts = tq_list (queues s1 q)" "tq_list (queues s1 Kt_runq) = t # tq_list (queues s Kt_runq)" "curthr s1 = curthr s"
    "\<forall>q'. q' \<noteq> q \<and> q' \<noteq> Kt_runq \<longrightarrow> queues s1 q' = queues s q'"
    using e(5) assms(2) by auto
  obtain s' where s': "sched_broadcast_on q s1 = Some s'" "sched_inv s'" "curthr s' = curthr s1" "tq_list (queues s' q) = []"
    "tq_list (queues s' Kt_runq) = tq_list (queues s1 q) @ tq_list (queues s1 Kt_runq)"
    "\<forall>q'. q' \<noteq> q \<and> q' \<noteq> Kt_runq \<longrightarrow> queues s' q' = queues s1 q'"
    using snoc.hyps(1) [OF q1(1) i1] by blast
  have "sched_broadcast_on q s = Some s'"
    using e(3) s'(1) snoc.hyps(2) [symmetric] by (subst sched_broadcast_on.simps) (simp add: sched_queue_empty_def)
  then show ?case using s'(2-6) q1 snoc.hyps(2) [symmetric] by auto
qed

lemma broadcast_induct:
  assumes "sched_inv s" "q \<noteq> Kt_runq" "sched_broadcast_on q s = Some s'" "P s"
    and step: "\<And>s t s'. sched_inv s \<Longrightarrow> P s \<Longrightarrow> sched_wakeup_on q s = Some (t, s') \<Longrightarrow> P s'"
  shows "P s'"
  using assms(1,3,4)
proof (induction "length (tq_list (queues s q))" arbitrary: s)
  case 0
  then show ?case by (subst (asm) sched_broadcast_on.simps) (simp add: sched_queue_empty_def)
next
  case (Suc n)
  have ne: "tq_list (queues s q) \<noteq> []" using Suc.hyps(2) by auto
  have w: "wf_queues s" using Suc.prems(1) by (simp add: sched_inv_def)
  obtain t s1 where e: "sched_wakeup_on q s = Some (t, s1)" "sched_inv s1" using wakeup_inv [OF Suc.prems(1) assms(2)] by blast
  have "tq_list (queues s1 q) = butlast (tq_list (queues s q))" using wakeup_eq [OF w assms(2) queue_last [OF ne]] e(1) assms(2) by auto
  then have "n = length (tq_list (queues s1 q))" using Suc.hyps(2) by simp
  moreover have "sched_broadcast_on q s1 = Some s'"
    using Suc.prems(2) ne e(1) by (subst (asm) sched_broadcast_on.simps) (simp add: sched_queue_empty_def)
  ultimately show ?case using Suc.hyps(1) [OF _ e(2)] step [OF Suc.prems(1,3) e(1)] by blast
qed

lemma remove_ok:
  assumes w: "wf_queues s" and t: "threads s t = Some th" "kt_wchan th = Some q"
  shows "\<exists>s'. ktqueue_remove (Some q) t s = Some s' \<and> wf_queues s' \<and> curthr s' = curthr s \<and> km_holder s' = km_holder s \<and>
    threads s' = (threads s)(t \<mapsto> th\<lparr>kt_wchan := None, kt_qlinked := False\<rparr>) \<and>
    tq_list (queues s' q) = remove1 t (tq_list (queues s q)) \<and> (\<forall>q'. q' \<noteq> q \<longrightarrow> queues s' q' = queues s q')"
proof -
  have ql: "kt_qlinked th" using wf_queuesD(5) [OF w t(1)] t(2) by (simp add: thr_ok_def)
  have tq: "t \<in> set (tq_list (queues s q))" using wf_queuesD(4) [OF w] t by blast
  then have "0 < length (tq_list (queues s q))" by (rule length_pos_if_in_set)
  then have k: "tq_size (queues s q) - 1 = int (length (remove1 t (tq_list (queues s q))))"
    using tq wf_queuesD(3) [OF w, of q] by (simp add: length_remove1 of_nat_diff Suc_leI)
  have "wf_queues (s\<lparr>queues := (queues s)(q := \<lparr>tq_list = remove1 t (tq_list (queues s q)), tq_size = tq_size (queues s q) - 1\<rparr>),
      threads := (threads s)(t \<mapsto> th\<lparr>kt_wchan := None, kt_qlinked := False\<rparr>)\<rparr>)"
    by (rule unqueue_wf [OF w t _ _ k]) (use wf_queuesD(2) [OF w, of q] in simp_all)
  then show ?thesis using t ql by (simp add: ktqueue_remove_def)
qed

lemma make_runnable_ok:
  assumes "wf_queues s" "threads s t = Some th" "kt_wchan th = None"
  shows "\<exists>s'. sched_make_runnable t s = Some s' \<and> wf_queues s' \<and> curthr s' = curthr s \<and> km_holder s' = km_holder s \<and>
    threads s' = (threads s)(t \<mapsto> th\<lparr>kt_state := KT_RUN, kt_wchan := Some Kt_runq, kt_qlinked := True\<rparr>) \<and>
    tq_list (queues s' Kt_runq) = t # tq_list (queues s Kt_runq) \<and> (\<forall>q'. q' \<noteq> Kt_runq \<longrightarrow> queues s' q' = queues s q')"
  using make_runnable_eq [OF assms] by auto

lemma cancel_eq:
  assumes i: "sched_inv s" and th: "threads s t = Some th"
  shows "\<exists>s' th'. sched_cancel t s = Some s' \<and> sched_inv s' \<and> curthr s' = curthr s \<and> km_holder s' = km_holder s \<and>
    threads s' = (threads s)(t \<mapsto> th') \<and> kt_cancelled th' = 1 \<and>
    (if kt_state th = KT_SLEEP_CANCELLABLE
     then tq_list (queues s' Kt_runq) = t # tq_list (queues s Kt_runq) \<and>
       (\<forall>q. q \<noteq> Kt_runq \<and> kt_wchan th \<noteq> Some q \<longrightarrow> queues s' q = queues s q)
     else kt_state th' = kt_state th \<and> queues s' = queues s)"
proof -
  define th1 where "th1 = th\<lparr>kt_cancelled := 1\<rparr>"
  define s0 where "s0 = s\<lparr>threads := (threads s)(t \<mapsto> th1)\<rparr>"
  have w: "wf_queues s" using i by (simp add: sched_inv_def)
  have ok: "thr_ok th1" using wf_queuesD(5) [OF w th] by (simp add: thr_ok_def th1_def)
  have i0: "sched_inv s0" "wf_queues s0" using sched_inv_thr [OF i th ok] by (simp_all add: s0_def th1_def sched_inv_def)
  have t0: "threads s0 t = Some th1" "curthr s0 = curthr s" "queues s0 = queues s" "km_holder s0 = km_holder s" "threads s0 = (threads s)(t \<mapsto> th1)" by (simp_all add: s0_def)
  have c0: "sched_cancel t s = (if kt_state th = KT_SLEEP_CANCELLABLE then
      do { s \<leftarrow> ktqueue_remove (kt_wchan th) t s0; sched_make_runnable t s } else Some s0)"
    using th by (simp add: sched_cancel_def s0_def th1_def)
  show ?thesis
  proof (cases "kt_state th = KT_SLEEP_CANCELLABLE")
    case False
    then show ?thesis using i0 t0 c0 by (intro exI [of _ s0] exI [of _ th1]) (simp add: th1_def)
  next
    case True
    have nc: "t \<noteq> curthr s" using i th True by (auto simp: sched_inv_def cur_free_def)
    then have "parked s t" using i by (simp add: sched_inv_def no_lost_def)
    then obtain q where q: "kt_wchan th = Some q" using th True by (auto simp: parked_def)
    have qr: "q \<noteq> Kt_runq" using wf_queuesD(5) [OF w th] q True by (auto simp: thr_ok_def wait_state_def)
    obtain s1 where s1: "ktqueue_remove (Some q) t s0 = Some s1" "wf_queues s1" "curthr s1 = curthr s0" "km_holder s1 = km_holder s0"
      "threads s1 = (threads s0)(t \<mapsto> th1\<lparr>kt_wchan := None, kt_qlinked := False\<rparr>)" "\<forall>q'. q' \<noteq> q \<longrightarrow> queues s1 q' = queues s0 q'"
      using remove_ok [OF i0(2) t0(1), of q] q by (auto simp: th1_def)
    then have "threads s1 t = Some (th1\<lparr>kt_wchan := None, kt_qlinked := False\<rparr>)" by simp
    from make_runnable_ok [OF s1(2) this] obtain s2 where s2: "sched_make_runnable t s1 = Some s2" "wf_queues s2"
      "curthr s2 = curthr s1" "km_holder s2 = km_holder s1" "threads s2 = (threads s1)(t \<mapsto> th1\<lparr>kt_state := KT_RUN, kt_wchan := Some Kt_runq, kt_qlinked := True\<rparr>)"
      "tq_list (queues s2 Kt_runq) = t # tq_list (queues s1 Kt_runq)" "\<forall>q'. q' \<noteq> Kt_runq \<longrightarrow> queues s2 q' = queues s1 q'"
      by auto
    let ?th = "th1\<lparr>kt_state := KT_RUN, kt_wchan := Some Kt_runq, kt_qlinked := True\<rparr>"
    have ts: "threads s2 = (threads s)(t \<mapsto> ?th)" by (simp add: s2(5) s1(5) t0(5))
    have "sched_inv s2" by (rule sched_inv_move [OF i s2(2) ts _ nc]) (simp_all add: s2(3) s1(3) t0(2))
    moreover have "sched_cancel t s = Some s2" using c0 True q s1(1) s2(1) by simp
    moreover have "tq_list (queues s2 Kt_runq) = t # tq_list (queues s Kt_runq)" using s2(6) s1(6) qr t0(3) by simp
    moreover have "\<forall>q'. q' \<noteq> Kt_runq \<and> kt_wchan th \<noteq> Some q' \<longrightarrow> queues s2 q' = queues s q'" using s2(7) s1(6) t0(3) q by auto
    moreover have "kt_cancelled ?th = 1" "curthr s2 = curthr s" "km_holder s2 = km_holder s"
      using s2(3,4) s1(3,4) t0(2,4) by (simp_all add: th1_def)
    ultimately show ?thesis using ts True by (intro exI [of _ s2] exI [of _ ?th]) simp
  qed
qed

lemma cancel_inv:
  assumes "sched_inv s" "threads s t \<noteq> None"
  shows "\<exists>s'. sched_cancel t s = Some s' \<and> sched_inv s' \<and> curthr s' = curthr s \<and>
    (\<exists>xs. tq_list (queues s' Kt_runq) = xs @ tq_list (queues s Kt_runq))"
proof -
  obtain th where th: "threads s t = Some th" using assms(2) by blast
  show ?thesis using cancel_eq [OF assms(1) th] by (auto split: if_splits)
qed

lemma make_runnable_inv:
  assumes i: "sched_inv s" and t: "threads s t = Some th" "kt_wchan th = None" "t \<noteq> curthr s"
  shows "\<exists>s'. sched_make_runnable t s = Some s' \<and> sched_inv s' \<and> curthr s' = curthr s \<and> km_holder s' = km_holder s \<and>
    threads s' = (threads s)(t \<mapsto> th\<lparr>kt_state := KT_RUN, kt_wchan := Some Kt_runq, kt_qlinked := True\<rparr>) \<and>
    tq_list (queues s' Kt_runq) = t # tq_list (queues s Kt_runq) \<and> (\<forall>q. q \<noteq> Kt_runq \<longrightarrow> queues s' q = queues s q)"
proof -
  have w: "wf_queues s" using i by (simp add: sched_inv_def)
  from make_runnable_ok [OF w t(1,2)] obtain s' where s': "sched_make_runnable t s = Some s'" "wf_queues s'" "curthr s' = curthr s"
    "km_holder s' = km_holder s"
    "threads s' = (threads s)(t \<mapsto> th\<lparr>kt_state := KT_RUN, kt_wchan := Some Kt_runq, kt_qlinked := True\<rparr>)"
    "tq_list (queues s' Kt_runq) = t # tq_list (queues s Kt_runq)" "\<forall>q. q \<noteq> Kt_runq \<longrightarrow> queues s' q = queues s q" by blast
  then show ?thesis using sched_inv_move [OF i s'(2,5) _ t(3) s'(3)] by auto
qed

section \<open>Switching\<close>

lemma intr_okD:
  assumes "intr_ok intr" "wf_queues s" "\<forall>t. parked s t"
  shows "wf_queues (intr n (s\<lparr>ipl := i\<rparr>)) \<and> (\<forall>t. parked (intr n (s\<lparr>ipl := i\<rparr>)) t)"
proof -
  have "wf_queues (s\<lparr>ipl := i\<rparr>) \<and> (\<forall>t. parked (s\<lparr>ipl := i\<rparr>) t)" using assms(2,3) by simp
  then show ?thesis using assms(1) unfolding intr_ok_def by blast
qed

lemma switch_wait_induct:
  assumes "switch_wait intr n s = Some s'" "P s" "\<And>n s. P s \<Longrightarrow> P (intr n (s\<lparr>ipl := IPL_LOW\<rparr>))"
  shows "P s' \<and> tq_list (queues s' Kt_runq) \<noteq> []"
proof -
  have "(\<forall>n s. P s \<longrightarrow> P (intr n (s\<lparr>ipl := IPL_LOW\<rparr>))) \<longrightarrow> P s \<longrightarrow> P s' \<and> tq_list (queues s' Kt_runq) \<noteq> []"
    using assms(1)
  proof (rule switch_wait.raw_induct [rotated], goal_cases)
    case (1 f i n u r)
    show ?case
    proof (cases "sched_queue_empty Kt_runq u")
      case True
      with 1(2) have "f i (Suc n) (i n (u\<lparr>ipl := IPL_LOW\<rparr>)) = Some r" by simp
      from 1(1) [OF this] show ?thesis by blast
    qed (use 1(2) in \<open>auto simp: sched_queue_empty_def\<close>)
  qed
  then show ?thesis using assms(2,3) by blast
qed

lemma switch_wait_ok:
  assumes "switch_wait intr n s = Some s'" "intr_ok intr" "wf_queues s" "\<And>t. parked s t"
  shows "wf_queues s' \<and> (\<forall>t. parked s' t) \<and> tq_list (queues s' Kt_runq) \<noteq> []"
  using switch_wait_induct [OF assms(1), where P = "\<lambda>s. wf_queues s \<and> (\<forall>t. parked s t)"] assms(3,4) intr_okD [OF assms(2)] by blast

lemma switch_wait_now [simp]: "tq_list (queues s Kt_runq) \<noteq> [] \<Longrightarrow> switch_wait intr n s = Some s"
  by (subst switch_wait.simps) (simp add: sched_queue_empty_def)

lemma switch_inv:
  assumes ok: "intr_ok intr" and w: "wf_queues s" and p: "\<And>t. parked s t" and sw: "sched_switch intr s = Some s'"
  shows "sched_inv s'"
proof -
  obtain th where c: "threads s (curthr s) = Some th"
    using sw by (auto simp: sched_switch_def upd_thr_def split: bind_splits option.splits if_splits)
  let ?th = "th\<lparr>kt_oldipl := ipl s\<rparr>"
  let ?s = "s\<lparr>threads := (threads s)(curthr s \<mapsto> ?th), ipl := IPL_HIGH\<rparr>"
  have "thr_ok ?th" using wf_queuesD(5) [OF w c] by (simp add: thr_ok_def)
  then have ws: "wf_queues ?s" using wf_queues_thr [OF w c] by simp
  have ps: "parked ?s t" for t using p [of t] c by (auto simp: parked_def)
  obtain s1 where s1: "switch_wait intr 0 ?s = Some s1"
    using sw c by (auto simp: sched_switch_def split: bind_splits if_splits)
  have k: "wf_queues s1" "\<And>t. parked s1 t" "tq_list (queues s1 Kt_runq) \<noteq> []"
    using switch_wait_ok [OF s1 ok ws ps] by auto
  let ?s2 = "s1\<lparr>ipl := IPL_HIGH\<rparr>" let ?t = "last (tq_list (queues s1 Kt_runq))"
  have w2: "wf_queues ?s2" "tq_list (queues ?s2 Kt_runq) = butlast (tq_list (queues s1 Kt_runq)) @ [?t]"
    using k by simp_all
  obtain tht s3 where d: "threads ?s2 ?t = Some tht" "wait_state Kt_runq (kt_state tht)"
    "ktqueue_dequeue Kt_runq ?s2 = Some (?t, s3)" "wf_queues s3"
    "s3 = ?s2\<lparr>queues := (queues ?s2)(Kt_runq := \<lparr>tq_list = butlast (tq_list (queues s1 Kt_runq)), tq_size = tq_size (queues ?s2 Kt_runq) - 1\<rparr>),
       threads := (threads ?s2)(?t \<mapsto> tht\<lparr>kt_wchan := None, kt_qlinked := False\<rparr>)\<rparr>"
    using dequeue_wf [OF w2] by blast
  have "s' = s3\<lparr>curthr := ?t, curproc := kt_proc tht\<rparr>"
    using sw c s1 d(3,5) by (auto simp: sched_switch_def split: if_splits)
  moreover have "wf_queues (s3\<lparr>curthr := ?t, curproc := kt_proc tht\<rparr>)" using d(4) by (simp add: wf_queues_def)
  ultimately show ?thesis
    using k(2) d(2,5) by (auto simp: sched_inv_def no_lost_def cur_free_def parked_def wait_state_def)
qed

text \<open>
  Putting the current thread to sleep on a queue: the state in which \<open>sched_switch\<close> is called.
\<close>

lemma sleep_prepare:
  assumes i: "sched_inv s" and st: "wait_state q st" and c: "threads s (curthr s) = Some th"
  shows "\<exists>s1. ktqueue_enqueue q (curthr s) (s\<lparr>threads := (threads s)(curthr s \<mapsto> th\<lparr>kt_state := st\<rparr>)\<rparr>) = Some s1 \<and>
    wf_queues s1 \<and> (\<forall>t. parked s1 t) \<and> curthr s1 = curthr s \<and>
    s1 = s\<lparr>queues := (queues s)(q := \<lparr>tq_list = curthr s # tq_list (queues s q), tq_size = tq_size (queues s q) + 1\<rparr>),
      threads := (threads s)(curthr s \<mapsto> th\<lparr>kt_state := st, kt_wchan := Some q, kt_qlinked := True\<rparr>)\<rparr>"
proof -
  have w: "wf_queues s" and n: "no_lost s" and wc: "kt_wchan th = None"
    using i c by (auto simp: sched_inv_def cur_free_def)
  let ?s1 = "s\<lparr>queues := (queues s)(q := \<lparr>tq_list = curthr s # tq_list (queues s q), tq_size = tq_size (queues s q) + 1\<rparr>),
      threads := (threads s)(curthr s \<mapsto> th\<lparr>kt_state := st, kt_wchan := Some q, kt_qlinked := True\<rparr>)\<rparr>"
  have "curthr s \<notin> set (tq_list (queues s q'))" for q' using wf_queuesD(4) [OF w] c wc by simp
  then have "wf_queues ?s1"
    using wf_queuesD(2,3) [OF w] st by (intro wf_queues_upd [OF w c]) (auto simp: thr_ok_def)
  moreover have "parked ?s1 t" for t using n by (auto simp: no_lost_def parked_def)
  ultimately show ?thesis using c wc by (auto simp: ktqueue_enqueue_def)
qed

lemma sleep_inv:
  assumes i: "sched_inv s" and q: "q \<noteq> Kt_runq" and ok: "intr_ok intr" and sl: "sched_sleep_on intr q s = Some s'"
  shows "sched_inv s'"
proof -
  obtain th where c: "threads s (curthr s) = Some th" using i by (auto simp: sched_inv_def cur_free_def)
  have st: "wait_state q KT_SLEEP" using q by (simp add: wait_state_def)
  obtain s1 where s1: "ktqueue_enqueue q (curthr s) (s\<lparr>threads := (threads s)(curthr s \<mapsto> th\<lparr>kt_state := KT_SLEEP\<rparr>)\<rparr>) = Some s1"
    "wf_queues s1" "\<And>t. parked s1 t"
    using sleep_prepare [OF i st c] by blast
  have "sched_switch intr s1 = Some s'"
    using sl c s1(1) by (auto simp: sched_sleep_on_def split: if_splits)
  then show ?thesis by (rule switch_inv [OF ok s1(2,3)])
qed

lemma check_cancelled_inv:
  assumes i: "sched_inv s" and ch: "check_cancelled s = Some (b, s')"
  shows "sched_inv s' \<and> curthr s' = curthr s \<and> (\<not> b \<longrightarrow> s' = s)"
proof -
  obtain th where c: "threads s (curthr s) = Some th" "kt_wchan th = None" using i by (auto simp: sched_inv_def cur_free_def)
  show ?thesis
  proof (cases "kt_cancelled th = 1")
    case False
    then show ?thesis using ch c i by (simp add: check_cancelled_def)
  next
    case True
    then obtain pr where s': "b" "s' = s\<lparr>procs := (procs s)(curproc s \<mapsto> pr),
        threads := (threads s)(curthr s \<mapsto> th\<lparr>kt_state := KT_EXITED\<rparr>)\<rparr>"
      using ch c by (auto simp: check_cancelled_def elim!: upd_procE split: bind_splits)
    have "wf_queues (s\<lparr>threads := (threads s)(curthr s \<mapsto> th\<lparr>kt_state := KT_EXITED\<rparr>)\<rparr>)"
      using i c wf_queuesD(5) [of s "curthr s" th]
      by (intro wf_queues_thr [OF _ c(1)]) (auto simp: sched_inv_def thr_ok_def)
    then show ?thesis
      using i c s' by (auto simp: sched_inv_def wf_queues_def no_lost_def parked_def cur_free_def)
  qed
qed

lemma cancellable_sleep_inv:
  assumes i: "sched_inv s" and q: "q \<noteq> Kt_runq" and ok: "intr_ok intr"
    and sl: "sched_cancellable_sleep_on intr q s = Some r"
  shows "case r of Ret s' \<Rightarrow> sched_inv s' | Away s' \<Rightarrow> sched_inv s'"
proof -
  obtain b s0 where ch: "check_cancelled s = Some (b, s0)"
    using sl by (auto simp: sched_cancellable_sleep_on_def split: bind_splits if_splits)
  note k = check_cancelled_inv [OF i ch]
  show ?thesis
  proof (cases b)
    case True
    then have "r = Ret s0" using sl ch by (auto simp: sched_cancellable_sleep_on_def split: if_splits)
    then show ?thesis using k by simp
  next
    case False
    then have s0: "s0 = s" using k by simp
    obtain th where c: "threads s (curthr s) = Some th" using i by (auto simp: sched_inv_def cur_free_def)
    have st: "wait_state q KT_SLEEP_CANCELLABLE" using q by (simp add: wait_state_def)
    obtain s1 where s1: "ktqueue_enqueue q (curthr s) (s\<lparr>threads := (threads s)(curthr s \<mapsto> th\<lparr>kt_state := KT_SLEEP_CANCELLABLE\<rparr>)\<rparr>) = Some s1"
      "wf_queues s1" "\<And>t. parked s1 t"
      using sleep_prepare [OF i st c] by blast
    obtain s' where "sched_switch intr s1 = Some s'" "r = Away s'"
      using sl ch c s1(1) False s0 by (auto simp: sched_cancellable_sleep_on_def split: if_splits bind_splits)
    then show ?thesis using switch_inv [OF ok s1(2,3)] by simp
  qed
qed

lemma exit_switch_inv:
  assumes i: "sched_inv s" and e: "threads s (curthr s) = Some th" "kt_state th = KT_EXITED" and ok: "intr_ok intr"
    and sw: "sched_switch intr s = Some s'"
  shows "sched_inv s'"
proof (rule switch_inv [OF ok _ _ sw])
  show "wf_queues s" using i by (simp add: sched_inv_def)
  show "parked s t" for t using i e by (cases "t = curthr s") (auto simp: sched_inv_def no_lost_def parked_def)
qed

text \<open>What a switch does when there is work: the thread at the tail of the run queue runs.\<close>

lemma switch_now:
  assumes w: "wf_queues s" and c: "threads s (curthr s) \<noteq> None" and r: "tq_list (queues s Kt_runq) = ts @ [t]"
  shows "\<exists>s'. sched_switch intr s = Some s' \<and> curthr s' = t \<and> tq_list (queues s' Kt_runq) = ts \<and>
    (\<forall>q. q \<noteq> Kt_runq \<longrightarrow> queues s' q = queues s q) \<and> km_holder s' = km_holder s \<and> procs s' = procs s \<and>
    proc_list s' = proc_list s \<and> next_pid s' = next_pid s \<and> proc_initproc s' = proc_initproc s \<and>
    (curthr s \<noteq> t \<longrightarrow> threads s' (curthr s) = map_option (\<lambda>th. th\<lparr>kt_oldipl := ipl s\<rparr>) (threads s (curthr s))) \<and>
    (\<exists>th. threads s t = Some th \<and> curproc s' = kt_proc th \<and>
      map_option (\<lambda>th. (kt_cancelled th, kt_proc th, kt_state th)) (threads s' t) = Some (kt_cancelled th, kt_proc th, kt_state th))"
proof -
  obtain th where th: "threads s (curthr s) = Some th" using c by blast
  have n: "curthr s \<noteq> NULL" using th wf_queuesD(1) [OF w] by (intro notI) simp
  let ?th = "th\<lparr>kt_oldipl := ipl s\<rparr>"
  let ?s = "s\<lparr>threads := (threads s)(curthr s \<mapsto> ?th), ipl := IPL_HIGH\<rparr>"
  have "thr_ok ?th" using wf_queuesD(5) [OF w th] by (simp add: thr_ok_def)
  then have ws: "wf_queues ?s" using wf_queues_thr [OF w th] by simp
  have r': "tq_list (queues ?s Kt_runq) = ts @ [t]" using r by simp
  obtain tht s3 where d: "threads ?s t = Some tht" "ktqueue_dequeue Kt_runq ?s = Some (t, s3)"
    "s3 = ?s\<lparr>queues := (queues ?s)(Kt_runq := \<lparr>tq_list = ts, tq_size = tq_size (queues ?s Kt_runq) - 1\<rparr>),
       threads := (threads ?s)(t \<mapsto> tht\<lparr>kt_wchan := None, kt_qlinked := False\<rparr>)\<rparr>"
    using dequeue_wf [OF ws r'] by blast
  have sw: "switch_wait intr 0 ?s = Some ?s" by (rule switch_wait_now) (simp add: r)
  have "sched_switch intr s = Some (s3\<lparr>curthr := t, curproc := kt_proc tht\<rparr>)"
    using n th sw d(2) d(3) by (simp add: sched_switch_def)
  then show ?thesis using d(1,3) th by (auto split: if_splits)
qed

lemma sleep_runs:
  assumes i: "sched_inv s" and q: "q \<noteq> Kt_runq" and r: "tq_list (queues s Kt_runq) \<noteq> []"
  shows "\<exists>s'. sched_sleep_on intr q s = Some s' \<and> curthr s' = last (tq_list (queues s Kt_runq))"
proof -
  obtain th where c: "threads s (curthr s) = Some th" using i by (auto simp: sched_inv_def cur_free_def)
  have n: "curthr s \<noteq> NULL" using c wf_queuesD(1) [of s] i by (intro notI) (simp add: sched_inv_def)
  have st: "wait_state q KT_SLEEP" using q by (simp add: wait_state_def)
  obtain s1 where s1: "ktqueue_enqueue q (curthr s) (s\<lparr>threads := (threads s)(curthr s \<mapsto> th\<lparr>kt_state := KT_SLEEP\<rparr>)\<rparr>) = Some s1"
    "wf_queues s1" "tq_list (queues s1 Kt_runq) = tq_list (queues s Kt_runq)" "threads s1 (curthr s1) \<noteq> None"
    using sleep_prepare [OF i st c] q by auto
  have "tq_list (queues s1 Kt_runq) = butlast (tq_list (queues s Kt_runq)) @ [last (tq_list (queues s Kt_runq))]" using s1(3) r by simp
  from switch_now [OF s1(2,4) this, of intr] obtain s' where "sched_switch intr s1 = Some s'" "curthr s' = last (tq_list (queues s Kt_runq))"
    by blast
  then show ?thesis using n c s1(1) by (simp add: sched_sleep_on_def)
qed

section \<open>Runs of the scheduler\<close>

text \<open>
  What the threads do to the scheduler.  The number is 1 for a step that ends in another
  thread's context and 0 for any other.  Only \<^verbatim>\<open>sched.c\<close> can name the run queue, so
  nobody else sleeps on it or wakes it up; a thread is made runnable once, when it is created; a
  thread that has exited gives the processor away for good.  \<open>Q\<close> is the set of the queues that
  are used.
\<close>

inductive sched_step :: "(nat \<Rightarrow> 'x kernel \<Rightarrow> 'x kernel) \<Rightarrow> (qid \<Rightarrow> bool) \<Rightarrow> nat \<Rightarrow> 'x kernel \<Rightarrow> 'x kernel \<Rightarrow> bool" for intr Q where
  sleep: "q \<noteq> Kt_runq \<Longrightarrow> Q q \<Longrightarrow> sched_sleep_on intr q s = Some s' \<Longrightarrow> sched_step intr Q 1 s s'"
| cancellable_sleep: "q \<noteq> Kt_runq \<Longrightarrow> Q q \<Longrightarrow> sched_cancellable_sleep_on intr q s = Some (Away s') \<Longrightarrow> sched_step intr Q 1 s s'"
| interrupted: "q \<noteq> Kt_runq \<Longrightarrow> Q q \<Longrightarrow> sched_cancellable_sleep_on intr q s = Some (Ret s') \<Longrightarrow> sched_step intr Q 0 s s'"
| awake: "check_cancelled s = Some (b, s') \<Longrightarrow> sched_step intr Q 0 s s'"
| switch_end: "sched_switch_end s = Some s' \<Longrightarrow> sched_step intr Q 0 s s'"
| wakeup: "q \<noteq> Kt_runq \<Longrightarrow> Q q \<Longrightarrow> sched_wakeup_on q s = Some (t, s') \<Longrightarrow> sched_step intr Q 0 s s'"
| broadcast: "q \<noteq> Kt_runq \<Longrightarrow> Q q \<Longrightarrow> sched_broadcast_on q s = Some s' \<Longrightarrow> sched_step intr Q 0 s s'"
| cancel: "threads s t \<noteq> None \<Longrightarrow> sched_cancel t s = Some s' \<Longrightarrow> sched_step intr Q 0 s s'"
| start: "threads s t = Some th \<Longrightarrow> kt_state th = KT_NO_STATE \<Longrightarrow> kt_wchan th = None \<Longrightarrow> t \<noteq> curthr s \<Longrightarrow>
    sched_make_runnable t s = Some s' \<Longrightarrow> sched_step intr Q 0 s s'"
| exit: "threads s (curthr s) = Some th \<Longrightarrow> kt_state th = KT_EXITED \<Longrightarrow> sched_switch intr s = Some s' \<Longrightarrow> sched_step intr Q 1 s s'"

lemma step_inv:
  assumes "sched_step intr Q k s s'" "intr_ok intr" "sched_inv s"
  shows "sched_inv s'"
  using assms(1)
proof cases
  case (sleep q)
  then show ?thesis using sleep_inv [OF assms(3) _ assms(2)] by blast
next
  case (cancellable_sleep q)
  then show ?thesis using cancellable_sleep_inv [OF assms(3) _ assms(2)] by fastforce
next
  case (interrupted q)
  then show ?thesis using cancellable_sleep_inv [OF assms(3) _ assms(2)] by fastforce
next
  case (awake b)
  then show ?thesis using check_cancelled_inv [OF assms(3)] by blast
next
  case switch_end
  then show ?thesis using assms(3)
    by (auto simp: sched_switch_end_def sched_inv_def no_lost_def cur_free_def split: bind_splits)
next
  case (wakeup q t)
  then show ?thesis using wakeup_inv [OF assms(3), of q] by auto
next
  case (broadcast q)
  then show ?thesis using broadcast_eq [OF assms(3), of q] by auto
next
  case (cancel t)
  then show ?thesis using cancel_inv [OF assms(3), of t] by auto
next
  case (start t th)
  then show ?thesis using make_runnable_inv [OF assms(3), of t th] by auto
next
  case (exit th)
  then show ?thesis using exit_switch_inv [OF assms(3) _ _ assms(2)] by blast
qed

text \<open>How many threads of the run queue run before \<open>t\<close>.\<close>

definition ahead :: "addr \<Rightarrow> 'x kernel \<Rightarrow> nat" where
  "ahead t s = length (takeWhile (\<lambda>u. u \<noteq> t) (rev (tq_list (queues s Kt_runq))))"

lemma ahead_grow: "t \<in> set (tq_list (queues s Kt_runq)) \<Longrightarrow> tq_list (queues s' Kt_runq) = xs @ tq_list (queues s Kt_runq) \<Longrightarrow>
    t \<in> set (tq_list (queues s' Kt_runq)) \<and> ahead t s' = ahead t s"
  by (simp add: ahead_def)

lemma ahead_switch:
  assumes "t \<in> set (tq_list (queues s Kt_runq))" "wf_queues s" "threads s (curthr s) \<noteq> None" "sched_switch intr s = Some s'"
  shows "curthr s' = t \<or> t \<in> set (tq_list (queues s' Kt_runq)) \<and> Suc (ahead t s') = ahead t s"
proof -
  obtain ts u where r: "tq_list (queues s Kt_runq) = ts @ [u]"
    using assms(1) by (cases "tq_list (queues s Kt_runq)" rule: rev_cases) auto
  then show ?thesis using switch_now [OF assms(2,3) r, of intr] assms(1,4) by (auto simp: ahead_def)
qed

lemma ahead_sleep:
  assumes t: "t \<in> set (tq_list (queues s Kt_runq))" and i: "sched_inv s" and q: "q \<noteq> Kt_runq"
    and st: "wait_state q st" and c: "threads s (curthr s) = Some th"
    and e: "ktqueue_enqueue q (curthr s) (s\<lparr>threads := (threads s)(curthr s \<mapsto> th\<lparr>kt_state := st\<rparr>)\<rparr>) = Some s1"
    and sw: "sched_switch intr s1 = Some s'"
  shows "curthr s' = t \<or> t \<in> set (tq_list (queues s' Kt_runq)) \<and> Suc (ahead t s') = ahead t s"
proof -
  have p: "wf_queues s1" "tq_list (queues s1 Kt_runq) = tq_list (queues s Kt_runq)" "threads s1 (curthr s1) \<noteq> None"
    using sleep_prepare [OF i st c] e q by auto
  then have "t \<in> set (tq_list (queues s1 Kt_runq))" "ahead t s1 = ahead t s" using t by (simp_all add: ahead_def)
  then show ?thesis using ahead_switch [OF _ p(1,3) sw, of t] by auto
qed

lemma cancellable_sleep_Ret:
  assumes "sched_cancellable_sleep_on intr q s = Some (Ret s')"
  shows "check_cancelled s = Some (True, s')"
proof (cases "check_cancelled s")
  case None
  then show ?thesis using assms by (simp add: sched_cancellable_sleep_on_def split: if_splits)
next
  case (Some r)
  obtain b s1 where r: "r = (b, s1)" by (cases r)
  have "b \<and> s1 = s'"
  proof (rule ccontr)
    assume "\<not> (b \<and> s1 = s')"
    then have "\<not> b" using assms Some r by (auto simp: sched_cancellable_sleep_on_def split: if_splits)
    then show False using assms Some r
      by (cases "upd_thr (curthr s1) (\<lambda>th. th\<lparr>kt_state := KT_SLEEP_CANCELLABLE\<rparr>) s1")
        (auto simp: sched_cancellable_sleep_on_def bind_eq_Some_conv split: if_splits)
  qed
  then show ?thesis using Some r by simp
qed

lemma cancellable_sleepE:
  assumes sl: "sched_cancellable_sleep_on intr q s = Some (Away s')" and i: "sched_inv s" and c: "threads s (curthr s) = Some cur"
  obtains s1 where "kt_cancelled cur \<noteq> 1"
    "ktqueue_enqueue q (curthr s) (s\<lparr>threads := (threads s)(curthr s \<mapsto> cur\<lparr>kt_state := KT_SLEEP_CANCELLABLE\<rparr>)\<rparr>) = Some s1"
    "sched_switch intr s1 = Some s'"
proof -
  have n: "kt_cancelled cur \<noteq> 1"
    using sl c by (auto simp: sched_cancellable_sleep_on_def check_cancelled_def split: bind_splits if_splits)
  then have "check_cancelled s = Some (False, s)" using c by (simp add: check_cancelled_def)
  then show thesis using that [OF n] sl c by (auto simp: sched_cancellable_sleep_on_def split: if_splits bind_splits)
qed

lemma step_ahead:
  assumes "sched_step intr Q k s s'" and i: "sched_inv s" and t: "t \<in> set (tq_list (queues s Kt_runq))"
  shows "curthr s' = t \<or> t \<in> set (tq_list (queues s' Kt_runq)) \<and> ahead t s' + k = ahead t s"
proof -
  obtain cur where c: "threads s (curthr s) = Some cur" using i by (auto simp: sched_inv_def cur_free_def)
  have w: "wf_queues s" using i by (simp add: sched_inv_def)
  show ?thesis using assms(1)
  proof cases
    case (sleep q)
    then obtain s1 where "ktqueue_enqueue q (curthr s) (s\<lparr>threads := (threads s)(curthr s \<mapsto> cur\<lparr>kt_state := KT_SLEEP\<rparr>)\<rparr>) = Some s1"
      "sched_switch intr s1 = Some s'"
      using c by (auto simp: sched_sleep_on_def split: if_splits bind_splits)
    then show ?thesis using ahead_sleep [OF t i sleep(2) _ c] sleep by (auto simp: wait_state_def)
  next
    case (cancellable_sleep q)
    obtain s1 where "ktqueue_enqueue q (curthr s) (s\<lparr>threads := (threads s)(curthr s \<mapsto> cur\<lparr>kt_state := KT_SLEEP_CANCELLABLE\<rparr>)\<rparr>) = Some s1"
      "sched_switch intr s1 = Some s'"
      by (rule cancellable_sleepE [OF cancellable_sleep(4) i c])
    then show ?thesis using ahead_sleep [OF t i cancellable_sleep(2) _ c] cancellable_sleep(1,2) by (auto simp: wait_state_def)
  next
    case (interrupted q)
    then have "queues s' = queues s"
      by (auto simp: sched_cancellable_sleep_on_def check_cancelled_def elim!: upd_thrE upd_procE split: bind_splits if_splits)
    then show ?thesis using ahead_grow [OF t, of s' "[]"] interrupted by simp
  next
    case (awake b)
    then have "queues s' = queues s"
      by (auto simp: check_cancelled_def elim!: upd_thrE upd_procE split: bind_splits if_splits)
    then show ?thesis using ahead_grow [OF t, of s' "[]"] awake by simp
  next
    case switch_end
    then have "queues s' = queues s" by (auto simp: sched_switch_end_def split: bind_splits)
    then show ?thesis using ahead_grow [OF t, of s' "[]"] switch_end by simp
  next
    case (wakeup q u)
    then show ?thesis using wakeup_inv [OF i, of q] ahead_grow [OF t, of s'] by auto
  next
    case (broadcast q)
    then show ?thesis using broadcast_eq [OF i, of q] ahead_grow [OF t, of s'] by auto
  next
    case (cancel u)
    then show ?thesis using cancel_inv [OF i, of u] ahead_grow [OF t, of s'] by auto
  next
    case (start u th)
    then show ?thesis using make_runnable_inv [OF i, of u th] ahead_grow [OF t, of s' "[u]"] by auto
  next
    case (exit th)
    then show ?thesis using ahead_switch [OF t w _ exit(4)] c by auto
  qed
qed

text \<open>A run of \<open>n\<close> switches in which \<open>t\<close> never gets the processor.\<close>

inductive run_without :: "(nat \<Rightarrow> 'x kernel \<Rightarrow> 'x kernel) \<Rightarrow> (qid \<Rightarrow> bool) \<Rightarrow> addr \<Rightarrow> nat \<Rightarrow> 'x kernel \<Rightarrow> 'x kernel \<Rightarrow> bool" for intr Q t where
  start: "run_without intr Q t 0 s s"
| step: "run_without intr Q t n s s' \<Longrightarrow> sched_step intr Q k s' s'' \<Longrightarrow> curthr s'' \<noteq> t \<Longrightarrow> run_without intr Q t (n + k) s s''"

lemma run_without_ahead:
  assumes "run_without intr Q t n s s'" "intr_ok intr" "sched_inv s" "t \<in> set (tq_list (queues s Kt_runq))"
  shows "sched_inv s' \<and> t \<in> set (tq_list (queues s' Kt_runq)) \<and> ahead t s' + n = ahead t s"
  using assms
proof induction
  case (step n s s' k s'')
  then show ?case using step_inv [OF step.hyps(2)] step_ahead [OF step.hyps(2), of t] by auto
qed auto


section \<open>Properties\<close>



text \<open>
  C32.  Waking all: the loop ends, the queue is empty, and the sleepers are on the run queue in the
  order in which they went to sleep, behind those that were runnable already.
\<close>

theorem broadcast_wakes_all:
  assumes "sched_inv s" "q \<noteq> Kt_runq"
  shows "\<exists>s'. sched_broadcast_on q s = Some s' \<and> tq_list (queues s' q) = [] \<and>
    rev (tq_list (queues s' Kt_runq)) = rev (tq_list (queues s Kt_runq)) @ rev (tq_list (queues s q)) \<and>
    (\<forall>q'. q' \<noteq> q \<and> q' \<noteq> Kt_runq \<longrightarrow> queues s' q' = queues s q')"
  using broadcast_eq [OF assms] by auto


section \<open>Examples\<close>

text \<open>Thread 1 runs, 2 is runnable, 3 sleeps waiting for its children, 4 is new.\<close>

definition demo_thread :: "addr \<Rightarrow> qid option \<Rightarrow> kt_state_t \<Rightarrow> kthread" where
  "demo_thread p q st = \<lparr>kt_kstack = 4096, kt_retval = 0, kt_errno = 0, kt_proc = p, kt_cancelled = 0, kt_wchan = q, kt_state = st,
     kt_qlinked = (q \<noteq> None), kt_oldipl = IPL_LOW\<rparr>"

definition demo_kernel :: "unit kernel" where
  "demo_kernel = \<lparr>threads = [1 \<mapsto> demo_thread 10 None KT_RUN, 2 \<mapsto> demo_thread 10 (Some Kt_runq) KT_RUN,
       3 \<mapsto> demo_thread 11 (Some (P_wait 11)) KT_SLEEP, 4 \<mapsto> demo_thread 11 None KT_NO_STATE],
     procs = Map.empty,
     queues = (\<lambda>_. \<lparr>tq_list = [], tq_size = 0\<rparr>)(Kt_runq := \<lparr>tq_list = [2], tq_size = 1\<rparr>, P_wait 11 := \<lparr>tq_list = [3], tq_size = 1\<rparr>),
     proc_list = [], next_pid = 0, proc_initproc = NULL, curthr = 1, curproc = 10, ipl = IPL_LOW, km_holder = (\<lambda>_. NULL), ext = ()\<rparr>"

lemma demo_inv: "sched_inv demo_kernel"
proof -
  have t: "threads demo_kernel = [1 \<mapsto> demo_thread 10 None KT_RUN, 2 \<mapsto> demo_thread 10 (Some Kt_runq) KT_RUN,
      3 \<mapsto> demo_thread 11 (Some (P_wait 11)) KT_SLEEP, 4 \<mapsto> demo_thread 11 None KT_NO_STATE]"
    and q: "queues demo_kernel = (\<lambda>_. \<lparr>tq_list = [], tq_size = 0\<rparr>)(Kt_runq := \<lparr>tq_list = [2], tq_size = 1\<rparr>, P_wait 11 := \<lparr>tq_list = [3], tq_size = 1\<rparr>)"
    and c: "curthr demo_kernel = 1" by (simp_all add: demo_kernel_def)
  have "wf_queues demo_kernel"
    unfolding wf_queues_def t q
    by (intro conjI allI) (auto simp: demo_thread_def thr_ok_def wait_state_def split: if_splits)
  moreover have "no_lost demo_kernel" unfolding no_lost_def parked_def t c by (auto simp: demo_thread_def split: if_splits)
  moreover have "cur_free demo_kernel" unfolding cur_free_def t c by (simp add: demo_thread_def)
  ultimately show ?thesis by (simp add: sched_inv_def)
qed

lemma sched_demo_facts: "threads demo_kernel 4 = Some (demo_thread 11 None KT_NO_STATE)" "kt_wchan (demo_thread 11 None KT_NO_STATE) = None"
    "curthr demo_kernel = 1" "tq_list (queues demo_kernel Kt_runq) = [2]" "tq_list (queues demo_kernel (P_wait 11)) = [3]"
    "ahead 2 demo_kernel = 0"
  by (simp_all add: demo_kernel_def demo_thread_def ahead_def)

lemma intr_ok_id [simp]: "intr_ok (\<lambda>_ s. s)"
  by (simp add: intr_ok_def)



theorem broadcast_wakes_all_witness:
  "\<exists>s'. sched_broadcast_on (P_wait 11) demo_kernel = Some s' \<and> tq_list (queues s' (P_wait 11)) = [] \<and>
    rev (tq_list (queues s' Kt_runq)) = [2, 3]"
  using broadcast_wakes_all [OF demo_inv, of "P_wait 11"] by (auto simp: sched_demo_facts)


end
