(* ===== verification/Kmutex.thy ===== *)
theory Kmutex
  imports Sched
begin

text \<open>
  Mutexes, \<^verbatim>\<open>kmutex.c\<close>.  A mutex is named by its address; its fields are \<open>km_holder\<close> and the
  queue \<open>Km_waitq\<close> of the kernel state.  A mutex is handed over: \<open>kmutex_unlock\<close> makes the longest
  waiter the holder before it runs, and \<open>kmutex_lock\<close> returns without looking at the mutex again.
\<close>

section \<open>Operations\<close>

definition kmutex_init :: "addr \<Rightarrow> 'x kernel \<Rightarrow> 'x kernel" where
  "kmutex_init mtx s = sched_queue_init (Km_waitq mtx) (s\<lparr>km_holder := (km_holder s)(mtx := NULL)\<rparr>)"

definition kmutex_lock :: "(nat \<Rightarrow> 'x kernel \<Rightarrow> 'x kernel) \<Rightarrow> addr \<Rightarrow> 'x kernel \<Rightarrow> 'x kernel outcome option" where
  "kmutex_lock intr mtx s =
     (if curthr s = NULL \<or> curthr s = km_holder s mtx then None
      else if km_holder s mtx = NULL then Some (Ret (s\<lparr>km_holder := (km_holder s)(mtx := curthr s)\<rparr>))
      else do { s \<leftarrow> sched_sleep_on intr (Km_waitq mtx) s; Some (Away s) })"

text \<open>The results of \<open>kmutex_lock_cancellable\<close>: 0, \<open>-EINTR\<close>, or asleep.\<close>

datatype 'k lock_result = Locked 'k | Interrupted 'k | Asleep 'k

definition kmutex_lock_cancellable :: "(nat \<Rightarrow> 'x kernel \<Rightarrow> 'x kernel) \<Rightarrow> addr \<Rightarrow> 'x kernel \<Rightarrow> 'x kernel lock_result option" where
  "kmutex_lock_cancellable intr mtx s =
     (if curthr s = NULL \<or> curthr s = km_holder s mtx then None
      else if km_holder s mtx = NULL then Some (Locked (s\<lparr>km_holder := (km_holder s)(mtx := curthr s)\<rparr>))
      else do {
        r \<leftarrow> sched_cancellable_sleep_on intr (Km_waitq mtx) s;
        Some (case r of Ret s \<Rightarrow> Interrupted s | Away s \<Rightarrow> Asleep s)
      })"

text \<open>The rest of \<open>kmutex_lock_cancellable\<close>, after the sleep.\<close>

definition kmutex_lock_cancellable_end :: "'x kernel \<Rightarrow> 'x kernel lock_result option" where
  "kmutex_lock_cancellable_end s = do {
     s \<leftarrow> sched_switch_end s;
     (eintr, s) \<leftarrow> check_cancelled s;
     Some (if eintr then Interrupted s else Locked s)
   }"

definition kmutex_unlock :: "addr \<Rightarrow> 'x kernel \<Rightarrow> 'x kernel option" where
  "kmutex_unlock mtx s =
     (if curthr s = NULL \<or> curthr s \<noteq> km_holder s mtx then None
      else do {
        (next_holder, s) \<leftarrow> sched_wakeup_on (Km_waitq mtx) s;
        let s = s\<lparr>km_holder := (km_holder s)(mtx := next_holder)\<rparr>;
        if curthr s = km_holder s mtx then None else Some s
      })"

section \<open>What a mutex promises\<close>

text \<open>
  Where a thread stands with respect to a mutex: it has not asked for it, it waits inside
  \<open>kmutex_lock\<close>, or \<open>kmutex_lock\<close> has returned.
\<close>

datatype phase = Outside | Waiting | Inside

text \<open>
  The steps of threads that use a mutex: a \<open>lock\<close> that returns, one that sleeps, the return of
  a \<open>lock\<close> in a thread that runs again, an \<open>unlock\<close>, and anything else, which a thread that is
  still inside \<open>lock\<close> cannot do.
\<close>

inductive mutex_step ::
  "('s \<Rightarrow> addr) \<Rightarrow> ('s \<Rightarrow> 's outcome option) \<Rightarrow> ('s \<Rightarrow> 's option) \<Rightarrow> ('s \<Rightarrow> 's \<Rightarrow> bool) \<Rightarrow>
   (addr \<Rightarrow> phase) \<times> 's \<Rightarrow> (addr \<Rightarrow> phase) \<times> 's \<Rightarrow> bool" for cur lock unlock other where
  acquire: "ph (cur s) = Outside \<Longrightarrow> lock s = Some (Ret s') \<Longrightarrow> mutex_step cur lock unlock other (ph, s) (ph(cur s := Inside), s')"
| wait: "ph (cur s) = Outside \<Longrightarrow> lock s = Some (Away s') \<Longrightarrow> mutex_step cur lock unlock other (ph, s) (ph(cur s := Waiting), s')"
| return: "ph (cur s) = Waiting \<Longrightarrow> mutex_step cur lock unlock other (ph, s) (ph(cur s := Inside), s)"
| release: "ph (cur s) = Inside \<Longrightarrow> unlock s = Some s' \<Longrightarrow> mutex_step cur lock unlock other (ph, s) (ph(cur s := Outside), s')"
| other: "ph (cur s) \<noteq> Waiting \<Longrightarrow> other s s' \<Longrightarrow> mutex_step cur lock unlock other (ph, s) (ph, s')"

locale mutex_contract =
  fixes inv :: "'s \<Rightarrow> bool" and cur :: "'s \<Rightarrow> addr" and owner :: "'s \<Rightarrow> addr" and waiters :: "'s \<Rightarrow> addr list"
    and lock :: "'s \<Rightarrow> 's outcome option" and unlock :: "'s \<Rightarrow> 's option" and other :: "'s \<Rightarrow> 's \<Rightarrow> bool"
  assumes cur_runs: "inv s \<Longrightarrow> cur s \<noteq> NULL \<and> cur s \<notin> set (waiters s) \<and> distinct (waiters s)"
    and lock_free: "inv s \<Longrightarrow> owner s = NULL \<Longrightarrow> \<exists>s'. lock s = Some (Ret s') \<and> inv s' \<and> cur s' = cur s \<and> owner s' = cur s \<and> waiters s' = waiters s"
    and lock_taken: "inv s \<Longrightarrow> owner s \<noteq> NULL \<Longrightarrow> lock s = Some r \<Longrightarrow> owner s \<noteq> cur s \<and>
      (\<exists>s'. r = Away s' \<and> inv s' \<and> owner s' = owner s \<and> waiters s' = waiters s @ [cur s])"
    and unlock_gives: "inv s \<Longrightarrow> owner s = cur s \<Longrightarrow> \<exists>s'. unlock s = Some s' \<and> inv s' \<and> cur s' = cur s \<and>
      (case waiters s of [] \<Rightarrow> owner s' = NULL \<and> waiters s' = [] | t # ts \<Rightarrow> owner s' = t \<and> waiters s' = ts)"
    and others_keep: "other s s' \<Longrightarrow> inv s \<Longrightarrow> inv s' \<and> owner s' = owner s \<and> waiters s' = waiters s"
begin

definition agrees :: "(addr \<Rightarrow> phase) \<times> 's \<Rightarrow> bool" where
  "agrees c = (case c of (ph, s) \<Rightarrow> inv s \<and> ph NULL = Outside \<and>
     (\<forall>t. ph t = Inside \<longrightarrow> t = owner s) \<and>
     (\<forall>t. ph t = Waiting \<longrightarrow> t \<in> set (waiters s) \<or> t = owner s) \<and> owner s \<notin> set (waiters s) \<and>
     (\<forall>t \<in> set (waiters s). ph t = Waiting) \<and>
     (owner s = NULL \<longrightarrow> waiters s = []) \<and> (owner s \<noteq> NULL \<longrightarrow> ph (owner s) \<noteq> Outside))"

lemma free_outside:
  assumes "agrees (ph, s)" "owner s = NULL"
  shows "ph t = Outside"
proof -
  have "ph NULL = Outside" "ph t = Inside \<longrightarrow> t = NULL" "ph t = Waiting \<longrightarrow> t = NULL"
    using assms by (auto simp: agrees_def)
  then show ?thesis by (cases "ph t") auto
qed

lemma agrees_step:
  assumes "mutex_step cur lock unlock other (ph, s) (ph', s')" "agrees (ph, s)"
  shows "agrees (ph', s')"
proof -
  have a: "inv s" "ph NULL = Outside" "\<forall>t. ph t = Inside \<longrightarrow> t = owner s"
    "\<forall>t. ph t = Waiting \<longrightarrow> t \<in> set (waiters s) \<or> t = owner s" "owner s \<notin> set (waiters s)" "\<forall>t \<in> set (waiters s). ph t = Waiting"
    "owner s = NULL \<longrightarrow> waiters s = []" "owner s \<noteq> NULL \<longrightarrow> ph (owner s) \<noteq> Outside"
    using assms(2) by (auto simp: agrees_def)
  note c = cur_runs [OF a(1)]
  show ?thesis using assms(1)
  proof cases
    case acquire
    have o: "owner s = NULL" using lock_taken [OF a(1) _ acquire(3)] by auto
    then have w: "waiters s = []" using a(7) by simp
    obtain "inv s'" "owner s' = cur s" "waiters s' = []"
      using lock_free [OF a(1) o] acquire(3) w by auto
    then show ?thesis using acquire(1) free_outside [OF assms(2) o] c by (simp add: agrees_def)
  next
    case wait
    have o: "owner s \<noteq> NULL" using lock_free [OF a(1)] wait(3) by auto
    then have "owner s \<noteq> cur s" "inv s'" "owner s' = owner s" "waiters s' = waiters s @ [cur s]"
      using lock_taken [OF a(1) o wait(3)] by auto
    then show ?thesis using wait(1) a(2-8) c o by (simp add: agrees_def)
  next
    case return
    then have o: "owner s = cur s" using a(4) c by (metis)
    then show ?thesis using return(1,2) a c by (auto simp: agrees_def)
  next
    case release
    have o: "owner s = cur s" using a(3) release(2) by metis
    have s': "inv s'" "case waiters s of [] \<Rightarrow> owner s' = NULL \<and> waiters s' = [] | t # ts \<Rightarrow> owner s' = t \<and> waiters s' = ts"
      using unlock_gives [OF a(1) o] release(3) by auto
    show ?thesis
    proof (cases "waiters s")
      case Nil
      then show ?thesis using release(1) s' a(2,3,4) c o by (auto simp: agrees_def)
    next
      case (Cons t ts)
      then have "t \<noteq> cur s" "ph t = Waiting" "t \<notin> set ts" "cur s \<notin> set ts" using c a(6) by auto
      then show ?thesis using release(1) s' a(2,3,4,6) c o Cons by (auto simp: agrees_def)
    qed
  next
    case other
    then show ?thesis using others_keep [OF other(3) a(1)] a by (simp add: agrees_def)
  qed
qed

lemma agrees_steps: "(mutex_step cur lock unlock other)\<^sup>*\<^sup>* c c' \<Longrightarrow> agrees c \<Longrightarrow> agrees c'"
proof (induction rule: rtranclp_induct)
  case (step c' c'')
  then show ?case using agrees_step [of "fst c'" "snd c'" "fst c''" "snd c''"] by simp
qed

lemma agrees_start: "inv s \<Longrightarrow> owner s = NULL \<Longrightarrow> waiters s = [] \<Longrightarrow> agrees (\<lambda>_. Outside, s)"
  by (simp add: agrees_def)

lemma exclusion:
  assumes "inv s" "owner s = NULL" "waiters s = []" "(mutex_step cur lock unlock other)\<^sup>*\<^sup>* (\<lambda>_. Outside, s) (ph, s')"
  shows "(\<forall>t u. ph t = Inside \<longrightarrow> ph u = Inside \<longrightarrow> t = u) \<and> (owner s' = NULL \<longrightarrow> (\<forall>t. ph t = Outside)) \<and>
    (\<forall>t. ph t = Inside \<longrightarrow> t = owner s')"
proof -
  have a: "agrees (ph, s')" using agrees_steps [OF assms(4) agrees_start [OF assms(1-3)]] .
  then have o: "\<forall>t. ph t = Inside \<longrightarrow> t = owner s'" by (simp add: agrees_def)
  moreover from o have "\<forall>t u. ph t = Inside \<longrightarrow> ph u = Inside \<longrightarrow> t = u" by metis
  ultimately show ?thesis using free_outside [OF a] by blast
qed

end

section \<open>The mutex of the kernel keeps the promise\<close>

definition mutex_inv :: "addr \<Rightarrow> 'x kernel \<Rightarrow> bool" where
  "mutex_inv m s \<longleftrightarrow> sched_inv s \<and>
     (\<forall>t \<in> set (tq_list (queues s (Km_waitq m))). map_option kt_state (threads s t) = Some KT_SLEEP)"

text \<open>Nothing happens to the mutex \<open>m\<close> and to the threads that wait for it.\<close>

definition quiet :: "addr \<Rightarrow> 'x kernel \<Rightarrow> 'x kernel \<Rightarrow> bool" where
  "quiet m s s' \<longleftrightarrow> km_holder s' m = km_holder s m \<and>
     tq_list (queues s' (Km_waitq m)) = tq_list (queues s (Km_waitq m)) \<and>
     (\<forall>t \<in> set (tq_list (queues s (Km_waitq m))). map_option kt_state (threads s' t) = map_option kt_state (threads s t))"

text \<open>Mutexes are never locked or unlocked from an interrupt context.\<close>

definition intr_quiet :: "addr \<Rightarrow> (nat \<Rightarrow> 'x kernel \<Rightarrow> 'x kernel) \<Rightarrow> bool" where
  "intr_quiet m intr \<longleftrightarrow> (\<forall>n s. quiet m s (intr n s))"

lemma quiet_refl [simp]: "quiet m s s"
  by (simp add: quiet_def)

lemma quiet_trans: "quiet m s s' \<Longrightarrow> quiet m s' s'' \<Longrightarrow> quiet m s s''"
  by (simp add: quiet_def)

lemma quiet_ipl: "quiet m s (s'\<lparr>ipl := i\<rparr>) = quiet m s s'" "quiet m (s\<lparr>ipl := i\<rparr>) s' = quiet m s s'"
  by (simp_all add: quiet_def)

lemma quiet_thr:
  assumes "km_holder s' = km_holder s" "tq_list (queues s' (Km_waitq m)) = tq_list (queues s (Km_waitq m))"
    "threads s' = (threads s)(t \<mapsto> th')" "t \<notin> set (tq_list (queues s (Km_waitq m))) \<or> map_option kt_state (threads s t) = Some (kt_state th')"
  shows "quiet m s s'"
  using assms by (auto simp: quiet_def)

lemma quiet_mutex_inv: "quiet m s s' \<Longrightarrow> mutex_inv m s \<Longrightarrow> sched_inv s' \<Longrightarrow> mutex_inv m s'"
  by (simp add: quiet_def mutex_inv_def)

lemma other_queue:
  assumes "wf_queues s" "threads s t = Some th" "kt_wchan th \<noteq> Some (Km_waitq m)"
  shows "t \<notin> set (tq_list (queues s (Km_waitq m)))"
  using wf_queuesD(4) [OF assms(1)] assms(2,3) by simp

lemma switch_quiet:
  assumes ok: "intr_ok intr" "intr_quiet m intr" and w: "wf_queues s" and p: "\<And>t. parked s t" and sw: "sched_switch intr s = Some s'"
  shows "quiet m s s'"
proof -
  obtain th where c: "threads s (curthr s) = Some th"
    using sw by (auto simp: sched_switch_def upd_thr_def split: bind_splits option.splits if_splits)
  let ?th = "th\<lparr>kt_oldipl := ipl s\<rparr>"
  let ?s = "s\<lparr>threads := (threads s)(curthr s \<mapsto> ?th), ipl := IPL_HIGH\<rparr>"
  have "thr_ok ?th" using wf_queuesD(5) [OF w c] by (simp add: thr_ok_def)
  then have ws: "wf_queues ?s" using wf_queues_thr [OF w c] by simp
  have ps: "parked ?s t" for t using p [of t] c by (auto simp: parked_def)
  have q1: "quiet m s ?s" by (rule quiet_thr) (use c in auto)
  obtain s1 where s1: "switch_wait intr 0 ?s = Some s1"
    using sw c by (auto simp: sched_switch_def split: bind_splits if_splits)
  have k: "wf_queues s1" "tq_list (queues s1 Kt_runq) \<noteq> []" using switch_wait_ok [OF s1 ok(1) ws ps] by auto
  have "quiet m ?s (intr n (u\<lparr>ipl := IPL_LOW\<rparr>))" if "quiet m ?s u" for n u
  proof -
    have "quiet m (u\<lparr>ipl := IPL_LOW\<rparr>) (intr n (u\<lparr>ipl := IPL_LOW\<rparr>))" using ok(2) by (simp add: intr_quiet_def)
    then show ?thesis using that quiet_trans by (simp add: quiet_ipl) blast
  qed
  then have q2: "quiet m ?s s1" using switch_wait_induct [OF s1, where P = "quiet m ?s"] by simp
  let ?s2 = "s1\<lparr>ipl := IPL_HIGH\<rparr>" let ?t = "last (tq_list (queues s1 Kt_runq))"
  have w2: "wf_queues ?s2" "tq_list (queues ?s2 Kt_runq) = butlast (tq_list (queues s1 Kt_runq)) @ [?t]" using k by simp_all
  obtain tht s3 where d: "threads ?s2 ?t = Some tht" "kt_wchan tht = Some Kt_runq" "ktqueue_dequeue Kt_runq ?s2 = Some (?t, s3)"
    "s3 = ?s2\<lparr>queues := (queues ?s2)(Kt_runq := \<lparr>tq_list = butlast (tq_list (queues s1 Kt_runq)), tq_size = tq_size (queues ?s2 Kt_runq) - 1\<rparr>),
       threads := (threads ?s2)(?t \<mapsto> tht\<lparr>kt_wchan := None, kt_qlinked := False\<rparr>)\<rparr>"
    using dequeue_wf [OF w2] by blast
  have s': "s' = s3\<lparr>curthr := ?t, curproc := kt_proc tht\<rparr>"
    using sw c s1 d(3,4) by (auto simp: sched_switch_def split: if_splits)
  have "quiet m s1 s'"
    by (rule quiet_thr [where t = ?t and th' = "tht\<lparr>kt_wchan := None, kt_qlinked := False\<rparr>"]) (use s' d in auto)
  then show ?thesis using q1 q2 quiet_trans by blast
qed

lemma sleep_quiet:
  assumes ok: "intr_ok intr" "intr_quiet m intr" and i: "sched_inv s" and c: "threads s (curthr s) = Some th" and st: "wait_state q st"
    and e: "ktqueue_enqueue q (curthr s) (s\<lparr>threads := (threads s)(curthr s \<mapsto> th\<lparr>kt_state := st\<rparr>)\<rparr>) = Some s1"
    and sw: "sched_switch intr s1 = Some s'"
  shows "quiet m s1 s' \<and> (q \<noteq> Km_waitq m \<longrightarrow> quiet m s s') \<and> s1 = s\<lparr>queues := (queues s)(q := \<lparr>tq_list = curthr s # tq_list (queues s q), tq_size = tq_size (queues s q) + 1\<rparr>),
      threads := (threads s)(curthr s \<mapsto> th\<lparr>kt_state := st, kt_wchan := Some q, kt_qlinked := True\<rparr>)\<rparr>"
proof -
  have w: "wf_queues s" and wc: "kt_wchan th = None" using i c by (auto simp: sched_inv_def cur_free_def)
  have s1: "wf_queues s1" "\<And>t. parked s1 t"
    "s1 = s\<lparr>queues := (queues s)(q := \<lparr>tq_list = curthr s # tq_list (queues s q), tq_size = tq_size (queues s q) + 1\<rparr>),
      threads := (threads s)(curthr s \<mapsto> th\<lparr>kt_state := st, kt_wchan := Some q, kt_qlinked := True\<rparr>)\<rparr>"
    using sleep_prepare [OF i st c] e by auto
  have q1: "quiet m s1 s'" by (rule switch_quiet [OF ok s1(1,2) sw])
  have "curthr s \<notin> set (tq_list (queues s (Km_waitq m)))" using other_queue [OF w c] wc by simp
  then have "q \<noteq> Km_waitq m \<longrightarrow> quiet m s s1"
    by (intro impI quiet_thr [where t = "curthr s" and th' = "th\<lparr>kt_state := st, kt_wchan := Some q, kt_qlinked := True\<rparr>"]) (auto simp: s1(3))
  then show ?thesis using q1 s1(3) quiet_trans by blast
qed

lemma check_quiet:
  assumes i: "sched_inv s" and ch: "check_cancelled s = Some (b, s')"
  shows "quiet m s s'"
proof -
  obtain th where c: "threads s (curthr s) = Some th" "kt_wchan th = None" using i by (auto simp: sched_inv_def cur_free_def)
  have n: "curthr s \<notin> set (tq_list (queues s (Km_waitq m)))" using other_queue [OF _ c(1)] i c(2) by (simp add: sched_inv_def)
  show ?thesis
  proof (cases "kt_cancelled th = 1")
    case True
    then obtain pr where "s' = s\<lparr>procs := (procs s)(curproc s \<mapsto> pr), threads := (threads s)(curthr s \<mapsto> th\<lparr>kt_state := KT_EXITED\<rparr>)\<rparr>"
      using ch c by (auto simp: check_cancelled_def elim!: upd_procE split: bind_splits)
    then show ?thesis using n by (intro quiet_thr [where t = "curthr s" and th' = "th\<lparr>kt_state := KT_EXITED\<rparr>"]) auto
  qed (use ch c in \<open>simp add: check_cancelled_def\<close>)
qed

lemma wakeup_quiet:
  assumes i: "sched_inv s" and q: "q \<noteq> Kt_runq" "q \<noteq> Km_waitq m" and wk: "sched_wakeup_on q s = Some (t, s')"
  shows "quiet m s s'"
proof (cases "tq_list (queues s q) = []")
  case True
  then show ?thesis using wk by simp
next
  case False
  have w: "wf_queues s" using i by (simp add: sched_inv_def)
  from wakeup_eq [OF w q(1) queue_last [OF False]] wk
  obtain th where e: "threads s t = Some th" "kt_wchan th = Some q"
    "s' = s\<lparr>queues := (queues s)(q := \<lparr>tq_list = butlast (tq_list (queues s q)), tq_size = tq_size (queues s q) - 1\<rparr>,
         Kt_runq := \<lparr>tq_list = t # tq_list (queues s Kt_runq), tq_size = tq_size (queues s Kt_runq) + 1\<rparr>),
       threads := (threads s)(t \<mapsto> th\<lparr>kt_state := KT_RUN, kt_wchan := Some Kt_runq, kt_qlinked := True\<rparr>)\<rparr>"
    by auto
  have "t \<notin> set (tq_list (queues s (Km_waitq m)))" using other_queue [OF w e(1)] e(2) q(2) by simp
  then show ?thesis
    using q(2) by (intro quiet_thr [where t = t and th' = "th\<lparr>kt_state := KT_RUN, kt_wchan := Some Kt_runq, kt_qlinked := True\<rparr>"]) (auto simp: e(3))
qed

lemma cancel_quiet:
  assumes i: "mutex_inv m s" and t: "threads s t \<noteq> None" and ca: "sched_cancel t s = Some s'"
  shows "quiet m s s'"
proof -
  have si: "sched_inv s" and w: "wf_queues s" using i by (simp_all add: mutex_inv_def sched_inv_def)
  obtain th where th: "threads s t = Some th" using t by blast
  obtain th' where e: "km_holder s' = km_holder s" "threads s' = (threads s)(t \<mapsto> th')"
    "if kt_state th = KT_SLEEP_CANCELLABLE
     then tq_list (queues s' Kt_runq) = t # tq_list (queues s Kt_runq) \<and>
       (\<forall>q. q \<noteq> Kt_runq \<and> kt_wchan th \<noteq> Some q \<longrightarrow> queues s' q = queues s q)
     else kt_state th' = kt_state th \<and> queues s' = queues s"
    using cancel_eq [OF si th] ca by auto
  show ?thesis
  proof (cases "kt_state th = KT_SLEEP_CANCELLABLE")
    case True
    have n: "t \<notin> set (tq_list (queues s (Km_waitq m)))" using i th True by (auto simp: mutex_inv_def)
    then have "kt_wchan th \<noteq> Some (Km_waitq m)" using wf_queuesD(4) [OF w] th by blast
    then show ?thesis using e True n by (intro quiet_thr [OF _ _ e(2)]) auto
  next
    case False
    then show ?thesis using e th by (intro quiet_thr [OF _ _ e(2)]) auto
  qed
qed

lemma step_quiet:
  assumes st: "sched_step intr (\<lambda>q. q \<noteq> Km_waitq m) k s s'" and i: "mutex_inv m s" and ok: "intr_ok intr" "intr_quiet m intr"
  shows "quiet m s s'"
proof -
  have si: "sched_inv s" and w: "wf_queues s" using i by (simp_all add: mutex_inv_def sched_inv_def)
  obtain cur where c: "threads s (curthr s) = Some cur" using si by (auto simp: sched_inv_def cur_free_def)
  show ?thesis using st
  proof cases
    case (sleep q)
    then obtain s1 where "ktqueue_enqueue q (curthr s) (s\<lparr>threads := (threads s)(curthr s \<mapsto> cur\<lparr>kt_state := KT_SLEEP\<rparr>)\<rparr>) = Some s1"
      "sched_switch intr s1 = Some s'"
      using c by (auto simp: sched_sleep_on_def split: if_splits bind_splits)
    then show ?thesis using sleep_quiet [OF ok si c, of q KT_SLEEP] sleep(2,3) by (auto simp: wait_state_def)
  next
    case (cancellable_sleep q)
    obtain s1 where "ktqueue_enqueue q (curthr s) (s\<lparr>threads := (threads s)(curthr s \<mapsto> cur\<lparr>kt_state := KT_SLEEP_CANCELLABLE\<rparr>)\<rparr>) = Some s1"
      "sched_switch intr s1 = Some s'"
      by (rule cancellable_sleepE [OF cancellable_sleep(4) si c])
    then show ?thesis using sleep_quiet [OF ok si c, of q KT_SLEEP_CANCELLABLE] cancellable_sleep(2,3) by (auto simp: wait_state_def)
  next
    case (interrupted q)
    show ?thesis by (rule check_quiet [OF si cancellable_sleep_Ret [OF interrupted(4)]])
  next
    case (awake b)
    then show ?thesis using check_quiet [OF si] by blast
  next
    case switch_end
    then show ?thesis by (auto simp: sched_switch_end_def quiet_ipl split: bind_splits)
  next
    case (wakeup q t)
    then show ?thesis using wakeup_quiet [OF si] by blast
  next
    case (broadcast q)
    show ?thesis
    proof (rule broadcast_induct [OF si broadcast(2,4)])
      show "quiet m s s2" if "sched_inv s1" "quiet m s s1" "sched_wakeup_on q s1 = Some (t, s2)" for s1 t s2
        by (rule quiet_trans [OF that(2) wakeup_quiet [OF that(1) broadcast(2,3) that(3)]])
    qed simp
  next
    case (cancel t)
    then show ?thesis using cancel_quiet [OF i] by blast
  next
    case (start t th)
    have n: "t \<notin> set (tq_list (queues s (Km_waitq m)))" using other_queue [OF w start(2)] start(4) by simp
    then show ?thesis using make_runnable_inv [OF si start(2,4,5)] start(6)
      by (intro quiet_thr [where t = t and th' = "th\<lparr>kt_state := KT_RUN, kt_wchan := Some Kt_runq, kt_qlinked := True\<rparr>"]) auto
  next
    case (exit th)
    have "parked s t" for t using si exit(2,3) by (cases "t = curthr s") (auto simp: sched_inv_def no_lost_def parked_def)
    then show ?thesis using switch_quiet [OF ok w _ exit(4)] by blast
  qed
qed

lemma lock_sleeps:
  assumes ok: "intr_ok intr" "intr_quiet m intr" and i: "mutex_inv m s" and o: "km_holder s m \<noteq> NULL"
    and l: "kmutex_lock intr m s = Some r"
  shows "km_holder s m \<noteq> curthr s \<and> (\<exists>s'. r = Away s' \<and> mutex_inv m s' \<and> km_holder s' m = km_holder s m \<and>
    tq_list (queues s' (Km_waitq m)) = curthr s # tq_list (queues s (Km_waitq m)))"
proof -
  have si: "sched_inv s" using i by (simp add: mutex_inv_def)
  obtain th where c: "threads s (curthr s) = Some th" "kt_wchan th = None" using si by (auto simp: sched_inv_def cur_free_def)
  obtain s' where s': "sched_sleep_on intr (Km_waitq m) s = Some s'" "r = Away s'" "km_holder s m \<noteq> curthr s"
    using l o by (auto simp: kmutex_lock_def split: if_splits bind_splits)
  obtain s1 where s1: "ktqueue_enqueue (Km_waitq m) (curthr s) (s\<lparr>threads := (threads s)(curthr s \<mapsto> th\<lparr>kt_state := KT_SLEEP\<rparr>)\<rparr>) = Some s1"
      "sched_switch intr s1 = Some s'"
    using s'(1) c by (auto simp: sched_sleep_on_def split: if_splits bind_splits)
  have q: "quiet m s1 s'" "s1 = s\<lparr>queues := (queues s)(Km_waitq m := \<lparr>tq_list = curthr s # tq_list (queues s (Km_waitq m)), tq_size = tq_size (queues s (Km_waitq m)) + 1\<rparr>),
      threads := (threads s)(curthr s \<mapsto> th\<lparr>kt_state := KT_SLEEP, kt_wchan := Some (Km_waitq m), kt_qlinked := True\<rparr>)\<rparr>"
    using sleep_quiet [OF ok si c(1) _ s1] by (auto simp: wait_state_def)
  have inv: "sched_inv s'" by (rule sleep_inv [OF si _ ok(1) s'(1)]) simp
  have "\<forall>t \<in> set (tq_list (queues s1 (Km_waitq m))). map_option kt_state (threads s1 t) = Some KT_SLEEP"
    using i by (auto simp: q(2) mutex_inv_def)
  then have "mutex_inv m s'" using q(1) inv by (simp add: mutex_inv_def quiet_def)
  moreover have "km_holder s' m = km_holder s m" "tq_list (queues s' (Km_waitq m)) = curthr s # tq_list (queues s (Km_waitq m))"
    using q by (simp_all add: quiet_def)
  ultimately show ?thesis using s'(2,3) by blast
qed

lemma mutex_inv_holder [simp]: "mutex_inv m (s\<lparr>km_holder := h\<rparr>) = mutex_inv m s"
  by (simp add: mutex_inv_def sched_inv_def wf_queues_def no_lost_def parked_def cur_free_def)

lemma mutex_inv_cur:
  assumes "mutex_inv m s"
  shows "curthr s \<noteq> NULL \<and> curthr s \<notin> set (tq_list (queues s (Km_waitq m))) \<and> distinct (tq_list (queues s (Km_waitq m)))"
proof -
  have w: "wf_queues s" using assms by (simp add: mutex_inv_def sched_inv_def)
  obtain th where c: "threads s (curthr s) = Some th" "kt_wchan th = None" using assms by (auto simp: mutex_inv_def sched_inv_def cur_free_def)
  have "curthr s \<noteq> NULL" using c(1) wf_queuesD(1) [OF w] by (intro notI) simp
  then show ?thesis using other_queue [OF w c(1)] c(2) wf_queuesD(2) [OF w] by simp
qed

lemma unlock_hands_over:
  assumes i: "mutex_inv m s" and o: "km_holder s m = curthr s"
  shows "\<exists>s'. kmutex_unlock m s = Some s' \<and> mutex_inv m s' \<and> curthr s' = curthr s \<and>
    (case rev (tq_list (queues s (Km_waitq m))) of [] \<Rightarrow> km_holder s' m = NULL \<and> tq_list (queues s' (Km_waitq m)) = []
     | t # ts \<Rightarrow> km_holder s' m = t \<and> tq_list (queues s' (Km_waitq m)) = rev ts)"
proof (cases "tq_list (queues s (Km_waitq m)) = []")
  case True
  then show ?thesis using i o mutex_inv_cur [OF i] by (simp add: kmutex_unlock_def)
next
  case False
  have w: "wf_queues s" and si: "sched_inv s" using i by (simp_all add: mutex_inv_def sched_inv_def)
  let ?l = "tq_list (queues s (Km_waitq m))"
  obtain th s1 where e: "sched_wakeup_on (Km_waitq m) s = Some (last ?l, s1)"
    "s1 = s\<lparr>queues := (queues s)(Km_waitq m := \<lparr>tq_list = butlast ?l, tq_size = tq_size (queues s (Km_waitq m)) - 1\<rparr>,
         Kt_runq := \<lparr>tq_list = last ?l # tq_list (queues s Kt_runq), tq_size = tq_size (queues s Kt_runq) + 1\<rparr>),
       threads := (threads s)(last ?l \<mapsto> th\<lparr>kt_state := KT_RUN, kt_wchan := Some Kt_runq, kt_qlinked := True\<rparr>)\<rparr>"
    using wakeup_eq [OF w _ queue_last [OF False]] by blast
  have si1: "sched_inv s1" using wakeup_inv [OF si, of "Km_waitq m"] e(1) by auto
  have d: "distinct ?l" "curthr s \<notin> set ?l" "curthr s \<noteq> NULL" using mutex_inv_cur [OF i] by auto
  have l: "last ?l \<in> set ?l" "last ?l \<notin> set (butlast ?l)" using False d(1) queue_last [OF False] by (simp, metis distinct_butlast not_distinct_conv_prefix append.right_neutral)
  have "mutex_inv m s1"
    using si1 i l(2) by (auto simp: mutex_inv_def e(2) dest: in_set_butlastD)
  moreover have "kmutex_unlock m s = Some (s1\<lparr>km_holder := (km_holder s1)(m := last ?l)\<rparr>)"
    using e o d l(1) by (auto simp: kmutex_unlock_def)
  moreover have r: "rev ?l = last ?l # rev (butlast ?l)" using False by (metis queue_last rev_append rev_singleton_conv append_Cons append_Nil rev.simps)
  ultimately show ?thesis unfolding r list.case by (simp add: e(2))
qed

interpretation km: mutex_contract "\<lambda>s. intr_ok intr \<and> intr_quiet m intr \<and> mutex_inv m s" curthr "\<lambda>s. km_holder s m"
  "\<lambda>s. rev (tq_list (queues s (Km_waitq m)))" "kmutex_lock intr m" "kmutex_unlock m"
  "\<lambda>s s'. \<exists>k. sched_step intr (\<lambda>q. q \<noteq> Km_waitq m) k s s'"
  for intr :: "nat \<Rightarrow> 'x kernel \<Rightarrow> 'x kernel" and m
proof
  fix s :: "'x kernel"
  assume i: "intr_ok intr \<and> intr_quiet m intr \<and> mutex_inv m s"
  show "curthr s \<noteq> NULL \<and> curthr s \<notin> set (rev (tq_list (queues s (Km_waitq m)))) \<and> distinct (rev (tq_list (queues s (Km_waitq m))))"
    using mutex_inv_cur i by auto
  show "\<exists>s'. kmutex_lock intr m s = Some (Ret s') \<and> (intr_ok intr \<and> intr_quiet m intr \<and> mutex_inv m s') \<and> curthr s' = curthr s \<and>
      km_holder s' m = curthr s \<and> rev (tq_list (queues s' (Km_waitq m))) = rev (tq_list (queues s (Km_waitq m)))" if "km_holder s m = NULL"
    using that i mutex_inv_cur [of m s] by (simp add: kmutex_lock_def)
  show "km_holder s m \<noteq> curthr s \<and> (\<exists>s'. r = Away s' \<and> (intr_ok intr \<and> intr_quiet m intr \<and> mutex_inv m s') \<and>
      km_holder s' m = km_holder s m \<and> rev (tq_list (queues s' (Km_waitq m))) = rev (tq_list (queues s (Km_waitq m))) @ [curthr s])"
    if "km_holder s m \<noteq> NULL" "kmutex_lock intr m s = Some r" for r
    using lock_sleeps [OF _ _ _ that] i by auto
  show "\<exists>s'. kmutex_unlock m s = Some s' \<and> (intr_ok intr \<and> intr_quiet m intr \<and> mutex_inv m s') \<and> curthr s' = curthr s \<and>
      (case rev (tq_list (queues s (Km_waitq m))) of [] \<Rightarrow> km_holder s' m = NULL \<and> rev (tq_list (queues s' (Km_waitq m))) = []
       | t # ts \<Rightarrow> km_holder s' m = t \<and> rev (tq_list (queues s' (Km_waitq m))) = ts)" if "km_holder s m = curthr s"
    using unlock_hands_over [OF _ that] i by (fastforce split: list.splits)
next
  fix s s' :: "'x kernel"
  assume st: "\<exists>k. sched_step intr (\<lambda>q. q \<noteq> Km_waitq m) k s s'" and i: "intr_ok intr \<and> intr_quiet m intr \<and> mutex_inv m s"
  then have "quiet m s s'" "sched_inv s'" using step_quiet step_inv by (blast, metis mutex_inv_def)
  then show "(intr_ok intr \<and> intr_quiet m intr \<and> mutex_inv m s') \<and> km_holder s' m = km_holder s m \<and>
      rev (tq_list (queues s' (Km_waitq m))) = rev (tq_list (queues s (Km_waitq m)))"
    using i quiet_mutex_inv by (auto simp: quiet_def)
qed

section \<open>Properties\<close>


text \<open>
  The holder can always unlock; the mutex then belongs to the thread that has waited longest,
  which leaves the queue of the mutex, or to nobody if nobody waits.
\<close>

theorem unlock_serves_first:
  assumes "mutex_inv m s" "km_holder s m = curthr s" "rev (tq_list (queues s (Km_waitq m))) = w"
  shows "\<exists>s'. kmutex_unlock m s = Some s' \<and> mutex_inv m s' \<and> curthr s' = curthr s \<and>
    km_holder s' m = (if w = [] then NULL else hd w) \<and> rev (tq_list (queues s' (Km_waitq m))) = tl w"
  using unlock_hands_over [OF assms(1,2)] assms(3) by (cases w) auto

text \<open>
  A thread that is given the mutex and cancelled before it runs again gets \<open>-EINTR\<close> from
  \<open>kmutex_lock_cancellable\<close> although it holds the mutex: an error by which the mutex is lost.
\<close>

theorem interrupted_lock_keeps_mutex:
  assumes i: "sched_inv s" and h: "km_holder s m = curthr s" and w: "tq_list (queues s (Km_waitq m)) = ts @ [t]"
    and t: "threads s t = Some th" "procs s (kt_proc th) \<noteq> None"
    and r: "tq_list (queues s Kt_runq) = []" and q: "q \<noteq> Kt_runq"
  shows "\<exists>s'. do { s \<leftarrow> kmutex_unlock m s; s \<leftarrow> sched_cancel t s; s \<leftarrow> sched_sleep_on intr q s; kmutex_lock_cancellable_end s } = Some (Interrupted s')
    \<and> curthr s' = t \<and> km_holder s' m = t"
proof -
  have wf: "wf_queues s" using i by (simp add: sched_inv_def)
  obtain cth where c: "threads s (curthr s) = Some cth" "kt_wchan cth = None" using i by (auto simp: sched_inv_def cur_free_def)
  obtain th' s1 where e0: "threads s t = Some th'" "kt_wchan th' = Some (Km_waitq m)" "sched_wakeup_on (Km_waitq m) s = Some (t, s1)"
    "s1 = s\<lparr>queues := (queues s)(Km_waitq m := \<lparr>tq_list = ts, tq_size = tq_size (queues s (Km_waitq m)) - 1\<rparr>,
         Kt_runq := \<lparr>tq_list = t # tq_list (queues s Kt_runq), tq_size = tq_size (queues s Kt_runq) + 1\<rparr>),
       threads := (threads s)(t \<mapsto> th'\<lparr>kt_state := KT_RUN, kt_wchan := Some Kt_runq, kt_qlinked := True\<rparr>)\<rparr>"
    using wakeup_eq [OF wf _ w] by blast
  have n: "t \<noteq> curthr s" using e0(1,2) c by auto
  have n0: "curthr s \<noteq> NULL" using c wf_queuesD(1) [OF wf] by (intro notI) simp
  define th1 where "th1 = th\<lparr>kt_state := KT_RUN, kt_wchan := Some Kt_runq, kt_qlinked := True\<rparr>"
  have e: "curthr s1 = curthr s" "procs s1 = procs s" "threads s1 = (threads s)(t \<mapsto> th1)" "tq_list (queues s1 Kt_runq) = [t]"
    using e0 t(1) r by (simp_all add: th1_def)
  have i1: "sched_inv s1" using wakeup_inv [OF i, of "Km_waitq m"] e0(3) by auto
  define s2 where "s2 = s1\<lparr>km_holder := (km_holder s1)(m := t)\<rparr>"
  have u: "kmutex_unlock m s = Some s2" using e0(3) e(1) h n n0 by (simp add: kmutex_unlock_def s2_def)
  have i2: "sched_inv s2" using i1 by (simp add: s2_def sched_inv_def wf_queues_def no_lost_def parked_def cur_free_def)
  have e2: "curthr s2 = curthr s" "procs s2 = procs s" "threads s2 = (threads s)(t \<mapsto> th1)" "tq_list (queues s2 Kt_runq) = [t]" "km_holder s2 m = t"
    using e by (simp_all add: s2_def)
  define s3 where "s3 = s2\<lparr>threads := (threads s2)(t \<mapsto> th1\<lparr>kt_cancelled := 1\<rparr>)\<rparr>"
  have ca: "sched_cancel t s2 = Some s3" by (simp add: sched_cancel_def e2(3) s3_def th1_def)
  have i3: "sched_inv s3" using cancel_inv [OF i2, of t] ca e2(3) by auto
  have e3: "curthr s3 = curthr s" "procs s3 = procs s" "threads s3 = (threads s)(t \<mapsto> th1\<lparr>kt_cancelled := 1\<rparr>)"
    "tq_list (queues s3 Kt_runq) = [t]" "km_holder s3 m = t"
    using e2 by (simp_all add: s3_def)
  have c3: "threads s3 (curthr s3) = Some cth" using c(1) e3(1,3) n by simp
  have ws: "wait_state q KT_SLEEP" using q by (simp add: wait_state_def)
  obtain s4 where s4: "ktqueue_enqueue q (curthr s3) (s3\<lparr>threads := (threads s3)(curthr s3 \<mapsto> cth\<lparr>kt_state := KT_SLEEP\<rparr>)\<rparr>) = Some s4"
    "wf_queues s4"
    "s4 = s3\<lparr>queues := (queues s3)(q := \<lparr>tq_list = curthr s3 # tq_list (queues s3 q), tq_size = tq_size (queues s3 q) + 1\<rparr>),
      threads := (threads s3)(curthr s3 \<mapsto> cth\<lparr>kt_state := KT_SLEEP, kt_wchan := Some q, kt_qlinked := True\<rparr>)\<rparr>"
    using sleep_prepare [OF i3 ws c3] by blast
  have e4: "km_holder s4 m = t" "procs s4 = procs s" "threads s4 t = Some (th1\<lparr>kt_cancelled := 1\<rparr>)"
    "tq_list (queues s4 Kt_runq) = [] @ [t]" "threads s4 (curthr s4) \<noteq> None"
    using e3 n q by (simp_all add: s4(3))
  obtain s5 where s5: "sched_switch intr s4 = Some s5" "curthr s5 = t" "km_holder s5 = km_holder s4" "procs s5 = procs s4"
    "curproc s5 = kt_proc th" "map_option (\<lambda>th. (kt_cancelled th, kt_proc th, kt_state th)) (threads s5 t) = Some (1, kt_proc th, KT_RUN)"
    using switch_now [OF s4(2) e4(5,4), of intr] e4(3) by (auto simp: th1_def)
  obtain th5 where th5: "threads s5 t = Some th5" "kt_cancelled th5 = 1" using s5(6) by auto
  obtain pr where pr: "procs s5 (kt_proc th) = Some pr" using t(2) s5(4) e4(2) by auto
  have sl: "sched_sleep_on intr q s3 = Some s5" using s4(1) s5(1) c3 n0 e3(1) by (simp add: sched_sleep_on_def)
  have "kmutex_lock_cancellable_end s5 = Some (Interrupted (s5\<lparr>procs := (procs s5)(kt_proc th \<mapsto> pr\<lparr>p_state := PROC_DEAD\<rparr>),
      threads := (threads s5)(t \<mapsto> th5\<lparr>kt_state := KT_EXITED\<rparr>), ipl := kt_oldipl th5\<rparr>))"
    using th5 pr s5(2,5) by (simp add: kmutex_lock_cancellable_end_def sched_switch_end_def check_cancelled_def)
  moreover have "km_holder s5 m = t" using s5(3) e4(1) by simp
  ultimately show ?thesis using u ca sl s5(2) by simp
qed

section \<open>Examples\<close>

lemma demo_mutex_inv: "mutex_inv 50 demo_kernel"
  using demo_inv by (simp add: mutex_inv_def) (simp add: demo_kernel_def)

lemma intr_quiet_id [simp]: "intr_quiet m (\<lambda>_ s. s)"
  by (simp add: intr_quiet_def)


text \<open>Thread 1 holds mutex 50, thread 3 waits for it in a cancellable sleep.\<close>

definition demo_locked :: "unit kernel" where
  "demo_locked = \<lparr>threads = [1 \<mapsto> demo_thread 10 None KT_RUN, 3 \<mapsto> demo_thread 11 (Some (Km_waitq 50)) KT_SLEEP_CANCELLABLE],
     procs = [11 \<mapsto> \<lparr>p_pid = 2, p_comm = ''b'', p_threads = [3], p_children = [], p_pproc = 10, p_status = 0, p_state = PROC_RUNNING,
       p_pagedir = 1, p_files = [], p_cwd = NULL, p_brk = NULL, p_start_brk = NULL, p_vmmap = NULL\<rparr>],
     queues = (\<lambda>_. \<lparr>tq_list = [], tq_size = 0\<rparr>)(Km_waitq 50 := \<lparr>tq_list = [3], tq_size = 1\<rparr>),
     proc_list = [], next_pid = 0, proc_initproc = NULL, curthr = 1, curproc = 10, ipl = IPL_LOW, km_holder = (\<lambda>_. NULL)(50 := 1), ext = ()\<rparr>"

lemma demo_locked_inv: "sched_inv demo_locked"
proof -
  have t: "threads demo_locked = [1 \<mapsto> demo_thread 10 None KT_RUN, 3 \<mapsto> demo_thread 11 (Some (Km_waitq 50)) KT_SLEEP_CANCELLABLE]"
    and q: "queues demo_locked = (\<lambda>_. \<lparr>tq_list = [], tq_size = 0\<rparr>)(Km_waitq 50 := \<lparr>tq_list = [3], tq_size = 1\<rparr>)"
    and c: "curthr demo_locked = 1" by (simp_all add: demo_locked_def)
  have "wf_queues demo_locked"
    unfolding wf_queues_def t q
    by (intro conjI allI) (auto simp: demo_thread_def thr_ok_def wait_state_def split: if_splits)
  moreover have "no_lost demo_locked" unfolding no_lost_def parked_def t c by (auto simp: demo_thread_def split: if_splits)
  moreover have "cur_free demo_locked" unfolding cur_free_def t c by (simp add: demo_thread_def)
  ultimately show ?thesis by (simp add: sched_inv_def)
qed

theorem unlock_serves_first_witness:
  "\<exists>s'. kmutex_unlock 60 (demo_kernel\<lparr>km_holder := (\<lambda>_. NULL)(60 := 1)\<rparr>) = Some s' \<and> km_holder s' 60 = NULL"
proof -
  let ?s = "demo_kernel\<lparr>km_holder := (\<lambda>_. NULL)(60 := 1)\<rparr>"
  have "mutex_inv 60 ?s" using demo_inv by simp (simp add: mutex_inv_def, simp add: demo_kernel_def)
  moreover have "km_holder ?s 60 = curthr ?s" "rev (tq_list (queues ?s (Km_waitq 60))) = []" by (simp_all add: demo_kernel_def)
  ultimately show ?thesis using unlock_serves_first [of 60 ?s "[]"] by auto
qed

theorem interrupted_lock_keeps_mutex_witness:
  "\<exists>s'. do { s \<leftarrow> kmutex_unlock 50 demo_locked; s \<leftarrow> sched_cancel 3 s; s \<leftarrow> sched_sleep_on (\<lambda>_ s. s) (P_wait 10) s; kmutex_lock_cancellable_end s }
     = Some (Interrupted s') \<and> curthr s' = 3 \<and> km_holder s' 50 = 3"
proof (rule interrupted_lock_keeps_mutex [OF demo_locked_inv])
  show "threads demo_locked 3 = Some (demo_thread 11 (Some (Km_waitq 50)) KT_SLEEP_CANCELLABLE)" by (simp add: demo_locked_def)
  show "tq_list (queues demo_locked (Km_waitq 50)) = [] @ [3]" by (simp add: demo_locked_def)
qed (simp_all add: demo_locked_def demo_thread_def)
end
