(* ===== verification/Kthread.thy ===== *)
theory Kthread
  imports Sched
begin

text \<open>
  Threads, \<^verbatim>\<open>kthread.c\<close>, without the functions that end a thread, which are mutually dependent with
  \<^verbatim>\<open>proc.c\<close> and are in the theory of processes.

  What the process subsystem calls of the rest of the kernel is a record of operations on the
  component \<open>ext\<close> of the state: the allocators, the contexts, the page directories, the vnodes and
  files, and the address spaces.  The record also holds the constants of headers that are not
  among the sources.  An allocator of objects gives the address, \<open>NULL\<close> on failure, and what the
  memory happens to hold.
\<close>

record 'x kops =
  slab_kthread :: "'x \<Rightarrow> addr \<times> kthread \<times> 'x"
  slab_kthread_free :: "addr \<Rightarrow> 'x \<Rightarrow> 'x"
  slab_proc :: "'x \<Rightarrow> addr \<times> proc \<times> 'x"
  slab_proc_free :: "addr \<Rightarrow> 'x \<Rightarrow> 'x"
  page_alloc_n :: "nat \<Rightarrow> 'x \<Rightarrow> addr \<times> 'x"
  page_free_n :: "addr \<Rightarrow> nat \<Rightarrow> 'x \<Rightarrow> 'x"
  context_setup :: "addr \<Rightarrow> addr \<Rightarrow> int \<Rightarrow> addr \<Rightarrow> addr \<Rightarrow> addr \<Rightarrow> 'x \<Rightarrow> 'x"
  pt_create_pagedir :: "'x \<Rightarrow> addr \<times> 'x"
  pt_destroy_pagedir :: "addr \<Rightarrow> 'x \<Rightarrow> 'x"
  vref :: "addr \<Rightarrow> 'x \<Rightarrow> 'x"
  vput :: "addr \<Rightarrow> 'x \<Rightarrow> 'x"
  fput :: "addr \<Rightarrow> 'x \<Rightarrow> 'x"
  vmmap_create :: "'x \<Rightarrow> addr \<times> 'x"
  set_vmm_proc :: "addr \<Rightarrow> addr \<Rightarrow> 'x \<Rightarrow> 'x"
  vmmap_destroy :: "addr \<Rightarrow> 'x \<Rightarrow> 'x"
  stack_pages :: nat
  PROC_MAX_COUNT :: int
  PROC_NAME_LEN :: nat
  NFILES :: nat
  PID_IDLE :: int
  PID_INIT :: int

section \<open>Stacks\<close>

definition alloc_stack :: "'x kops \<Rightarrow> 'x kernel \<Rightarrow> addr \<times> 'x kernel" where
  "alloc_stack ops s = (let (kstack, x) = page_alloc_n ops (1 + stack_pages ops) (ext s) in (kstack, s\<lparr>ext := x\<rparr>))"

definition free_stack :: "'x kops \<Rightarrow> addr \<Rightarrow> 'x kernel \<Rightarrow> 'x kernel" where
  "free_stack ops stack s = s\<lparr>ext := page_free_n ops stack (1 + stack_pages ops) (ext s)\<rparr>"

section \<open>Threads\<close>

text \<open>The list a thread is linked on by \<open>kt_plink\<close> is that of its process.\<close>

definition kthread_destroy :: "'x kops \<Rightarrow> addr \<Rightarrow> 'x kernel \<Rightarrow> 'x kernel option" where
  "kthread_destroy ops t s = do {
     th \<leftarrow> threads s t;
     if t = NULL \<or> kt_kstack th = NULL then None
     else do {
       let s = free_stack ops (kt_kstack th) s;
       p \<leftarrow> procs s (kt_proc th);
       s \<leftarrow> (if t \<in> set (p_threads p) then upd_proc (kt_proc th) (\<lambda>p. p\<lparr>p_threads := remove1 t (p_threads p)\<rparr>) s else Some s);
       Some (s\<lparr>threads := (threads s)(t := None), ext := slab_kthread_free ops t (ext s)\<rparr>)
     }
   }"

definition kthread_create :: "'x kops \<Rightarrow> addr \<Rightarrow> addr \<Rightarrow> int \<Rightarrow> addr \<Rightarrow> 'x kernel \<Rightarrow> (addr \<times> 'x kernel) option" where
  "kthread_create ops p func arg1 arg2 s =
     (if p = NULL then None
      else do {
        let (t, _, x) = slab_kthread ops (ext s);
        let s = s\<lparr>ext := x\<rparr>;
        if t = NULL then None
        else do {
          let (kstack, s) = alloc_stack ops s;
          pr \<leftarrow> procs s p;
          let s = s\<lparr>ext := context_setup ops t func arg1 arg2 kstack (p_pagedir pr) (ext s)\<rparr>;
          let s = s\<lparr>threads := (threads s)(t \<mapsto> \<lparr>kt_kstack = kstack, kt_retval = 0, kt_errno = 0, kt_proc = p, kt_cancelled = 0,
            kt_wchan = None, kt_state = KT_NO_STATE, kt_qlinked = False, kt_oldipl = IPL_LOW\<rparr>)\<rparr>;
          s \<leftarrow> upd_proc p (\<lambda>pr. pr\<lparr>p_threads := t # p_threads pr\<rparr>) s;
          Some (t, s)
        }
      })"

text \<open>\<open>kthread_clone\<close> does not look whether there was memory: a write through \<open>NULL\<close> is \<^const>\<open>None\<close>.\<close>

definition kthread_clone :: "'x kops \<Rightarrow> addr \<Rightarrow> 'x kernel \<Rightarrow> (addr \<times> 'x kernel) option" where
  "kthread_clone ops thr s = do {
     th \<leftarrow> threads s thr;
     if kt_state th \<noteq> KT_RUN then None
     else do {
       let (newthr, g, x) = slab_kthread ops (ext s);
       let s = s\<lparr>ext := x\<rparr>;
       if newthr = NULL then None
       else do {
         let (kstack, s) = alloc_stack ops s;
         cp \<leftarrow> procs s (curproc s);
         let s = s\<lparr>ext := context_setup ops newthr NULL 0 NULL kstack (p_pagedir cp) (ext s)\<rparr>;
         let new = g\<lparr>kt_kstack := kstack, kt_retval := kt_retval th, kt_errno := kt_errno th, kt_proc := kt_proc th,
           kt_cancelled := kt_cancelled th, kt_wchan := kt_wchan th, kt_state := kt_state th, kt_qlinked := False\<rparr>;
         if kt_state new \<noteq> KT_RUN then None else Some (newthr, s\<lparr>threads := (threads s)(newthr \<mapsto> new)\<rparr>)
       }
     }
   }"

section \<open>What creation and destruction do to the scheduler\<close>

text \<open>What is relied on of an allocator: an address it gives is not in use.\<close>

definition fresh_thread :: "'x kops \<Rightarrow> 'x kernel \<Rightarrow> bool" where
  "fresh_thread ops s \<longleftrightarrow> threads s (fst (slab_kthread ops (ext s))) = None \<and> fst (slab_kthread ops (ext s)) \<noteq> NULL"

lemma thread_added:
  assumes i: "sched_inv s" and t: "threads s' = (threads s)(t \<mapsto> th)" "threads s t = None" "t \<noteq> NULL"
    and th: "kt_wchan th = None" "\<not> kt_qlinked th" "kt_state th = KT_NO_STATE"
    and eq: "queues s' = queues s" "curthr s' = curthr s"
  shows "sched_inv s'"
proof -
  have w: "wf_queues s" using i by (simp add: sched_inv_def)
  have "thr_ok th" using th by (simp add: thr_ok_def)
  moreover have "t \<notin> set (tq_list (queues s q))" for q using wf_queuesD(4) [OF w] t(2) by simp
  ultimately have "wf_queues s'" using w t th eq by (auto simp: wf_queues_def)
  moreover have "no_lost s'" using i th by (simp add: sched_inv_def no_lost_def parked_def t(1) eq(2))
  moreover have "cur_free s'" using i t(2) by (auto simp: sched_inv_def cur_free_def t(1) eq(2))
  ultimately show ?thesis by (simp add: sched_inv_def)
qed

lemma thread_removed:
  assumes i: "sched_inv s" and t: "threads s' = (threads s)(t := None)" "threads s t = Some th" "kt_wchan th = None" "t \<noteq> curthr s"
    and eq: "queues s' = queues s" "curthr s' = curthr s"
  shows "sched_inv s'"
proof -
  have w: "wf_queues s" using i by (simp add: sched_inv_def)
  have "t \<notin> set (tq_list (queues s q))" for q using wf_queuesD(4) [OF w] t(2,3) by simp
  then have "wf_queues s'" using w t eq by (auto simp: wf_queues_def)
  moreover have "no_lost s'" using i by (simp add: sched_inv_def no_lost_def parked_def t(1) eq(2))
  moreover have "cur_free s'" using i t(4) by (auto simp: sched_inv_def cur_free_def t(1) eq(2))
  ultimately show ?thesis by (simp add: sched_inv_def)
qed

lemma create_eq:
  assumes "fresh_thread ops s" "p \<noteq> NULL" "procs s p = Some pr"
  shows "\<exists>t s' th. kthread_create ops p func arg1 arg2 s = Some (t, s') \<and> threads s t = None \<and> t \<noteq> NULL \<and>
    threads s' = (threads s)(t \<mapsto> th) \<and> kt_state th = KT_NO_STATE \<and> kt_wchan th = None \<and> \<not> kt_qlinked th \<and> kt_proc th = p \<and>
    kt_cancelled th = 0 \<and> procs s' = (procs s)(p \<mapsto> pr\<lparr>p_threads := t # p_threads pr\<rparr>) \<and> queues s' = queues s \<and> curthr s' = curthr s"
proof -
  obtain t g x where sl: "slab_kthread ops (ext s) = (t, g, x)" by (cases "slab_kthread ops (ext s)")
  obtain k x' where pa: "page_alloc_n ops (1 + stack_pages ops) x = (k, x')" by (cases "page_alloc_n ops (1 + stack_pages ops) x")
  let ?th = "\<lparr>kt_kstack = k, kt_retval = 0, kt_errno = 0, kt_proc = p, kt_cancelled = 0, kt_wchan = None,
    kt_state = KT_NO_STATE, kt_qlinked = False, kt_oldipl = IPL_LOW\<rparr>"
  have "\<exists>s'. kthread_create ops p func arg1 arg2 s = Some (t, s') \<and> threads s' = (threads s)(t \<mapsto> ?th) \<and>
      procs s' = (procs s)(p \<mapsto> pr\<lparr>p_threads := t # p_threads pr\<rparr>) \<and> queues s' = queues s \<and> curthr s' = curthr s"
    using assms sl pa by (simp add: kthread_create_def alloc_stack_def fresh_thread_def)
  then obtain s' where "kthread_create ops p func arg1 arg2 s = Some (t, s')" "threads s' = (threads s)(t \<mapsto> ?th)"
    "procs s' = (procs s)(p \<mapsto> pr\<lparr>p_threads := t # p_threads pr\<rparr>)" "queues s' = queues s" "curthr s' = curthr s" by blast
  then show ?thesis using assms(1) sl by (intro exI [of _ t] exI [of _ s'] exI [of _ ?th]) (simp add: fresh_thread_def)
qed

lemma destroy_eq:
  assumes "threads s t = Some th" "t \<noteq> NULL" "kt_kstack th \<noteq> NULL" "procs s (kt_proc th) = Some pr" "distinct (p_threads pr)"
  shows "\<exists>s'. kthread_destroy ops t s = Some s' \<and> threads s' = (threads s)(t := None) \<and>
    procs s' = (procs s)(kt_proc th \<mapsto> pr\<lparr>p_threads := remove1 t (p_threads pr)\<rparr>) \<and> queues s' = queues s \<and>
    curthr s' = curthr s \<and> curproc s' = curproc s \<and> proc_list s' = proc_list s \<and> proc_initproc s' = proc_initproc s \<and>
    next_pid s' = next_pid s"
  using assms by (cases "t \<in> set (p_threads pr)") (simp_all add: kthread_destroy_def free_stack_def remove1_idem fun_upd_idem Let_def)

text \<open>
  A new thread belongs to the process it is created for and to no queue, and every thread that
  was there before is untouched; the books of the scheduler stay in order, so that it can be
  started.
\<close>

theorem create_makes_thread:
  assumes "sched_inv s" "fresh_thread ops s" "p \<noteq> NULL" "procs s p = Some pr"
  shows "\<exists>t s' s''. kthread_create ops p func arg1 arg2 s = Some (t, s') \<and> sched_inv s' \<and> threads s' |` (- {t}) = threads s |` (- {t}) \<and>
    procs s' = (procs s)(p \<mapsto> pr\<lparr>p_threads := t # p_threads pr\<rparr>) \<and> sched_make_runnable t s' = Some s'' \<and> sched_inv s''"
proof -
  obtain t s' th where c: "kthread_create ops p func arg1 arg2 s = Some (t, s')" "threads s t = None" "t \<noteq> NULL"
    "threads s' = (threads s)(t \<mapsto> th)" "kt_state th = KT_NO_STATE" "kt_wchan th = None" "\<not> kt_qlinked th"
    "procs s' = (procs s)(p \<mapsto> pr\<lparr>p_threads := t # p_threads pr\<rparr>)" "queues s' = queues s" "curthr s' = curthr s"
    using create_eq [OF assms(2-4)] by blast
  have i: "sched_inv s'" using thread_added [OF assms(1) c(4,2,3,6,7,5,9,10)] .
  have "t \<noteq> curthr s'" using assms(1) c(2,10) by (auto simp: sched_inv_def cur_free_def)
  then obtain s'' where "sched_make_runnable t s' = Some s''" "sched_inv s''"
    using make_runnable_inv [OF i, of t th] c(4,6) by auto
  then show ?thesis using c(1,4,8) i by (intro exI [of _ t] exI [of _ s'] exI [of _ s'']) auto
qed

section \<open>Example\<close>

definition demo_proc :: "int \<Rightarrow> addr list \<Rightarrow> addr list \<Rightarrow> addr \<Rightarrow> proc" where
  "demo_proc pid ts cs parent = \<lparr>p_pid = pid, p_comm = ''demo'', p_threads = ts, p_children = cs, p_pproc = parent, p_status = 0,
     p_state = PROC_RUNNING, p_pagedir = 1, p_files = [NULL, NULL], p_cwd = NULL, p_brk = NULL, p_start_brk = NULL, p_vmmap = NULL\<rparr>"

text \<open>Operations of a kernel whose allocator gives 100, 101, and so on.\<close>

definition demo_ops :: "nat kops" where
  "demo_ops = \<lparr>slab_kthread = (\<lambda>n. (100 + n, demo_thread NULL None KT_NO_STATE, Suc n)), slab_kthread_free = (\<lambda>_ n. n),
     slab_proc = (\<lambda>n. (100 + n, demo_proc 0 [] [] NULL, Suc n)), slab_proc_free = (\<lambda>_ n. n),
     page_alloc_n = (\<lambda>_ n. (4096, n)), page_free_n = (\<lambda>_ _ n. n), context_setup = (\<lambda>_ _ _ _ _ _ n. n),
     pt_create_pagedir = (\<lambda>n. (4096, n)), pt_destroy_pagedir = (\<lambda>_ n. n), vref = (\<lambda>_ n. n), vput = (\<lambda>_ n. n), fput = (\<lambda>_ n. n),
     vmmap_create = (\<lambda>n. (7, n)), set_vmm_proc = (\<lambda>_ _ n. n), vmmap_destroy = (\<lambda>_ n. n), stack_pages = 14, PROC_MAX_COUNT = 65536,
     PROC_NAME_LEN = 16, NFILES = 2, PID_IDLE = 0, PID_INIT = 1\<rparr>"

definition demo_one :: "nat kernel" where
  "demo_one = \<lparr>threads = [1 \<mapsto> demo_thread 10 None KT_RUN], procs = [10 \<mapsto> demo_proc 1 [1] [] NULL],
     queues = (\<lambda>_. \<lparr>tq_list = [], tq_size = 0\<rparr>), proc_list = [10], next_pid = 2, proc_initproc = 10, curthr = 1, curproc = 10,
     ipl = IPL_LOW, km_holder = (\<lambda>_. NULL), ext = 0\<rparr>"

lemma demo_one_inv: "sched_inv demo_one"
  by (auto simp: demo_one_def demo_thread_def sched_inv_def wf_queues_def thr_ok_def no_lost_def parked_def cur_free_def)

theorem create_makes_thread_witness:
  "\<exists>t s' s''. kthread_create demo_ops 10 5000 0 NULL demo_one = Some (t, s') \<and> sched_make_runnable t s' = Some s'' \<and> sched_inv s''"
proof -
  have "fresh_thread demo_ops demo_one" "procs demo_one 10 = Some (demo_proc 1 [1] [] NULL)"
    by (simp_all add: fresh_thread_def demo_ops_def demo_one_def)
  then show ?thesis using create_makes_thread [OF demo_one_inv, of demo_ops 10] by fastforce
qed

end
