(* ===== verification/Proc.thy ===== *)
theory Proc
  imports Kthread
begin

text \<open>
  Processes, \<^verbatim>\<open>proc.c\<close>, with \<open>kthread_exit\<close> and \<open>kthread_cancel\<close> of \<^verbatim>\<open>kthread.c\<close>.

  A function that ends the current thread gives the state in which another thread runs.  A call
  of \<open>do_waitpid\<close> either returns or sleeps; what it does when it is woken up is \<open>wait_any\<close> or
  \<open>wait_for\<close> again, one turn of its loop.  The lists are walked with the macro that reads the next
  link before it runs the body, so that the body may unlink the element.
\<close>

section \<open>Process identifiers\<close>

fun proc_lookup_in :: "(addr \<rightharpoonup> proc) \<Rightarrow> addr list \<Rightarrow> int \<Rightarrow> addr option" where
  "proc_lookup_in ps [] pid = Some NULL"
| "proc_lookup_in ps (p # l) pid = do {
     pr \<leftarrow> ps p;
     if p_pid pr = pid then Some p else proc_lookup_in ps l pid
   }"

definition proc_lookup :: "int \<Rightarrow> 'x kernel \<Rightarrow> addr option" where
  "proc_lookup pid s = proc_lookup_in (procs s) (proc_list s) pid"

definition pids :: "'x kernel \<Rightarrow> int list" where
  "pids s = map (\<lambda>p. case procs s p of Some pr \<Rightarrow> p_pid pr | None \<Rightarrow> - 1) (proc_list s)"

partial_function (option) getid_loop :: "int \<Rightarrow> int \<Rightarrow> int list \<Rightarrow> int \<Rightarrow> int option" where
  "getid_loop maxc nxt used pid =
     (if pid \<in> set used
      then (if (pid + 1) mod maxc = nxt then Some (- 1) else getid_loop maxc nxt used ((pid + 1) mod maxc))
      else Some pid)"

definition proc_getid :: "'x kops \<Rightarrow> 'x kernel \<Rightarrow> (int \<times> 'x kernel) option" where
  "proc_getid ops s = do {
     pid \<leftarrow> getid_loop (PROC_MAX_COUNT ops) (next_pid s) (pids s) (next_pid s);
     if pid = - 1 then Some (- 1, s)
     else Some (pid, s\<lparr>next_pid := (pid + 1) mod PROC_MAX_COUNT ops\<rparr>)
   }"

section \<open>Creation\<close>

definition proc_create :: "'x kops \<Rightarrow> string \<Rightarrow> 'x kernel \<Rightarrow> (addr \<times> 'x kernel) option" where
  "proc_create ops name s = do {
     let (p, g, x) = slab_proc ops (ext s);
     let s = s\<lparr>ext := x\<rparr>;
     if p = NULL then None
     else do {
       (pid, s) \<leftarrow> proc_getid ops s;
       if pid = PID_IDLE ops \<and> proc_list s \<noteq> [] then None
       else do {
         s \<leftarrow> (if pid = PID_INIT ops then do {
                 cp \<leftarrow> procs s (curproc s);
                 if p_pid cp \<noteq> PID_IDLE ops then None else Some (s\<lparr>proc_initproc := p\<rparr>)
               } else Some s);
         let new = g\<lparr>p_pid := pid, p_comm := take (PROC_NAME_LEN ops) name, p_threads := [], p_children := [],
           p_pproc := (if pid \<noteq> PID_IDLE ops then curproc s else p_pproc g), p_status := 0, p_state := PROC_RUNNING\<rparr>;
         let s = sched_queue_init (P_wait p) s;
         let (pd, x) = pt_create_pagedir ops (ext s);
         let s = s\<lparr>ext := x\<rparr>;
         s \<leftarrow> (if curproc s \<noteq> NULL then upd_proc (curproc s) (\<lambda>cp. cp\<lparr>p_children := p_children cp @ [p]\<rparr>) s else Some s);
         let s = s\<lparr>proc_list := proc_list s @ [p]\<rparr>;
         (cwd, s) \<leftarrow> (if curproc s \<noteq> NULL then do {
                        cp \<leftarrow> procs s (curproc s);
                        Some (p_cwd cp, if p_cwd cp \<noteq> NULL then s\<lparr>ext := vref ops (p_cwd cp) (ext s)\<rparr> else s)
                      } else Some (NULL, s));
         let (vm, x) = vmmap_create ops (ext s);
         if vm = NULL then None
         else Some (p, s\<lparr>ext := set_vmm_proc ops vm p x,
           procs := (procs s)(p \<mapsto> new\<lparr>p_pagedir := pd, p_files := replicate (NFILES ops) NULL, p_cwd := cwd,
             p_brk := NULL, p_start_brk := NULL, p_vmmap := vm\<rparr>)\<rparr>)
       }
     }
   }"

section \<open>Exit\<close>

fun reparent :: "addr list \<Rightarrow> 'x kernel \<Rightarrow> 'x kernel option" where
  "reparent [] s = Some s"
| "reparent (c # cs) s = do {
     s \<leftarrow> upd_proc (curproc s) (\<lambda>p. p\<lparr>p_children := remove1 c (p_children p)\<rparr>) s;
     s \<leftarrow> upd_proc (proc_initproc s) (\<lambda>p. p\<lparr>p_children := p_children p @ [c]\<rparr>) s;
     s \<leftarrow> upd_proc c (\<lambda>p. p\<lparr>p_pproc := proc_initproc s\<rparr>) s;
     reparent cs s
   }"

text \<open>\<open>do_close (i)\<close> for a file that is open.\<close>

fun close_files :: "'x kops \<Rightarrow> nat list \<Rightarrow> 'x kernel \<Rightarrow> 'x kernel option" where
  "close_files ops [] s = Some s"
| "close_files ops (i # is) s = do {
     p \<leftarrow> procs s (curproc s);
     s \<leftarrow> (if p_files p ! i \<noteq> NULL
          then upd_proc (curproc s) (\<lambda>p. p\<lparr>p_files := (p_files p)[i := NULL]\<rparr>) (s\<lparr>ext := fput ops (p_files p ! i) (ext s)\<rparr>)
          else Some s);
     close_files ops is s
   }"

definition proc_cleanup :: "'x kops \<Rightarrow> int \<Rightarrow> 'x kernel \<Rightarrow> 'x kernel option" where
  "proc_cleanup ops status s = do {
     s \<leftarrow> upd_proc (curproc s) (\<lambda>p. p\<lparr>p_status := status, p_state := PROC_DEAD\<rparr>) s;
     p \<leftarrow> procs s (curproc s);
     let s = (if p_cwd p \<noteq> NULL then s\<lparr>ext := vput ops (p_cwd p) (ext s)\<rparr> else s);
     if proc_initproc s = NULL \<or> \<not> 1 \<le> p_pid p \<or> p_pproc p = NULL then None
     else do {
       _ \<leftarrow> procs s (p_pproc p);
       (_, s) \<leftarrow> sched_wakeup_on (P_wait (p_pproc p)) s;
       s \<leftarrow> (if p_pid p \<noteq> PID_INIT ops \<and> p_children p \<noteq> [] then reparent (p_children p) s else Some s);
       p \<leftarrow> procs s (curproc s);
       if p_pproc p = NULL then None
       else do {
         s \<leftarrow> close_files ops [0..<NFILES ops] s;
         p \<leftarrow> procs s (curproc s);
         Some (if p_vmmap p \<noteq> NULL then s\<lparr>ext := vmmap_destroy ops (p_vmmap p) (ext s)\<rparr> else s)
       }
     }
   }"

definition proc_thread_exited :: "(nat \<Rightarrow> 'x kernel \<Rightarrow> 'x kernel) \<Rightarrow> 'x kops \<Rightarrow> int \<Rightarrow> 'x kernel \<Rightarrow> 'x kernel option" where
  "proc_thread_exited intr ops retval s = do {
     s \<leftarrow> upd_thr (curthr s) (\<lambda>th. th\<lparr>kt_state := KT_EXITED\<rparr>) s;
     s \<leftarrow> proc_cleanup ops retval s;
     sched_switch intr s
   }"

definition kthread_exit :: "(nat \<Rightarrow> 'x kernel \<Rightarrow> 'x kernel) \<Rightarrow> 'x kops \<Rightarrow> int \<Rightarrow> 'x kernel \<Rightarrow> 'x kernel option" where
  "kthread_exit intr ops retval s = do {
     s \<leftarrow> upd_thr (curthr s) (\<lambda>th. th\<lparr>kt_retval := retval, kt_state := KT_EXITED\<rparr>) s;
     th \<leftarrow> threads s (curthr s);
     if kt_wchan th \<noteq> None \<or> kt_qlinked th \<or> kt_proc th \<noteq> curproc s then None
     else proc_thread_exited intr ops retval s
   }"

text \<open>A cancelled thread other than the current one goes on until it notices; the current one exits at once.\<close>

definition kthread_cancel :: "(nat \<Rightarrow> 'x kernel \<Rightarrow> 'x kernel) \<Rightarrow> 'x kops \<Rightarrow> addr \<Rightarrow> int \<Rightarrow> 'x kernel \<Rightarrow> 'x kernel outcome option" where
  "kthread_cancel intr ops kthr retval s =
     (if kthr = NULL then None
      else if kthr = curthr s then do { s \<leftarrow> kthread_exit intr ops retval s; Some (Away s) }
      else do {
        s \<leftarrow> upd_thr kthr (\<lambda>th. th\<lparr>kt_retval := retval, kt_cancelled := 1\<rparr>) s;
        th \<leftarrow> threads s kthr;
        if kt_state th = KT_SLEEP_CANCELLABLE then do { s \<leftarrow> sched_cancel kthr s; Some (Ret s) }
        else Some (Ret s)
      })"

fun cancel_threads :: "(nat \<Rightarrow> 'x kernel \<Rightarrow> 'x kernel) \<Rightarrow> 'x kops \<Rightarrow> int \<Rightarrow> addr list \<Rightarrow> 'x kernel \<Rightarrow> 'x kernel outcome option" where
  "cancel_threads intr ops status [] s = Some (Ret s)"
| "cancel_threads intr ops status (t # ts) s = do {
     r \<leftarrow> kthread_cancel intr ops t status s;
     (case r of Away s \<Rightarrow> Some (Away s) | Ret s \<Rightarrow> cancel_threads intr ops status ts s)
   }"

definition do_exit :: "(nat \<Rightarrow> 'x kernel \<Rightarrow> 'x kernel) \<Rightarrow> 'x kops \<Rightarrow> int \<Rightarrow> 'x kernel \<Rightarrow> 'x kernel option" where
  "do_exit intr ops status s = do {
     p \<leftarrow> procs s (curproc s);
     r \<leftarrow> cancel_threads intr ops status (p_threads p) s;
     (case r of Away s \<Rightarrow> Some s | Ret s \<Rightarrow> kthread_exit intr ops status s)
   }"

section \<open>Killing\<close>

definition proc_kill :: "(nat \<Rightarrow> 'x kernel \<Rightarrow> 'x kernel) \<Rightarrow> 'x kops \<Rightarrow> addr \<Rightarrow> int \<Rightarrow> 'x kernel \<Rightarrow> 'x kernel outcome option" where
  "proc_kill intr ops p status s =
     (if p = curproc s then do { s \<leftarrow> do_exit intr ops status s; Some (Away s) }
      else do {
        pr \<leftarrow> procs s p;
        r \<leftarrow> cancel_threads intr ops status (p_threads pr) s;
        (case r of Away s \<Rightarrow> Some (Away s)
         | Ret s \<Rightarrow> do { s \<leftarrow> upd_proc p (\<lambda>p. p\<lparr>p_status := status\<rparr>) s; Some (Ret s) })
      })"

fun kill_procs :: "(nat \<Rightarrow> 'x kernel \<Rightarrow> 'x kernel) \<Rightarrow> 'x kops \<Rightarrow> addr list \<Rightarrow> 'x kernel \<Rightarrow> 'x kernel outcome option" where
  "kill_procs intr ops [] s = Some (Ret s)"
| "kill_procs intr ops (p # ps) s = do {
     pr \<leftarrow> procs s p;
     if p_pid pr = PID_IDLE ops then kill_procs intr ops ps s
     else do {
       parent \<leftarrow> procs s (p_pproc pr);
       if p_pid parent \<noteq> PID_IDLE ops \<and> p \<noteq> curproc s \<and> p_pid pr \<noteq> PID_IDLE ops then do {
         r \<leftarrow> proc_kill intr ops p (p_status pr) s;
         (case r of Away s \<Rightarrow> Some (Away s) | Ret s \<Rightarrow> kill_procs intr ops ps s)
       } else kill_procs intr ops ps s
     }
   }"

definition proc_kill_all :: "(nat \<Rightarrow> 'x kernel \<Rightarrow> 'x kernel) \<Rightarrow> 'x kops \<Rightarrow> 'x kernel \<Rightarrow> 'x kernel option" where
  "proc_kill_all intr ops s = do {
     r \<leftarrow> kill_procs intr ops (proc_list s) s;
     (case r of Away s \<Rightarrow> Some s
      | Ret s \<Rightarrow> do { p \<leftarrow> procs s (curproc s); do_exit intr ops (p_status p) s })
   }"

section \<open>Waiting\<close>

datatype 'k wait_result = Reaped int "int option" 'k | No_child 'k | Still_waiting 'k

fun destroy_threads :: "'x kops \<Rightarrow> addr list \<Rightarrow> 'x kernel \<Rightarrow> 'x kernel option" where
  "destroy_threads ops [] s = Some s"
| "destroy_threads ops (t # ts) s = do {
     th \<leftarrow> threads s t;
     if kt_state th \<noteq> KT_EXITED then None
     else do { s \<leftarrow> kthread_destroy ops t s; destroy_threads ops ts s }
   }"

text \<open>
  What is done with a dead child; \<open>want\<close> is whether the caller passed a place for the status.
\<close>

definition reap :: "'x kops \<Rightarrow> int \<Rightarrow> bool \<Rightarrow> addr \<Rightarrow> 'x kernel \<Rightarrow> 'x kernel wait_result option" where
  "reap ops pid want c s = do {
     cr \<leftarrow> procs s c;
     let childpid = p_pid cr;
     if pid \<noteq> - 1 \<and> childpid \<noteq> pid then None
     else do {
       s \<leftarrow> destroy_threads ops (p_threads cr) s;
       cr \<leftarrow> procs s c;
       s \<leftarrow> upd_proc (curproc s) (\<lambda>p. p\<lparr>p_children := remove1 c (p_children p)\<rparr>) s;
       let s = s\<lparr>proc_list := remove1 c (proc_list s)\<rparr>;
       if p_pagedir cr = NULL then None
       else Some (Reaped childpid (if want then Some (p_status cr) else None)
         (s\<lparr>procs := (procs s)(c := None), ext := slab_proc_free ops c (pt_destroy_pagedir ops (p_pagedir cr) (ext s))\<rparr>))
     }
   }"

fun first_dead :: "(addr \<rightharpoonup> proc) \<Rightarrow> addr list \<Rightarrow> addr option option" where
  "first_dead ps [] = Some None"
| "first_dead ps (c # cs) = do { cr \<leftarrow> ps c; if p_state cr = PROC_DEAD then Some (Some c) else first_dead ps cs }"

definition wait_any :: "(nat \<Rightarrow> 'x kernel \<Rightarrow> 'x kernel) \<Rightarrow> 'x kops \<Rightarrow> bool \<Rightarrow> 'x kernel \<Rightarrow> 'x kernel wait_result option" where
  "wait_any intr ops want s = do {
     p \<leftarrow> procs s (curproc s);
     if p_children p = [] then Some (No_child s)
     else do {
       d \<leftarrow> first_dead (procs s) (p_children p);
       (case d of Some c \<Rightarrow> reap ops (- 1) want c s
        | None \<Rightarrow> do { s \<leftarrow> sched_sleep_on intr (P_wait (curproc s)) s; Some (Still_waiting s) })
     }
   }"

definition wait_for :: "(nat \<Rightarrow> 'x kernel \<Rightarrow> 'x kernel) \<Rightarrow> 'x kops \<Rightarrow> int \<Rightarrow> bool \<Rightarrow> addr \<Rightarrow> 'x kernel \<Rightarrow> 'x kernel wait_result option" where
  "wait_for intr ops pid want c s = do {
     cr \<leftarrow> procs s c;
     if p_state cr = PROC_DEAD then reap ops pid want c s
     else do { s \<leftarrow> sched_sleep_on intr (P_wait (curproc s)) s; Some (Still_waiting s) }
   }"

definition do_waitpid :: "(nat \<Rightarrow> 'x kernel \<Rightarrow> 'x kernel) \<Rightarrow> 'x kops \<Rightarrow> int \<Rightarrow> bool \<Rightarrow> 'x kernel \<Rightarrow> 'x kernel wait_result option" where
  "do_waitpid intr ops pid want s = do {
     p \<leftarrow> procs s (curproc s);
     if proc_initproc s = NULL then None
     else if pid < - 1 \<or> p_children p = [] then Some (No_child s)
     else if pid = - 1 then wait_any intr ops want s
     else do {
       c \<leftarrow> proc_lookup_in (procs s) (p_children p) pid;
       if c \<noteq> NULL then wait_for intr ops pid want c s else Some (No_child s)
     }
   }"

section \<open>Identifiers are unused\<close>

lemma getid_loop_spec:
  assumes "0 \<le> nxt" "nxt < maxc" "d < nat maxc" "\<forall>k < d. (nxt + int k) mod maxc \<in> set used"
  shows "\<exists>r. getid_loop maxc nxt used ((nxt + int d) mod maxc) = Some r \<and>
    (r = - 1 \<and> (\<forall>k < nat maxc. (nxt + int k) mod maxc \<in> set used) \<or> 0 \<le> r \<and> r < maxc \<and> r \<notin> set used)"
  using assms(3,4)
proof (induction "nat maxc - Suc d" arbitrary: d)
  case 0
  then have d: "nat maxc = Suc d" by simp
  let ?pid = "(nxt + int d) mod maxc"
  have "(?pid + 1) mod maxc = (nxt + int d + 1) mod maxc" by (rule mod_add_left_eq)
  also have "nxt + int d + 1 = nxt + maxc" using d assms(1,2) by simp
  finally have n: "(?pid + 1) mod maxc = nxt" using assms(1,2) by simp
  show ?case
  proof (cases "?pid \<in> set used")
    case True
    then have "\<forall>k < nat maxc. (nxt + int k) mod maxc \<in> set used" using 0(3) d less_Suc_eq by auto
    then show ?thesis using True n by (subst getid_loop.simps) simp
  qed (use assms(1,2) in \<open>subst getid_loop.simps, simp\<close>)
next
  case (Suc e)
  let ?pid = "(nxt + int d) mod maxc"
  show ?case
  proof (cases "?pid \<in> set used")
    case True
    have nx: "(?pid + 1) mod maxc = (nxt + int (Suc d)) mod maxc"
      using mod_add_left_eq [of "nxt + int d" maxc 1] by (simp add: algebra_simps)
    have ne: "(nxt + int (Suc d)) mod maxc \<noteq> nxt"
    proof
      assume "(nxt + int (Suc d)) mod maxc = nxt"
      then have "(nxt + int (Suc d)) mod maxc = nxt mod maxc" using assms(1,2) by simp
      then have "maxc dvd int (Suc d)" by (metis add_diff_cancel_left' mod_eq_dvd_iff)
      then have "maxc \<le> int (Suc d)" by (rule zdvd_imp_le) simp
      then show False using Suc(2) Suc.prems(1) by simp
    qed
    have "\<exists>r. getid_loop maxc nxt used ((nxt + int (Suc d)) mod maxc) = Some r \<and>
        (r = - 1 \<and> (\<forall>k < nat maxc. (nxt + int k) mod maxc \<in> set used) \<or> 0 \<le> r \<and> r < maxc \<and> r \<notin> set used)"
    proof (rule Suc(1))
      show "e = nat maxc - Suc (Suc d)" "Suc d < nat maxc" using Suc(2) by simp_all
      show "\<forall>k < Suc d. (nxt + int k) mod maxc \<in> set used" using Suc.prems(2) True less_Suc_eq by auto
    qed
    then show ?thesis using True ne by (subst getid_loop.simps) (simp only: nx if_True if_False)
  qed (use assms(1,2) in \<open>subst getid_loop.simps, simp\<close>)
qed

lemma getid_ok:
  assumes "0 \<le> next_pid s" "next_pid s < PROC_MAX_COUNT ops"
  shows "\<exists>pid s'. proc_getid ops s = Some (pid, s') \<and>
    (if {0..<PROC_MAX_COUNT ops} \<subseteq> set (pids s) then pid = - 1 \<and> s' = s
     else 0 \<le> pid \<and> pid < PROC_MAX_COUNT ops \<and> pid \<notin> set (pids s) \<and> s' = s\<lparr>next_pid := (pid + 1) mod PROC_MAX_COUNT ops\<rparr>)"
proof -
  let ?M = "PROC_MAX_COUNT ops"
  obtain r where r: "getid_loop ?M (next_pid s) (pids s) ((next_pid s + int 0) mod ?M) = Some r"
    "r = - 1 \<and> (\<forall>k < nat ?M. (next_pid s + int k) mod ?M \<in> set (pids s)) \<or> 0 \<le> r \<and> r < ?M \<and> r \<notin> set (pids s)"
    using getid_loop_spec [of "next_pid s" ?M 0 "pids s"] assms by auto
  have l: "getid_loop ?M (next_pid s) (pids s) (next_pid s) = Some r" using r(1) assms by simp
  show ?thesis
  proof (cases "r = - 1")
    case True
    then have a: "\<forall>k < nat ?M. (next_pid s + int k) mod ?M \<in> set (pids s)" using r(2) by simp
    have "{0..<?M} \<subseteq> set (pids s)"
    proof
      fix x assume x: "x \<in> {0..<?M}"
      let ?k = "nat ((x - next_pid s) mod ?M)"
      have "?k < nat ?M" using assms by simp
      moreover have "(next_pid s + int ?k) mod ?M = x" using x assms by (simp add: mod_add_right_eq)
      ultimately show "x \<in> set (pids s)" using a by metis
    qed
    then show ?thesis using l True by (simp add: proc_getid_def)
  next
    case False
    then have "0 \<le> r" "r < ?M" "r \<notin> set (pids s)" using r(2) by auto
    moreover from this have "\<not> {0..<?M} \<subseteq> set (pids s)" by auto
    ultimately show ?thesis using l False by (simp add: proc_getid_def)
  qed
qed

section \<open>The tree of processes\<close>

text \<open>
  What the tree of processes is, without the rest of a process: identifiers, children in order
  and parents.  \<open>wf_tree\<close> says that the list of all processes is complete, identifiers
  are unique, and parents and children agree; only the idle process may be without a parent.
\<close>

record node =
  n_pid :: int
  n_children :: "addr list"
  n_parent :: addr

definition wf_tree :: "int \<Rightarrow> (addr \<rightharpoonup> node) \<Rightarrow> addr list \<Rightarrow> bool" where
  "wf_tree idle T L \<longleftrightarrow> T NULL = None \<and> distinct L \<and> set L = dom T \<and>
     (\<forall>p q n m. T p = Some n \<and> T q = Some m \<and> n_pid n = n_pid m \<longrightarrow> p = q) \<and>
     (\<forall>p n. T p = Some n \<longrightarrow> distinct (n_children n) \<and> (\<forall>c \<in> set (n_children n). \<exists>m. T c = Some m \<and> n_parent m = p)) \<and>
     (\<forall>c m. T c = Some m \<and> n_pid m \<noteq> idle \<longrightarrow> (\<exists>n. T (n_parent m) = Some n \<and> c \<in> set (n_children n)))"

definition add_child :: "addr \<Rightarrow> addr \<Rightarrow> int \<Rightarrow> (addr \<rightharpoonup> node) \<Rightarrow> (addr \<rightharpoonup> node)" where
  "add_child cur p pid T = (\<lambda>x. if x = p then Some \<lparr>n_pid = pid, n_children = [], n_parent = cur\<rparr>
     else if x = cur then map_option (\<lambda>n. n\<lparr>n_children := n_children n @ [p]\<rparr>) (T x) else T x)"

definition kids :: "(addr \<rightharpoonup> node) \<Rightarrow> addr \<Rightarrow> addr list" where
  "kids T p = (case T p of Some n \<Rightarrow> n_children n | None \<Rightarrow> [])"

definition adopt :: "addr \<Rightarrow> addr \<Rightarrow> (addr \<rightharpoonup> node) \<Rightarrow> (addr \<rightharpoonup> node)" where
  "adopt cur init T = (\<lambda>x. map_option (\<lambda>n. n\<lparr>
     n_children := (if x = cur then [] else if x = init then n_children n @ kids T cur else n_children n),
     n_parent := (if x \<in> set (kids T cur) then init else n_parent n)\<rparr>) (T x))"

definition drop_child :: "addr \<Rightarrow> addr \<Rightarrow> (addr \<rightharpoonup> node) \<Rightarrow> (addr \<rightharpoonup> node)" where
  "drop_child cur c T = (\<lambda>x. if x = c then None
     else if x = cur then map_option (\<lambda>n. n\<lparr>n_children := remove1 c (n_children n)\<rparr>) (T x) else T x)"

lemma wf_treeD:
  assumes "wf_tree idle T L"
  shows "T NULL = None" "distinct L" "set L = dom T"
    "\<And>p q n m. T p = Some n \<Longrightarrow> T q = Some m \<Longrightarrow> n_pid n = n_pid m \<Longrightarrow> p = q"
    "\<And>p n. T p = Some n \<Longrightarrow> distinct (n_children n)"
    "\<And>p n c. T p = Some n \<Longrightarrow> c \<in> set (n_children n) \<Longrightarrow> \<exists>m. T c = Some m \<and> n_parent m = p"
    "\<And>c m. T c = Some m \<Longrightarrow> n_pid m \<noteq> idle \<Longrightarrow> \<exists>n. T (n_parent m) = Some n \<and> c \<in> set (n_children n)"
  using assms unfolding wf_tree_def by simp_all

lemma wf_treeI:
  assumes "T NULL = None" "distinct L" "set L = dom T"
    "\<And>p q n m. T p = Some n \<Longrightarrow> T q = Some m \<Longrightarrow> n_pid n = n_pid m \<Longrightarrow> p = q"
    "\<And>p n. T p = Some n \<Longrightarrow> distinct (n_children n)"
    "\<And>p n c. T p = Some n \<Longrightarrow> c \<in> set (n_children n) \<Longrightarrow> \<exists>m. T c = Some m \<and> n_parent m = p"
    "\<And>c m. T c = Some m \<Longrightarrow> n_pid m \<noteq> idle \<Longrightarrow> \<exists>n. T (n_parent m) = Some n \<and> c \<in> set (n_children n)"
  shows "wf_tree idle T L"
  using assms unfolding wf_tree_def by blast

lemma add_child_wf:
  assumes w: "wf_tree idle T L" and c: "T cur = Some n" and p: "T p = None" "p \<noteq> NULL"
    and f: "\<And>x m. T x = Some m \<Longrightarrow> n_pid m \<noteq> pid"
  shows "wf_tree idle (add_child cur p pid T) (L @ [p])"
proof -
  have cp: "cur \<noteq> p" using c p by auto
  have np: "p \<notin> set (n_children m)" if "T x = Some m" for x m using wf_treeD(6) [OF w that, of p] p(1) by auto
  show ?thesis
  proof (rule wf_treeI)
    show "add_child cur p pid T NULL = None" using wf_treeD(1) [OF w] p(2) c by (auto simp: add_child_def)
    show "distinct (L @ [p])" using wf_treeD(2,3) [OF w] p(1) by auto
    show "set (L @ [p]) = dom (add_child cur p pid T)" using wf_treeD(3) [OF w] c by (auto simp: add_child_def split: if_splits)
  next
    fix x y n' m assume a: "add_child cur p pid T x = Some n'" "add_child cur p pid T y = Some m" "n_pid n' = n_pid m"
    have k: "x = p \<and> n_pid n' = pid \<or> x \<noteq> p \<and> (\<exists>n0. T x = Some n0 \<and> n_pid n0 = n_pid n')"
      if "add_child cur p pid T x = Some n'" for x n' using that by (auto simp: add_child_def split: if_splits)
    show "x = y" using k [OF a(1)] k [OF a(2)] a(3) f wf_treeD(4) [OF w] by metis
  next
    fix x m assume "add_child cur p pid T x = Some m"
    then show "distinct (n_children m)" using wf_treeD(5) [OF w] np by (auto simp: add_child_def split: if_splits)
  next
    fix x m d assume "add_child cur p pid T x = Some m" "d \<in> set (n_children m)"
    then show "\<exists>k. add_child cur p pid T d = Some k \<and> n_parent k = x"
      using wf_treeD(6) [OF w, of x _ d] np by (fastforce simp: add_child_def split: if_splits)
  next
    fix d m assume "add_child cur p pid T d = Some m" "n_pid m \<noteq> idle"
    then show "\<exists>k. add_child cur p pid T (n_parent m) = Some k \<and> d \<in> set (n_children k)"
      using wf_treeD(7) [OF w, of d] c cp p(1) by (fastforce simp: add_child_def split: if_splits)
  qed
qed

lemma adopt_wf:
  assumes w: "wf_tree idle T L" and c: "T cur = Some n" and i: "T init = Some m" and ne: "cur \<noteq> init"
  shows "wf_tree idle (adopt cur init T) L"
proof -
  have k: "kids T cur = n_children n" using c by (simp add: kids_def)
  have disj: "x \<notin> set (n_children n)" if "T p = Some l" "x \<in> set (n_children l)" "p \<noteq> cur" for p l x
    using wf_treeD(6) [OF w that(1,2)] wf_treeD(6) [OF w c, of x] that(3) by auto
  have par: "\<exists>l. T x = Some l \<and> n_pid l = n_pid l' \<and> n_parent l' = (if x \<in> set (n_children n) then init else n_parent l) \<and>
      n_children l' = (if x = cur then [] else if x = init then n_children l @ n_children n else n_children l)"
    if "adopt cur init T x = Some l'" for x l' using that by (auto simp: adopt_def k)
  have ex: "\<exists>l'. adopt cur init T x = Some l' \<and> n_parent l' = (if x \<in> set (n_children n) then init else n_parent l) \<and>
      n_children l' = (if x = cur then [] else if x = init then n_children l @ n_children n else n_children l)"
    if "T x = Some l" for x l using that by (auto simp: adopt_def k)
  show ?thesis
  proof (rule wf_treeI)
    show "adopt cur init T NULL = None" using wf_treeD(1) [OF w] by (simp add: adopt_def)
    show "distinct L" by (rule wf_treeD(2) [OF w])
    show "set L = dom (adopt cur init T)" using wf_treeD(3) [OF w] by (auto simp: adopt_def)
  next
    fix p q a b assume "adopt cur init T p = Some a" "adopt cur init T q = Some b" "n_pid a = n_pid b"
    then show "p = q" using par [of p a] par [of q b] wf_treeD(4) [OF w] by metis
  next
    fix p a assume "adopt cur init T p = Some a"
    then obtain l where l: "T p = Some l" "n_children a = (if p = cur then [] else if p = init then n_children l @ n_children n else n_children l)"
      using par by blast
    then show "distinct (n_children a)" using wf_treeD(5) [OF w l(1)] wf_treeD(5) [OF w c] disj [OF l(1)] by auto
  next
    fix p a x assume p: "adopt cur init T p = Some a" and x: "x \<in> set (n_children a)"
    obtain l where l: "T p = Some l" "n_children a = (if p = cur then [] else if p = init then n_children l @ n_children n else n_children l)"
      using par [OF p] by blast
    have pc: "p \<noteq> cur" using l(2) x by auto
    show "\<exists>b. adopt cur init T x = Some b \<and> n_parent b = p"
    proof (cases "x \<in> set (n_children l)")
      case True
      then obtain k where "T x = Some k" "n_parent k = p" using wf_treeD(6) [OF w l(1)] by blast
      then show ?thesis using ex [of x k] disj [OF l(1) True pc] by auto
    next
      case False
      then have "x \<in> set (n_children n)" "p = init" using l(2) x by (auto split: if_splits)
      moreover from this obtain k where "T x = Some k" using wf_treeD(6) [OF w c] by blast
      ultimately show ?thesis using ex [of x k] by auto
    qed
  next
    fix x a assume x: "adopt cur init T x = Some a" and id: "n_pid a \<noteq> idle"
    obtain l where l: "T x = Some l" "n_pid l = n_pid a" "n_parent a = (if x \<in> set (n_children n) then init else n_parent l)"
      using par [OF x] by blast
    show "\<exists>b. adopt cur init T (n_parent a) = Some b \<and> x \<in> set (n_children b)"
    proof (cases "x \<in> set (n_children n)")
      case True
      then show ?thesis using ex [OF i] l(3) ne by auto
    next
      case False
      obtain k where k: "T (n_parent l) = Some k" "x \<in> set (n_children k)" using wf_treeD(7) [OF w l(1)] l(2) id by auto
      have "n_parent l \<noteq> cur" using k c False by auto
      then show ?thesis using ex [OF k(1)] k(2) l(3) False by auto
    qed
  qed
qed

lemma drop_child_wf:
  assumes w: "wf_tree idle T L" and c: "T c = Some m" "n_children m = []" "c \<noteq> cur" "n_parent m = cur"
  shows "wf_tree idle (drop_child cur c T) (remove1 c L)"
proof -
  have d: "\<exists>l. T x = Some l \<and> x \<noteq> c \<and> n_pid l = n_pid l' \<and> n_parent l' = n_parent l \<and>
      n_children l' = (if x = cur then remove1 c (n_children l) else n_children l)"
    if "drop_child cur c T x = Some l'" for x l' using that by (auto simp: drop_child_def split: if_splits)
  have ex: "\<exists>l'. drop_child cur c T x = Some l' \<and> n_parent l' = n_parent l \<and>
      n_children l' = (if x = cur then remove1 c (n_children l) else n_children l)"
    if "T x = Some l" "x \<noteq> c" for x l using that by (auto simp: drop_child_def)
  have only: "p = cur" if "T p = Some l" "c \<in> set (n_children l)" for p l
    using wf_treeD(6) [OF w that] c(1,4) by auto
  show ?thesis
  proof (rule wf_treeI)
    show "drop_child cur c T NULL = None" using wf_treeD(1) [OF w] by (simp add: drop_child_def)
    show "distinct (remove1 c L)" using wf_treeD(2) [OF w] by simp
    show "set (remove1 c L) = dom (drop_child cur c T)" using wf_treeD(2,3) [OF w] by (auto simp: drop_child_def split: if_splits)
  next
    fix p q a b assume "drop_child cur c T p = Some a" "drop_child cur c T q = Some b" "n_pid a = n_pid b"
    then show "p = q" using d [of p a] d [of q b] wf_treeD(4) [OF w] by metis
  next
    fix p a assume "drop_child cur c T p = Some a"
    then show "distinct (n_children a)" using d [of p a] wf_treeD(5) [OF w] by auto
  next
    fix p a x assume p: "drop_child cur c T p = Some a" and x: "x \<in> set (n_children a)"
    obtain l where l: "T p = Some l" "n_children a = (if p = cur then remove1 c (n_children l) else n_children l)" using d [OF p] by blast
    have xl: "x \<in> set (n_children l)" using l(2) x set_remove1_subset [of c "n_children l"] by (auto split: if_splits)
    have "x \<noteq> c" using only [OF l(1)] xl l(2) x wf_treeD(5) [OF w l(1)] by auto
    moreover obtain k where "T x = Some k" "n_parent k = p" using wf_treeD(6) [OF w l(1) xl] by blast
    ultimately show "\<exists>b. drop_child cur c T x = Some b \<and> n_parent b = p" using ex [of x k] by auto
  next
    fix x a assume x: "drop_child cur c T x = Some a" and id: "n_pid a \<noteq> idle"
    obtain l where l: "T x = Some l" "x \<noteq> c" "n_pid l = n_pid a" "n_parent a = n_parent l" using d [OF x] by blast
    obtain k where k: "T (n_parent l) = Some k" "x \<in> set (n_children k)" using wf_treeD(7) [OF w l(1)] l(3) id by auto
    have "n_parent l \<noteq> c" using k c(1,2) by auto
    then show "\<exists>b. drop_child cur c T (n_parent a) = Some b \<and> x \<in> set (n_children b)" using ex [OF k(1)] k(2) l(2,4) by auto
  qed
qed

section \<open>The processes form a tree\<close>

definition node_of :: "proc \<Rightarrow> node" where
  "node_of pr = \<lparr>n_pid = p_pid pr, n_children = p_children pr, n_parent = p_pproc pr\<rparr>"

definition tree :: "'x kernel \<Rightarrow> (addr \<rightharpoonup> node)" where
  "tree s = (\<lambda>p. map_option node_of (procs s p))"

definition proc_inv :: "'x kops \<Rightarrow> 'x kernel \<Rightarrow> bool" where
  "proc_inv ops s \<longleftrightarrow> wf_tree (PID_IDLE ops) (tree s) (proc_list s) \<and> 0 \<le> next_pid s \<and> next_pid s < PROC_MAX_COUNT ops"

lemma node_of_simps [simp]:
  "n_pid (node_of pr) = p_pid pr" "n_children (node_of pr) = p_children pr" "n_parent (node_of pr) = p_pproc pr"
  by (simp_all add: node_of_def)

lemma tree_eq: "procs s p = Some pr \<Longrightarrow> tree s p = Some (node_of pr)" "procs s p = None \<Longrightarrow> tree s p = None"
  by (simp_all add: tree_def)

lemma pids_set:
  assumes "set (proc_list s) = dom (procs s)"
  shows "set (pids s) = {p_pid pr | pr. pr \<in> ran (procs s)}"
  using assms by (force simp: pids_def ran_def image_iff)

text \<open>Parts of the state that only this theory changes.\<close>

definition same_procs :: "'x kernel \<Rightarrow> 'x kernel \<Rightarrow> bool" where
  "same_procs s s' \<longleftrightarrow> procs s' = procs s \<and> proc_list s' = proc_list s \<and> next_pid s' = next_pid s \<and>
     proc_initproc s' = proc_initproc s \<and> curproc s' = curproc s"

lemma wakeup_same:
  assumes "sched_wakeup_on q s = Some (t, s')"
  shows "same_procs s s'"
proof (cases "sched_queue_empty q s")
  case True
  then show ?thesis using assms by (simp add: sched_wakeup_on_def same_procs_def)
next
  case False
  then obtain s1 where s1: "ktqueue_dequeue q s = Some (t, s1)" "sched_make_runnable t s1 = Some s'"
    using assms by (auto simp: sched_wakeup_on_def split: bind_splits if_splits)
  have "same_procs s s1" using s1(1) by (auto simp: ktqueue_dequeue_def Let_def same_procs_def split: if_splits bind_splits)
  moreover have "same_procs s1 s'"
    using s1(2) by (auto simp: sched_make_runnable_def ktqueue_enqueue_def Let_def same_procs_def elim!: upd_thrE split: if_splits bind_splits)
  ultimately show ?thesis by (simp add: same_procs_def)
qed

section \<open>Exit: the children go to the init process\<close>

lemma reparent_eq:
  assumes "procs s (curproc s) = Some cp" "p_children cp = cs" "procs s (proc_initproc s) = Some ip" "curproc s \<noteq> proc_initproc s"
    "\<forall>c \<in> set cs. procs s c \<noteq> None"
  shows "reparent cs s = Some (s\<lparr>procs := (\<lambda>x. map_option (\<lambda>pr. pr\<lparr>
    p_children := (if x = curproc s then [] else if x = proc_initproc s then p_children pr @ cs else p_children pr),
    p_pproc := (if x \<in> set cs then proc_initproc s else p_pproc pr)\<rparr>) (procs s x))\<rparr>)"
  using assms
proof (induction cs arbitrary: s cp ip)
  case Nil
  have "(\<lambda>x. map_option (\<lambda>pr. pr\<lparr>p_children := (if x = curproc s then [] else if x = proc_initproc s then p_children pr @ [] else p_children pr),
      p_pproc := (if x \<in> set [] then proc_initproc s else p_pproc pr)\<rparr>) (procs s x)) = procs s"
    using Nil.prems(1,2) by (auto simp: fun_eq_iff option.map_ident_strong intro!: option.map_ident_strong)
  then show ?case by simp
next
  case (Cons c cs)
  let ?cur = "curproc s" let ?init = "proc_initproc s"
  define P1 where "P1 = (\<lambda>x. map_option (\<lambda>pr. pr\<lparr>
    p_children := (if x = ?cur then cs else if x = ?init then p_children pr @ [c] else p_children pr),
    p_pproc := (if x = c then ?init else p_pproc pr)\<rparr>) (procs s x))"
  define P2 where "P2 = (procs s)(?cur \<mapsto> cp\<lparr>p_children := cs\<rparr>, ?init \<mapsto> ip\<lparr>p_children := p_children ip @ [c]\<rparr>)"
  have "P2 c \<noteq> None" using Cons.prems(5) by (auto simp: P2_def)
  then obtain cr where cr: "P2 c = Some cr" by blast
  have P1: "P2(c \<mapsto> cr\<lparr>p_pproc := ?init\<rparr>) = P1"
  proof
    fix x
    show "(P2(c \<mapsto> cr\<lparr>p_pproc := ?init\<rparr>)) x = P1 x"
      using Cons.prems(1-4) cr by (cases "x = ?cur"; cases "x = ?init"; cases "x = c"; cases "procs s x") (auto simp: P1_def P2_def)
  qed
  have "upd_proc ?cur (\<lambda>p. p\<lparr>p_children := remove1 c (p_children p)\<rparr>) s = Some (s\<lparr>procs := (procs s)(?cur \<mapsto> cp\<lparr>p_children := cs\<rparr>)\<rparr>)"
    using Cons.prems(1,2) by simp
  moreover have "upd_proc ?init (\<lambda>p. p\<lparr>p_children := p_children p @ [c]\<rparr>) (s\<lparr>procs := (procs s)(?cur \<mapsto> cp\<lparr>p_children := cs\<rparr>)\<rparr>) = Some (s\<lparr>procs := P2\<rparr>)"
    using Cons.prems(3,4) by (simp add: P2_def)
  moreover have "upd_proc c (\<lambda>p. p\<lparr>p_pproc := ?init\<rparr>) (s\<lparr>procs := P2\<rparr>) = Some (s\<lparr>procs := P1\<rparr>)"
    using cr by (simp add: P1 [symmetric])
  ultimately have st: "reparent (c # cs) s = reparent cs (s\<lparr>procs := P1\<rparr>)" by simp
  obtain cp1 ip1 where p1: "P1 ?cur = Some cp1" "p_children cp1 = cs" "P1 ?init = Some ip1"
    using Cons.prems(1,3,4) by (simp add: P1_def)
  have p2: "\<forall>c \<in> set cs. P1 c \<noteq> None" using Cons.prems(5) by (simp add: P1_def)
  have eq: "(\<lambda>x. map_option (\<lambda>pr. pr\<lparr>p_children := (if x = ?cur then [] else if x = ?init then p_children pr @ cs else p_children pr),
      p_pproc := (if x \<in> set cs then ?init else p_pproc pr)\<rparr>) (P1 x)) =
    (\<lambda>x. map_option (\<lambda>pr. pr\<lparr>p_children := (if x = ?cur then [] else if x = ?init then p_children pr @ c # cs else p_children pr),
      p_pproc := (if x \<in> set (c # cs) then ?init else p_pproc pr)\<rparr>) (procs s x))"
    by (auto simp: P1_def fun_eq_iff option.map_comp comp_def intro!: option.map_cong0)
  have "reparent cs (s\<lparr>procs := P1\<rparr>) = Some (s\<lparr>procs := (\<lambda>x. map_option (\<lambda>pr. pr\<lparr>
      p_children := (if x = ?cur then [] else if x = ?init then p_children pr @ cs else p_children pr),
      p_pproc := (if x \<in> set cs then ?init else p_pproc pr)\<rparr>) (P1 x))\<rparr>)"
    using Cons.IH [of "s\<lparr>procs := P1\<rparr>" cp1 ip1] p1 p2 Cons.prems(4) by (simp cong: if_cong)
  then show ?case unfolding st eq .
qed

lemma reparent_tree:
  assumes "procs s (curproc s) = Some cp" "procs s (proc_initproc s) = Some ip" "curproc s \<noteq> proc_initproc s"
    "wf_tree idle (tree s) L"
  shows "\<exists>s'. reparent (p_children cp) s = Some s' \<and> tree s' = adopt (curproc s) (proc_initproc s) (tree s) \<and>
    (\<forall>x. map_option (\<lambda>pr. (p_state pr, p_status pr, p_threads pr, p_pagedir pr, p_files pr, p_vmmap pr)) (procs s' x) =
         map_option (\<lambda>pr. (p_state pr, p_status pr, p_threads pr, p_pagedir pr, p_files pr, p_vmmap pr)) (procs s x)) \<and>
    s' = s\<lparr>procs := procs s'\<rparr>"
proof -
  have "\<forall>c \<in> set (p_children cp). procs s c \<noteq> None"
    using wf_treeD(6) [OF assms(4) tree_eq(1) [OF assms(1)]] by (auto simp: tree_def)
  from reparent_eq [OF assms(1) refl assms(2,3) this] obtain s' where s': "reparent (p_children cp) s = Some s'"
    "s' = s\<lparr>procs := (\<lambda>x. map_option (\<lambda>pr. pr\<lparr>
    p_children := (if x = curproc s then [] else if x = proc_initproc s then p_children pr @ p_children cp else p_children pr),
    p_pproc := (if x \<in> set (p_children cp) then proc_initproc s else p_pproc pr)\<rparr>) (procs s x))\<rparr>" by blast
  have "kids (tree s) (curproc s) = p_children cp" using assms(1) by (simp add: kids_def tree_def)
  then have "tree s' = adopt (curproc s) (proc_initproc s) (tree s)"
    by (auto simp: s'(2) tree_def adopt_def fun_eq_iff option.map_comp comp_def node_of_def intro!: option.map_cong0)
  moreover have "map_option (\<lambda>pr. (p_state pr, p_status pr, p_threads pr, p_pagedir pr, p_files pr, p_vmmap pr)) (procs s' x) =
       map_option (\<lambda>pr. (p_state pr, p_status pr, p_threads pr, p_pagedir pr, p_files pr, p_vmmap pr)) (procs s x)" for x
    by (simp add: s'(2) option.map_comp comp_def)
  moreover have "s' = s\<lparr>procs := procs s'\<rparr>" by (simp add: s'(2))
  ultimately show ?thesis using s'(1) by blast
qed

lemma close_files_eq:
  assumes "procs s (curproc s) = Some pr"
  shows "\<exists>x. close_files ops is s = Some (s\<lparr>ext := x,
    procs := (procs s)(curproc s \<mapsto> pr\<lparr>p_files := fold (\<lambda>i fs. if fs ! i \<noteq> NULL then fs[i := NULL] else fs) is (p_files pr)\<rparr>)\<rparr>)"
  using assms
proof (induction "is" arbitrary: s pr)
  case Nil
  have "pr\<lparr>p_files := p_files pr\<rparr> = pr" by simp
  moreover have "(procs s)(curproc s \<mapsto> pr) = procs s" using Nil by (rule fun_upd_idem)
  ultimately show ?case by (intro exI [of _ "ext s"]) (simp del: fun_upd_apply)
next
  case (Cons i "is")
  show ?case
  proof (cases "p_files pr ! i = NULL")
    case True
    then show ?thesis using Cons.IH [OF Cons.prems] Cons.prems by simp
  next
    case False
    let ?s = "s\<lparr>ext := fput ops (p_files pr ! i) (ext s), procs := (procs s)(curproc s \<mapsto> pr\<lparr>p_files := (p_files pr)[i := NULL]\<rparr>)\<rparr>"
    have "close_files ops (i # is) s = close_files ops is ?s" using False Cons.prems by simp
    then show ?thesis using Cons.IH [of ?s "pr\<lparr>p_files := (p_files pr)[i := NULL]\<rparr>"] False
      by (simp del: fun_upd_apply close_files.simps) (simp add: fun_upd_same del: fun_upd_apply close_files.simps)
  qed
qed

lemma closed_files:
  assumes "length fs = n"
  shows "fold (\<lambda>i fs. if fs ! i \<noteq> NULL then fs[i := NULL] else fs) [0..<n] fs = replicate n NULL"
proof -
  have "let r = fold (\<lambda>i fs. if fs ! i \<noteq> NULL then fs[i := NULL] else fs) [0..<k] fs in length r = n \<and> (\<forall>i < k. r ! i = NULL)" if "k \<le> n" for k
    using that assms by (induction k) (auto simp: Let_def nth_list_update less_Suc_eq)
  from this [of n] show ?thesis by (auto simp: Let_def list_eq_iff_nth_eq)
qed

text \<open>What a wake-up does to queues and threads.\<close>

definition woken :: "qid \<Rightarrow> 'x kernel \<Rightarrow> 'x kernel \<Rightarrow> bool" where
  "woken q s s' \<longleftrightarrow>
     (if tq_list (queues s q) = [] then queues s' = queues s \<and> threads s' = threads s
      else (let t = last (tq_list (queues s q)) in
        \<exists>th. threads s t = Some th \<and> kt_wchan th = Some q \<and>
          threads s' = (threads s)(t \<mapsto> th\<lparr>kt_state := KT_RUN, kt_wchan := Some Kt_runq, kt_qlinked := True\<rparr>) \<and>
          tq_list (queues s' q) = butlast (tq_list (queues s q)) \<and> tq_list (queues s' Kt_runq) = t # tq_list (queues s Kt_runq)))"

lemma sched_inv_cong: "threads s' = threads s \<Longrightarrow> queues s' = queues s \<Longrightarrow> curthr s' = curthr s \<Longrightarrow> sched_inv s' = sched_inv s"
  by (simp add: sched_inv_def wf_queues_def no_lost_def parked_def cur_free_def)

lemma woken_cong: "threads s1 = threads s \<Longrightarrow> queues s1 = queues s \<Longrightarrow> woken q s1 s' = woken q s s'"
  "threads s1' = threads s' \<Longrightarrow> queues s1' = queues s' \<Longrightarrow> woken q s s1' = woken q s s'"
  by (simp_all add: woken_def)

lemma wakeup_woken:
  assumes "sched_inv s" "q \<noteq> Kt_runq"
  shows "\<exists>t s'. sched_wakeup_on q s = Some (t, s') \<and> woken q s s' \<and> same_procs s s' \<and> curthr s' = curthr s \<and> sched_inv s'"
proof -
  have w: "wf_queues s" using assms(1) by (simp add: sched_inv_def)
  obtain t s' where s': "sched_wakeup_on q s = Some (t, s')" "sched_inv s'" "curthr s' = curthr s" using wakeup_inv [OF assms] by blast
  have "woken q s s'"
  proof (cases "tq_list (queues s q) = []")
    case True
    then show ?thesis using s'(1) by (simp add: woken_def)
  next
    case False
    then show ?thesis using wakeup_eq [OF w assms(2) queue_last [OF False]] s'(1) assms(2) by (auto simp: woken_def Let_def)
  qed
  then show ?thesis using s' wakeup_same [OF s'(1)] by blast
qed

lemma adopt_none: "kids T cur = [] \<Longrightarrow> adopt cur init T = T"
  by (auto simp: adopt_def kids_def fun_eq_iff intro!: option.map_ident_strong split: option.splits)

definition details :: "proc \<Rightarrow> p_state_t \<times> int \<times> addr list \<times> addr \<times> addr list" where
  "details pr = (p_state pr, p_status pr, p_threads pr, p_pagedir pr, p_files pr)"

lemma reparent_step:
  assumes "procs s (curproc s) = Some cp" "procs s (proc_initproc s) = Some ip" "curproc s \<noteq> proc_initproc s"
    "wf_tree idle (tree s) L"
  shows "\<exists>s'. (if p_children cp \<noteq> [] then reparent (p_children cp) s else Some s) = Some s' \<and>
    tree s' = adopt (curproc s) (proc_initproc s) (tree s) \<and> (\<forall>x. map_option details (procs s' x) = map_option details (procs s x)) \<and>
    s' = s\<lparr>procs := procs s'\<rparr>"
proof (cases "p_children cp = []")
  case True
  then have "kids (tree s) (curproc s) = []" using assms(1) by (simp add: kids_def tree_def)
  then show ?thesis using True adopt_none by (intro exI [of _ s]) simp
next
  case False
  obtain s' where s': "reparent (p_children cp) s = Some s'" "tree s' = adopt (curproc s) (proc_initproc s) (tree s)"
    "\<forall>x. map_option (\<lambda>pr. (p_state pr, p_status pr, p_threads pr, p_pagedir pr, p_files pr, p_vmmap pr)) (procs s' x) =
         map_option (\<lambda>pr. (p_state pr, p_status pr, p_threads pr, p_pagedir pr, p_files pr, p_vmmap pr)) (procs s x)"
    "s' = s\<lparr>procs := procs s'\<rparr>"
    using reparent_tree [OF assms] by blast
  have "map_option details (procs s' x) = map_option details (procs s x)" for x
    using s'(3) [rule_format, of x] by (cases "procs s' x"; cases "procs s x") (auto simp: details_def)
  then show ?thesis using s'(1,2,4) False by auto
qed

text \<open>The last part of \<open>proc_cleanup\<close>: files and address space.\<close>

lemma close_and_unmap:
  assumes c: "procs s (curproc s) = Some cp" and l: "length (p_files cp) = NFILES ops"
  shows "\<exists>s'. do { s \<leftarrow> close_files ops [0..<NFILES ops] s;
      p \<leftarrow> procs s (curproc s);
      Some (if p_vmmap p \<noteq> NULL then s\<lparr>ext := vmmap_destroy ops (p_vmmap p) (ext s)\<rparr> else s) } = Some s' \<and>
    threads s' = threads s \<and> queues s' = queues s \<and> curthr s' = curthr s \<and> curproc s' = curproc s \<and> proc_list s' = proc_list s \<and>
    next_pid s' = next_pid s \<and> proc_initproc s' = proc_initproc s \<and> tree s' = tree s \<and>
    (\<forall>x. procs s' x = (if x = curproc s then Some (cp\<lparr>p_files := replicate (NFILES ops) NULL\<rparr>) else procs s x))"
proof -
  obtain x where "close_files ops [0..<NFILES ops] s = Some (s\<lparr>ext := x,
      procs := (procs s)(curproc s \<mapsto> cp\<lparr>p_files := fold (\<lambda>i fs. if fs ! i \<noteq> NULL then fs[i := NULL] else fs) [0..<NFILES ops] (p_files cp)\<rparr>)\<rparr>)"
    using close_files_eq [OF c] by blast
  then have cl: "close_files ops [0..<NFILES ops] s = Some (s\<lparr>ext := x, procs := (procs s)(curproc s \<mapsto> cp\<lparr>p_files := replicate (NFILES ops) NULL\<rparr>)\<rparr>)"
    unfolding closed_files [OF l] .
  define s1 where "s1 = s\<lparr>ext := x, procs := (procs s)(curproc s \<mapsto> cp\<lparr>p_files := replicate (NFILES ops) NULL\<rparr>)\<rparr>"
  have "tree s1 = tree s" using c by (auto simp: tree_def s1_def fun_eq_iff node_of_def)
  then show ?thesis using cl by (simp add: s1_def [symmetric]) (auto simp: s1_def tree_def)
qed

text \<open>The first part: the status, the working directory and the parent.\<close>

lemma cleanup_wakes:
  assumes i: "sched_inv s" and c: "procs s (curproc s) = Some cp"
  shows "\<exists>s1 t s2. upd_proc (curproc s) (\<lambda>p. p\<lparr>p_status := status, p_state := PROC_DEAD\<rparr>) s = Some s1 \<and>
    procs s1 = (procs s)(curproc s \<mapsto> cp\<lparr>p_status := status, p_state := PROC_DEAD\<rparr>) \<and> curproc s1 = curproc s \<and> proc_initproc s1 = proc_initproc s \<and>
    sched_wakeup_on (P_wait q) (if p_cwd cp \<noteq> NULL then s1\<lparr>ext := vput ops (p_cwd cp) (ext s1)\<rparr> else s1) = Some (t, s2) \<and>
    woken (P_wait q) s s2 \<and> same_procs s1 s2 \<and> proc_list s2 = proc_list s \<and> next_pid s2 = next_pid s \<and> curthr s2 = curthr s \<and> sched_inv s2"
proof -
  define s1 where "s1 = s\<lparr>procs := (procs s)(curproc s \<mapsto> cp\<lparr>p_status := status, p_state := PROC_DEAD\<rparr>)\<rparr>"
  define s1' where "s1' = (if p_cwd cp \<noteq> NULL then s1\<lparr>ext := vput ops (p_cwd cp) (ext s1)\<rparr> else s1)"
  have e: "threads s1' = threads s" "queues s1' = queues s" "curthr s1' = curthr s" by (simp_all add: s1'_def s1_def)
  obtain t s2 where s2: "sched_wakeup_on (P_wait q) s1' = Some (t, s2)" "woken (P_wait q) s1' s2" "same_procs s1' s2" "curthr s2 = curthr s1'" "sched_inv s2"
    using wakeup_woken [of s1' "P_wait q"] sched_inv_cong [OF e] i by auto
  moreover have "same_procs s1 s2" "proc_list s2 = proc_list s" "next_pid s2 = next_pid s"
    using s2(3) by (simp_all add: same_procs_def s1'_def s1_def)
  moreover have "woken (P_wait q) s s2" using s2(2) woken_cong(1) [OF e(1,2)] by simp
  moreover have "upd_proc (curproc s) (\<lambda>p. p\<lparr>p_status := status, p_state := PROC_DEAD\<rparr>) s = Some s1" using c by (simp add: s1_def)
  ultimately show ?thesis using e(3) by (intro exI [of _ s1] exI [of _ t] exI [of _ s2]) (simp add: s1'_def, simp add: s1_def)
qed

lemma cleanup_eq:
  assumes i: "sched_inv s" and w: "wf_tree (PID_IDLE ops) (tree s) L"
    and c: "procs s (curproc s) = Some cp" "1 \<le> p_pid cp" "p_pid cp \<noteq> PID_INIT ops" "p_pid cp \<noteq> PID_IDLE ops" "length (p_files cp) = NFILES ops"
    and n: "procs s (proc_initproc s) = Some ip" "p_pid ip = PID_INIT ops"
  shows "\<exists>s'. proc_cleanup ops status s = Some s' \<and> sched_inv s' \<and> curthr s' = curthr s \<and> curproc s' = curproc s \<and>
    proc_list s' = proc_list s \<and> next_pid s' = next_pid s \<and> proc_initproc s' = proc_initproc s \<and>
    tree s' = adopt (curproc s) (proc_initproc s) (tree s) \<and> woken (P_wait (p_pproc cp)) s s' \<and>
    (\<forall>x. map_option details (procs s' x) = (if x = curproc s then Some (PROC_DEAD, status, p_threads cp, p_pagedir cp, replicate (NFILES ops) NULL)
      else map_option details (procs s x)))"
proof -
  let ?cur = "curproc s" let ?init = "proc_initproc s"
  have cn: "?cur \<noteq> ?init" using c(1,3) n by auto
  obtain pn where pn: "procs s (p_pproc cp) = Some pn" using wf_treeD(7) [OF w tree_eq(1) [OF c(1)]] c(4) by (auto simp: tree_def)
  have nn: "?init \<noteq> NULL" "p_pproc cp \<noteq> NULL" using wf_treeD(1) [OF w] n(1) pn by (metis option.simps(3) tree_eq(1))+
  define cp0 where "cp0 = cp\<lparr>p_status := status, p_state := PROC_DEAD\<rparr>"
  obtain s1 t s2 where u: "upd_proc ?cur (\<lambda>p. p\<lparr>p_status := status, p_state := PROC_DEAD\<rparr>) s = Some s1"
    and e1: "procs s1 = (procs s)(?cur \<mapsto> cp0)" "curproc s1 = ?cur" "proc_initproc s1 = ?init"
    and wk: "sched_wakeup_on (P_wait (p_pproc cp)) (if p_cwd cp \<noteq> NULL then s1\<lparr>ext := vput ops (p_cwd cp) (ext s1)\<rparr> else s1) = Some (t, s2)"
    and s2: "woken (P_wait (p_pproc cp)) s s2" "same_procs s1 s2" "proc_list s2 = proc_list s" "next_pid s2 = next_pid s" "curthr s2 = curthr s" "sched_inv s2"
    using cleanup_wakes [OF i c(1)] unfolding cp0_def by blast
  have e2: "procs s2 = (procs s)(?cur \<mapsto> cp0)" "curproc s2 = ?cur" "proc_initproc s2 = ?init" using s2(2) e1 by (simp_all add: same_procs_def)
  have t2: "tree s2 = tree s" using c(1) by (auto simp: tree_def e2(1) cp0_def node_of_def fun_eq_iff)
  have p2: "procs s2 (curproc s2) = Some cp0" "procs s2 (proc_initproc s2) = Some ip" "curproc s2 \<noteq> proc_initproc s2" using e2 n(1) cn by simp_all
  obtain s3 where s3: "(if p_children cp0 \<noteq> [] then reparent (p_children cp0) s2 else Some s2) = Some s3"
    "tree s3 = adopt ?cur ?init (tree s)" "\<forall>x. map_option details (procs s3 x) = map_option details (procs s2 x)" "s3 = s2\<lparr>procs := procs s3\<rparr>"
    using reparent_step [OF p2, of "PID_IDLE ops" L] w t2 e2(2,3) by auto
  have e3: "threads s3 = threads s2" "queues s3 = queues s2" "curthr s3 = curthr s2" "curproc s3 = ?cur" "proc_list s3 = proc_list s2"
    "next_pid s3 = next_pid s2" "proc_initproc s3 = ?init"
    by (subst s3(4), simp add: e2)+
  obtain cp3 where cp3: "procs s3 (curproc s3) = Some cp3" "details cp3 = details cp0" using s3(3) e2(1) e3(4) by (metis fun_upd_same map_option_eq_Some)
  have "node_of cp3 = the (adopt ?cur ?init (tree s) ?cur)" using tree_eq(1) [OF cp3(1)] s3(2) e3(4) by simp
  then have pp3: "p_pproc cp3 \<noteq> NULL" using nn tree_eq(1) [OF c(1)] by (auto simp: adopt_def node_of_def split: if_splits)
  have l3: "length (p_files cp3) = NFILES ops" using cp3(2) c(5) by (simp add: details_def cp0_def)
  obtain s' where s': "do { s \<leftarrow> close_files ops [0..<NFILES ops] s3; p \<leftarrow> procs s (curproc s);
      Some (if p_vmmap p \<noteq> NULL then s\<lparr>ext := vmmap_destroy ops (p_vmmap p) (ext s)\<rparr> else s) } = Some s'"
    and e': "threads s' = threads s3" "queues s' = queues s3" "curthr s' = curthr s3" "curproc s' = curproc s3" "proc_list s' = proc_list s3"
    "next_pid s' = next_pid s3" "proc_initproc s' = proc_initproc s3" "tree s' = tree s3"
    and p': "\<forall>x. procs s' x = (if x = curproc s3 then Some (cp3\<lparr>p_files := replicate (NFILES ops) NULL\<rparr>) else procs s3 x)"
    using close_and_unmap [OF cp3(1) l3] by blast
  have "map_option details (procs s' x) = (if x = ?cur then Some (PROC_DEAD, status, p_threads cp, p_pagedir cp, replicate (NFILES ops) NULL)
      else map_option details (procs s x))" for x
    using p' [rule_format, of x] s3(3) [rule_format, of x] cp3(2) e2(1) e3(4) by (auto simp: details_def cp0_def)
  moreover have "proc_cleanup ops status s = Some s'"
  proof -
    have "procs s1 (curproc s1) = Some cp0" "procs s1 (p_pproc cp) \<noteq> None" using e1 pn by simp_all
    then show ?thesis using u e1 wk s3(1) cp3(1) pp3 nn c(2,3) s' by (auto simp: proc_cleanup_def cp0_def)
  qed
  moreover have "sched_inv s'" using sched_inv_cong [of s' s2] e' e3 s2(6) by simp
  moreover have "woken (P_wait (p_pproc cp)) s s'" using s2(1) woken_cong(2) [of s' s2] e' e3 by simp
  ultimately show ?thesis using e' e3 s2(3-5) s3(2) by (intro exI [of _ s']) simp
qed

section \<open>Wait: what is left of a dead child\<close>

definition gone :: "'x kernel \<Rightarrow> addr \<Rightarrow> addr \<Rightarrow> bool" where
  "gone s c t \<longleftrightarrow> (\<exists>th. threads s t = Some th \<and> kt_state th = KT_EXITED \<and> kt_kstack th \<noteq> NULL \<and> kt_proc th = c \<and> t \<noteq> curthr s)"

lemma destroy_threads_eq:
  assumes "sched_inv s" "procs s c = Some cr" "distinct (p_threads cr)" "distinct ts" "\<forall>t \<in> set ts. gone s c t"
  shows "\<exists>s' l. destroy_threads ops ts s = Some s' \<and> sched_inv s' \<and> threads s' = threads s |` (- set ts) \<and>
    procs s' = (procs s)(c \<mapsto> cr\<lparr>p_threads := l\<rparr>) \<and> queues s' = queues s \<and> curthr s' = curthr s \<and> curproc s' = curproc s \<and>
    proc_list s' = proc_list s \<and> proc_initproc s' = proc_initproc s \<and> next_pid s' = next_pid s"
  using assms
proof (induction ts arbitrary: s cr)
  case Nil
  then show ?case by (intro exI [of _ s] exI [of _ "p_threads cr"]) (auto simp: restrict_map_def)
next
  case (Cons t ts)
  obtain th where th: "threads s t = Some th" "kt_state th = KT_EXITED" "kt_kstack th \<noteq> NULL" "kt_proc th = c" "t \<noteq> curthr s"
    using Cons.prems(5) by (auto simp: gone_def)
  have w: "wf_queues s" using Cons.prems(1) by (simp add: sched_inv_def)
  have t0: "t \<noteq> NULL" using wf_queuesD(1) [OF w] th(1) by (intro notI) simp
  have wc: "kt_wchan th = None" using wf_queuesD(5) [OF w th(1)] th(2) by (cases "kt_wchan th") (auto simp: thr_ok_def wait_state_def split: if_splits)
  obtain s1 where s1: "kthread_destroy ops t s = Some s1" "threads s1 = (threads s)(t := None)"
    "procs s1 = (procs s)(c \<mapsto> cr\<lparr>p_threads := remove1 t (p_threads cr)\<rparr>)" "queues s1 = queues s" "curthr s1 = curthr s" "curproc s1 = curproc s"
    "proc_list s1 = proc_list s" "proc_initproc s1 = proc_initproc s" "next_pid s1 = next_pid s"
    using destroy_eq [OF th(1) t0 th(3), of cr ops] Cons.prems(2,3) th(4) by auto
  have i1: "sched_inv s1" by (rule thread_removed [OF Cons.prems(1) s1(2) th(1) wc th(5) s1(4,5)])
  have g: "\<forall>t' \<in> set ts. gone s1 c t'" using Cons.prems(4,5) by (auto simp: gone_def s1(2,5))
  have pc: "procs s1 c = Some (cr\<lparr>p_threads := remove1 t (p_threads cr)\<rparr>)" "distinct (p_threads (cr\<lparr>p_threads := remove1 t (p_threads cr)\<rparr>))"
    "distinct ts" using Cons.prems(3,4) by (simp_all add: s1(3))
  obtain s' l where s': "destroy_threads ops ts s1 = Some s'" "sched_inv s'" "threads s' = threads s1 |` (- set ts)"
    "procs s' = (procs s1)(c \<mapsto> cr\<lparr>p_threads := remove1 t (p_threads cr)\<rparr>\<lparr>p_threads := l\<rparr>)" "queues s' = queues s1" "curthr s' = curthr s1"
    "curproc s' = curproc s1" "proc_list s' = proc_list s1" "proc_initproc s' = proc_initproc s1" "next_pid s' = next_pid s1"
    using Cons.IH [OF i1 pc g] by blast
  have "threads s' = threads s |` (- set (t # ts))" by (auto simp: s'(3) s1(2) restrict_map_def fun_eq_iff)
  moreover have "destroy_threads ops (t # ts) s = Some s'" using th(1,2) s1(1) s'(1) by simp
  moreover have "procs s' = (procs s)(c \<mapsto> cr\<lparr>p_threads := l\<rparr>)" by (simp add: s'(4) s1(3))
  ultimately show ?case using s'(2,5-10) s1(4-9) by (intro exI [of _ s'] exI [of _ l]) (simp del: fun_upd_apply destroy_threads.simps)
qed

lemma reap_eq:
  assumes i: "sched_inv s" and w: "wf_tree (PID_IDLE ops) (tree s) (proc_list s)"
    and cp: "procs s (curproc s) = Some cp" and c: "procs s c = Some cr" "c \<noteq> curproc s" "p_pagedir cr \<noteq> NULL" "distinct (p_threads cr)"
    and g: "\<forall>t \<in> set (p_threads cr). gone s c t" and pid: "pid = - 1 \<or> pid = p_pid cr"
  shows "\<exists>s'. reap ops pid want c s = Some (Reaped (p_pid cr) (if want then Some (p_status cr) else None) s') \<and> sched_inv s' \<and>
    tree s' = drop_child (curproc s) c (tree s) \<and> proc_list s' = remove1 c (proc_list s) \<and> next_pid s' = next_pid s \<and>
    threads s' = threads s |` (- set (p_threads cr)) \<and> queues s' = queues s \<and> curthr s' = curthr s \<and> curproc s' = curproc s \<and>
    proc_initproc s' = proc_initproc s"
proof -
  obtain s1 l where s1: "destroy_threads ops (p_threads cr) s = Some s1" "sched_inv s1" "threads s1 = threads s |` (- set (p_threads cr))"
    "procs s1 = (procs s)(c \<mapsto> cr\<lparr>p_threads := l\<rparr>)" "queues s1 = queues s" "curthr s1 = curthr s" "curproc s1 = curproc s"
    "proc_list s1 = proc_list s" "proc_initproc s1 = proc_initproc s" "next_pid s1 = next_pid s"
    using destroy_threads_eq [OF i c(1,4,4) g] by blast
  define s2 where "s2 = s1\<lparr>procs := (procs s1)(curproc s1 \<mapsto> cp\<lparr>p_children := remove1 c (p_children cp)\<rparr>)\<rparr>"
  have u: "upd_proc (curproc s1) (\<lambda>p. p\<lparr>p_children := remove1 c (p_children p)\<rparr>) s1 = Some s2"
    using cp c(2) by (simp add: s2_def s1(4,7))
  define s' where "s' = s2\<lparr>proc_list := remove1 c (proc_list s2), procs := (procs s2)(c := None),
    ext := slab_proc_free ops c (pt_destroy_pagedir ops (p_pagedir cr) (ext s2))\<rparr>"
  have "reap ops pid want c s = Some (Reaped (p_pid cr) (if want then Some (p_status cr) else None) s')"
    using c s1(1,4) u pid by (auto simp: reap_def s'_def)
  moreover have "tree s' = drop_child (curproc s) c (tree s)"
    using cp c by (auto simp: tree_def drop_child_def s'_def s2_def s1(4,7) fun_eq_iff node_of_def)
  moreover have "sched_inv s'" using s1(2) sched_inv_cong [of s' s1] by (simp add: s'_def s2_def)
  ultimately show ?thesis using s1 by (intro exI [of _ s']) (simp add: s'_def s2_def)
qed

section \<open>Creation\<close>

definition fresh_proc :: "'x kops \<Rightarrow> 'x kernel \<Rightarrow> bool" where
  "fresh_proc ops s \<longleftrightarrow> procs s (fst (slab_proc ops (ext s))) = None \<and> fst (slab_proc ops (ext s)) \<noteq> NULL"

lemma create_proc_eq:
  assumes f: "fresh_proc ops s" and cp: "procs s (curproc s) = Some cp" "curproc s \<noteq> NULL" and id: "PID_IDLE ops \<in> set (pids s)"
    and init: "p_pid cp = PID_IDLE ops \<or> PID_INIT ops \<in> set (pids s)" and vm: "\<And>x. fst (vmmap_create ops x) \<noteq> NULL"
    and np: "0 \<le> next_pid s" "next_pid s < PROC_MAX_COUNT ops" "\<not> {0..<PROC_MAX_COUNT ops} \<subseteq> set (pids s)"
  shows "\<exists>p s' pid. proc_create ops name s = Some (p, s') \<and> procs s p = None \<and> p \<noteq> NULL \<and> 0 \<le> pid \<and> pid < PROC_MAX_COUNT ops \<and> pid \<notin> set (pids s) \<and>
    tree s' = add_child (curproc s) p pid (tree s) \<and> proc_list s' = proc_list s @ [p] \<and> next_pid s' = (pid + 1) mod PROC_MAX_COUNT ops \<and>
    threads s' = threads s \<and> curproc s' = curproc s \<and>
    map_option (\<lambda>pr. (p_state pr, p_threads pr, p_cwd pr, p_files pr)) (procs s' p) = Some (PROC_RUNNING, [], p_cwd cp, replicate (NFILES ops) NULL)"
proof -
  obtain p g x where sl: "slab_proc ops (ext s) = (p, g, x)" by (cases "slab_proc ops (ext s)")
  have p: "procs s p = None" "p \<noteq> NULL" using f sl by (simp_all add: fresh_proc_def)
  have pne: "proc_list s \<noteq> []" using id by (auto simp: pids_def)
  have same: "pids (s\<lparr>ext := x\<rparr>) = pids s" "next_pid (s\<lparr>ext := x\<rparr>) = next_pid s" by (simp_all add: pids_def)
  obtain pid where pid: "proc_getid ops (s\<lparr>ext := x\<rparr>) = Some (pid, s\<lparr>ext := x, next_pid := (pid + 1) mod PROC_MAX_COUNT ops\<rparr>)"
    "0 \<le> pid" "pid < PROC_MAX_COUNT ops" "pid \<notin> set (pids s)"
    using getid_ok [of "s\<lparr>ext := x\<rparr>" ops] np same by auto
  define i where "i = (if pid = PID_INIT ops then p else proc_initproc s)"
  obtain pd x1 where pd: "pt_create_pagedir ops x = (pd, x1)" by (cases "pt_create_pagedir ops x")
  define x2 where "x2 = (if p_cwd cp \<noteq> NULL then vref ops (p_cwd cp) x1 else x1)"
  obtain v x3 where v: "vmmap_create ops x2 = (v, x3)" "v \<noteq> NULL" using vm [of x2] by (cases "vmmap_create ops x2") auto
  have pi: "pid \<noteq> PID_IDLE ops" "pid = PID_INIT ops \<longrightarrow> p_pid cp = PID_IDLE ops" using pid(4) id init by auto
  obtain s' where s': "proc_create ops name s = Some (p, s')" "proc_list s' = proc_list s @ [p]" "next_pid s' = (pid + 1) mod PROC_MAX_COUNT ops"
    "threads s' = threads s" "curproc s' = curproc s"
    "procs s' = (procs s)(curproc s \<mapsto> cp\<lparr>p_children := p_children cp @ [p]\<rparr>,
       p \<mapsto> g\<lparr>p_pid := pid, p_comm := take (PROC_NAME_LEN ops) name, p_threads := [], p_children := [], p_pproc := curproc s, p_status := 0,
         p_state := PROC_RUNNING, p_pagedir := pd, p_files := replicate (NFILES ops) NULL, p_cwd := p_cwd cp, p_brk := NULL, p_start_brk := NULL, p_vmmap := v\<rparr>)"
    using sl p(2) pid(1) pi pne cp pd v by (cases "pid = PID_INIT ops"; cases "p_cwd cp = NULL")
      (auto simp: proc_create_def sched_queue_init_def x2_def)
  have "tree s' = add_child (curproc s) p pid (tree s)"
    using cp(1) p(1) by (auto simp: tree_def add_child_def s'(6) fun_eq_iff node_of_def)
  then show ?thesis using s' p pid(2-4) by (intro exI [of _ p] exI [of _ s'] exI [of _ pid]) simp
qed

section \<open>Looking up\<close>

lemma lookup_in_found:
  assumes "p \<in> set l" "ps p = Some pr" "\<forall>q \<in> set l. \<exists>qr. ps q = Some qr \<and> (p_pid qr = p_pid pr \<longrightarrow> q = p)"
  shows "proc_lookup_in ps l (p_pid pr) = Some p"
  using assms
proof (induction l)
  case (Cons q l)
  show ?case
  proof (cases "q = p")
    case False
    obtain qr where qr: "ps q = Some qr" "p_pid qr \<noteq> p_pid pr" using Cons.prems(3) False by auto
    have "proc_lookup_in ps l (p_pid pr) = Some p" by (rule Cons.IH) (use Cons.prems False in simp_all)
    then show ?thesis using qr by simp
  qed (use Cons.prems(2) in simp)
qed simp

lemma lookup_in_none:
  assumes "\<forall>q \<in> set l. \<exists>qr. ps q = Some qr \<and> p_pid qr \<noteq> pid"
  shows "proc_lookup_in ps l pid = Some NULL"
  using assms by (induction l) auto

lemma lookup_spec:
  assumes w: "wf_tree idle (tree s) (proc_list s)"
  shows "(procs s p = Some pr \<longrightarrow> proc_lookup (p_pid pr) s = Some p) \<and> (pid \<notin> set (pids s) \<longrightarrow> proc_lookup pid s = Some NULL)"
proof -
  have d: "set (proc_list s) = dom (procs s)" using wf_treeD(3) [OF w] by (auto simp: tree_def dom_def)
  have "proc_lookup (p_pid pr) s = Some p" if "procs s p = Some pr"
    unfolding proc_lookup_def
  proof (rule lookup_in_found [of p "proc_list s" "procs s" pr])
    show "procs s p = Some pr" by (rule that)
    show "p \<in> set (proc_list s)" using d that by auto
    show "\<forall>q \<in> set (proc_list s). \<exists>qr. procs s q = Some qr \<and> (p_pid qr = p_pid pr \<longrightarrow> q = p)"
    proof
      fix q assume "q \<in> set (proc_list s)"
      then obtain qr where qr: "procs s q = Some qr" using d by auto
      have "q = p" if "p_pid qr = p_pid pr"
        using wf_treeD(4) [OF w tree_eq(1) [OF qr] tree_eq(1) [OF \<open>procs s p = Some pr\<close>]] that by simp
      then show "\<exists>qr. procs s q = Some qr \<and> (p_pid qr = p_pid pr \<longrightarrow> q = p)" using qr by blast
    qed
  qed
  moreover have "proc_lookup pid s = Some NULL" if "pid \<notin> set (pids s)"
    unfolding proc_lookup_def
  proof (rule lookup_in_none, rule ballI)
    fix q assume q: "q \<in> set (proc_list s)"
    then obtain qr where qr: "procs s q = Some qr" using d by auto
    have "p_pid qr \<in> set (pids s)" using q qr by (force simp: pids_def)
    then show "\<exists>qr. procs s q = Some qr \<and> p_pid qr \<noteq> pid" using qr that by auto
  qed
  ultimately show ?thesis by blast
qed

section \<open>Properties\<close>

text \<open>
  A process identifier: the search always ends; it gives an identifier in range that no
  process has, and \<open>-1\<close> exactly when all \<open>PROC_MAX_COUNT\<close> identifiers are taken.
\<close>

theorem getid_unused:
  assumes "0 \<le> next_pid s" "next_pid s < PROC_MAX_COUNT ops"
  shows "\<exists>pid s'. proc_getid ops s = Some (pid, s') \<and> procs s' = procs s \<and> 0 \<le> next_pid s' \<and> next_pid s' < PROC_MAX_COUNT ops \<and>
    (if {0..<PROC_MAX_COUNT ops} \<subseteq> set (pids s) then pid = - 1 else 0 \<le> pid \<and> pid < PROC_MAX_COUNT ops \<and> pid \<notin> set (pids s))"
  using getid_ok [OF assms] assms by (cases "{0..<PROC_MAX_COUNT ops} \<subseteq> set (pids s)") auto

text \<open>
  C22.  A new process is a running child of the current one, last among its children, with no
  thread, no open file and the working directory of its parent; the tree of processes is as before
  otherwise and stays well formed, and looking up the new identifier finds the new process.
\<close>

theorem create_extends_tree:
  assumes w: "proc_inv ops s" and f: "fresh_proc ops s" and cp: "procs s (curproc s) = Some cp" and id: "PID_IDLE ops \<in> set (pids s)"
    and init: "p_pid cp = PID_IDLE ops \<or> PID_INIT ops \<in> set (pids s)" and vm: "\<forall>x. fst (vmmap_create ops x) \<noteq> NULL"
    and full: "\<not> {0..<PROC_MAX_COUNT ops} \<subseteq> set (pids s)"
  shows "\<exists>p s' pid. proc_create ops name s = Some (p, s') \<and> proc_inv ops s' \<and> tree s' = add_child (curproc s) p pid (tree s) \<and>
    proc_lookup pid s = Some NULL \<and> proc_lookup pid s' = Some p \<and>
    map_option (\<lambda>pr. (p_state pr, p_threads pr, p_cwd pr, p_files pr)) (procs s' p) = Some (PROC_RUNNING, [], p_cwd cp, replicate (NFILES ops) NULL)"
proof -
  have t: "wf_tree (PID_IDLE ops) (tree s) (proc_list s)" and np: "0 \<le> next_pid s" "next_pid s < PROC_MAX_COUNT ops"
    using w by (auto simp: proc_inv_def)
  have c0: "curproc s \<noteq> NULL" using wf_treeD(1) [OF t] cp by (metis option.simps(3) tree_eq(1))
  obtain p s' pid where e: "proc_create ops name s = Some (p, s')" "procs s p = None" "p \<noteq> NULL" "0 \<le> pid" "pid < PROC_MAX_COUNT ops"
    "pid \<notin> set (pids s)" "tree s' = add_child (curproc s) p pid (tree s)" "proc_list s' = proc_list s @ [p]" "next_pid s' = (pid + 1) mod PROC_MAX_COUNT ops"
    "map_option (\<lambda>pr. (p_state pr, p_threads pr, p_cwd pr, p_files pr)) (procs s' p) = Some (PROC_RUNNING, [], p_cwd cp, replicate (NFILES ops) NULL)"
    using create_proc_eq [OF f cp c0 id init _ np full] vm by blast
  have "set (proc_list s) = dom (procs s)" using wf_treeD(3) [OF t] by (auto simp: tree_def dom_def)
  then have fr: "p_pid pr \<noteq> pid" if "procs s q = Some pr" for q pr using pids_set [of s] e(6) that by (auto simp: ran_def)
  have t': "wf_tree (PID_IDLE ops) (tree s') (proc_list s')"
    unfolding e(7,8)
  proof (rule add_child_wf [OF t tree_eq(1) [OF cp] tree_eq(2) [OF e(2)] e(3)])
    show "n_pid m \<noteq> pid" if "tree s x = Some m" for x m using that fr [of x] by (auto simp: tree_def)
  qed
  obtain pr where pr: "procs s' p = Some pr" using e(10) by auto
  have "p_pid pr = pid" using tree_eq(1) [OF pr] e(7) by (auto simp: add_child_def node_of_def)
  then have "proc_lookup pid s' = Some p" using lookup_spec [OF t', of p pr] pr by auto
  moreover have "proc_lookup pid s = Some NULL" using lookup_spec [OF t] e(6) by auto
  moreover have "proc_inv ops s'" using t' np by (simp add: proc_inv_def e(9))
  ultimately show ?thesis using e(1,7,10) by blast
qed

end
