(* ===== verification/Wait.thy ===== *)
theory Wait
  imports Proc
begin

text \<open>
  How the end of a process and the wait of its parent fit together: \<open>do_exit\<close> and \<open>do_waitpid\<close>.
\<close>

section \<open>Which child\<close>

lemma first_dead_Some:
  assumes "first_dead ps cs = Some (Some c)"
  shows "\<exists>cr. c \<in> set cs \<and> ps c = Some cr \<and> p_state cr = PROC_DEAD"
  using assms by (induction cs) (auto split: bind_splits if_splits)

lemma first_dead_total:
  assumes "\<forall>c \<in> set cs. ps c \<noteq> None"
  shows "\<exists>d. first_dead ps cs = Some d \<and> (d = None \<longrightarrow> (\<forall>c \<in> set cs. \<forall>cr. ps c = Some cr \<longrightarrow> p_state cr \<noteq> PROC_DEAD))"
  using assms
proof (induction cs)
  case (Cons c cs)
  obtain cr where "ps c = Some cr" using Cons.prems by auto
  then show ?case using Cons by (cases "p_state cr = PROC_DEAD") auto
qed simp

lemma lookup_in_Some:
  assumes "proc_lookup_in ps cs pid = Some c" "c \<noteq> NULL"
  shows "\<exists>cr. c \<in> set cs \<and> ps c = Some cr \<and> p_pid cr = pid"
  using assms by (induction cs) (auto split: bind_splits if_splits)

text \<open>A parent finds its children, and under each identifier at most one.\<close>

lemma lookup_child:
  assumes w: "wf_tree idle (tree s) L" and cp: "procs s q = Some cp" and c: "c \<in> set (p_children cp)" "procs s c = Some cr"
  shows "proc_lookup_in (procs s) (p_children cp) (p_pid cr) = Some c"
proof (rule lookup_in_found [of c "p_children cp" "procs s" cr])
  show "c \<in> set (p_children cp)" "procs s c = Some cr" by (rule c)+
  show "\<forall>d \<in> set (p_children cp). \<exists>dr. procs s d = Some dr \<and> (p_pid dr = p_pid cr \<longrightarrow> d = c)"
  proof
    fix d assume d: "d \<in> set (p_children cp)"
    obtain dr where dr: "procs s d = Some dr" using wf_treeD(6) [OF w tree_eq(1) [OF cp], of d] d by (auto simp: tree_def)
    have "d = c" if "p_pid dr = p_pid cr" using wf_treeD(4) [OF w tree_eq(1) [OF dr] tree_eq(1) [OF c(2)]] that by simp
    then show "\<exists>dr. procs s d = Some dr \<and> (p_pid dr = p_pid cr \<longrightarrow> d = c)" using dr by blast
  qed
qed

section \<open>Reaping\<close>

text \<open>A dead child as its parent finds it: it has no children and its threads have exited.\<close>

definition zombie :: "'x kernel \<Rightarrow> addr \<Rightarrow> proc \<Rightarrow> bool" where
  "zombie s c cr \<longleftrightarrow> procs s c = Some cr \<and> p_state cr = PROC_DEAD \<and> p_children cr = [] \<and> p_pagedir cr \<noteq> NULL \<and>
     distinct (p_threads cr) \<and> (\<forall>t \<in> set (p_threads cr). gone s c t)"

lemma drop_child_Some: "drop_child cur c T x = Some m \<Longrightarrow> x \<noteq> c \<and> (\<exists>n. T x = Some n \<and> n_pid n = n_pid m)"
  by (auto simp: drop_child_def split: if_splits)

lemma reap_zombie:
  assumes i: "sched_inv s" and w: "proc_inv ops s" and cp: "procs s (curproc s) = Some cp" "p_state cp = PROC_RUNNING"
    and c: "zombie s c cr" "c \<in> set (p_children cp)" and pid: "pid = - 1 \<or> pid = p_pid cr"
  shows "\<exists>s'. reap ops pid want c s = Some (Reaped (p_pid cr) (if want then Some (p_status cr) else None) s') \<and> sched_inv s' \<and> proc_inv ops s' \<and>
    tree s' = drop_child (curproc s) c (tree s) \<and> threads s' = threads s |` (- set (p_threads cr)) \<and> proc_lookup (p_pid cr) s' = Some NULL"
proof -
  have t: "wf_tree (PID_IDLE ops) (tree s) (proc_list s)" using w by (simp add: proc_inv_def)
  have z: "procs s c = Some cr" "p_state cr = PROC_DEAD" "p_children cr = []" "p_pagedir cr \<noteq> NULL" "distinct (p_threads cr)"
    "\<forall>t \<in> set (p_threads cr). gone s c t" using c(1) by (auto simp: zombie_def)
  have ne: "c \<noteq> curproc s" using z(1,2) cp by auto
  obtain s' where s': "reap ops pid want c s = Some (Reaped (p_pid cr) (if want then Some (p_status cr) else None) s')" "sched_inv s'"
    "tree s' = drop_child (curproc s) c (tree s)" "proc_list s' = remove1 c (proc_list s)" "next_pid s' = next_pid s"
    "threads s' = threads s |` (- set (p_threads cr))"
    using reap_eq [OF i t cp(1) z(1) ne z(4,5,6) pid] by blast
  have par: "p_pproc cr = curproc s" using wf_treeD(6) [OF t tree_eq(1) [OF cp(1)], of c] c(2) tree_eq(1) [OF z(1)] by auto
  have t': "wf_tree (PID_IDLE ops) (tree s') (proc_list s')"
    unfolding s'(3,4) by (rule drop_child_wf [OF t tree_eq(1) [OF z(1)]]) (use z(3) ne par in simp_all)
  have "p_pid cr \<notin> set (pids s')"
  proof
    assume "p_pid cr \<in> set (pids s')"
    moreover have "set (proc_list s') = dom (procs s')" using wf_treeD(3) [OF t'] by (auto simp: tree_def dom_def)
    ultimately obtain q qr where q: "procs s' q = Some qr" "p_pid qr = p_pid cr" using pids_set [of s'] by (auto simp: ran_def)
    then obtain m where m: "tree s q = Some m" "n_pid m = p_pid cr" "q \<noteq> c"
      using drop_child_Some [of "curproc s" c "tree s" q "node_of qr"] tree_eq(1) [OF q(1)] s'(3) by auto
    then show False using wf_treeD(4) [OF t m(1) tree_eq(1) [OF z(1)]] by simp
  qed
  then have "proc_lookup (p_pid cr) s' = Some NULL" using lookup_spec [OF t'] by blast
  then show ?thesis using s' t' w by (auto simp: proc_inv_def)
qed

section \<open>Exit\<close>

lemma exit_one_thread:
  assumes "procs s (curproc s) = Some cr" "p_threads cr = [curthr s]" "threads s (curthr s) = Some th" "kt_wchan th = None" "\<not> kt_qlinked th"
    "kt_proc th = curproc s" "curthr s \<noteq> NULL"
  shows "do_exit intr ops status s = do {
    s \<leftarrow> proc_cleanup ops status (s\<lparr>threads := (threads s)(curthr s \<mapsto> th\<lparr>kt_retval := status, kt_state := KT_EXITED\<rparr>)\<rparr>);
    sched_switch intr s }"
  using assms by (auto simp: do_exit_def kthread_cancel_def kthread_exit_def proc_thread_exited_def bind_map_option split: bind_splits option.splits)


lemma exit_gives_zombie:
  assumes i: "sched_inv s" and w: "proc_inv ops s"
    and c: "procs s (curproc s) = Some cr" "1 \<le> p_pid cr" "p_pid cr \<noteq> PID_INIT ops" "p_pid cr \<noteq> PID_IDLE ops"
      "length (p_files cr) = NFILES ops" "p_threads cr = [curthr s]" "p_pagedir cr \<noteq> NULL"
    and th: "threads s (curthr s) = Some th" "kt_proc th = curproc s" "kt_kstack th \<noteq> NULL"
    and n: "procs s (proc_initproc s) = Some ip" "p_pid ip = PID_INIT ops"
    and q: "tq_list (queues s (P_wait (p_pproc cr))) = [tp]" "threads s tp = Some thp" "tq_list (queues s Kt_runq) = []" and ok: "intr_ok intr"
  shows "\<exists>s' cr'. do_exit intr ops status s = Some s' \<and> sched_inv s' \<and> proc_inv ops s' \<and> curthr s' = tp \<and> curproc s' = kt_proc thp \<and>
    tree s' = adopt (curproc s) (proc_initproc s) (tree s) \<and> zombie s' (curproc s) cr' \<and> p_status cr' = status \<and> p_threads cr' = [curthr s] \<and>
    (\<forall>x. x \<noteq> curproc s \<longrightarrow> map_option p_state (procs s' x) = map_option p_state (procs s x)) \<and> proc_initproc s' = proc_initproc s"
proof -
  let ?t = "curthr s" let ?c = "curproc s"
  have wq: "wf_queues s" and wc: "kt_wchan th = None" using i th(1) by (auto simp: sched_inv_def cur_free_def)
  have ql: "\<not> kt_qlinked th" using wf_queuesD(5) [OF wq th(1)] wc by (simp add: thr_ok_def)
  have t0: "?t \<noteq> NULL" using wf_queuesD(1) [OF wq] th(1) by (intro notI) simp
  have tq: "kt_wchan thp = Some (P_wait (p_pproc cr))" using wf_queuesD(4) [OF wq, of tp "P_wait (p_pproc cr)"] q(1,2) by simp
  have tt: "tp \<noteq> ?t" using tq wc q(2) th(1) by auto
  define s0 where "s0 = s\<lparr>threads := (threads s)(?t \<mapsto> th\<lparr>kt_retval := status, kt_state := KT_EXITED\<rparr>)\<rparr>"
  have e0: "procs s0 = procs s" "queues s0 = queues s" "curthr s0 = ?t" "curproc s0 = ?c" "proc_initproc s0 = proc_initproc s" "proc_list s0 = proc_list s"
    "next_pid s0 = next_pid s" "threads s0 = (threads s)(?t \<mapsto> th\<lparr>kt_retval := status, kt_state := KT_EXITED\<rparr>)" by (simp_all add: s0_def)
  have "thr_ok (th\<lparr>kt_retval := status, kt_state := KT_EXITED\<rparr>)" using wc ql by (simp add: thr_ok_def)
  then have "wf_queues s0" unfolding s0_def by (intro wf_queues_thr [OF wq th(1)]) (use wc in auto)
  then have i0: "sched_inv s0" using i wc by (auto simp: sched_inv_def no_lost_def cur_free_def parked_def e0(3,8))
  have t0': "tree s0 = tree s" by (simp add: tree_def e0(1))
  have tr: "wf_tree (PID_IDLE ops) (tree s0) (proc_list s)" using w t0' by (simp add: proc_inv_def)
  obtain s1 where s1: "proc_cleanup ops status s0 = Some s1" "sched_inv s1" "curthr s1 = ?t" "curproc s1 = ?c" "proc_list s1 = proc_list s"
    "next_pid s1 = next_pid s" "proc_initproc s1 = proc_initproc s" "tree s1 = adopt ?c (proc_initproc s) (tree s)" "woken (P_wait (p_pproc cr)) s0 s1"
    "\<forall>x. map_option details (procs s1 x) = (if x = ?c then Some (PROC_DEAD, status, p_threads cr, p_pagedir cr, replicate (NFILES ops) NULL)
      else map_option details (procs s x))"
    using cleanup_eq [OF i0 tr, of cr ip status] c n e0 t0' by auto
  have r1: "tq_list (queues s1 Kt_runq) = [] @ [tp]" and t1: "threads s1 ?t = Some (th\<lparr>kt_retval := status, kt_state := KT_EXITED\<rparr>)"
    and tp1: "map_option kt_proc (threads s1 tp) = Some (kt_proc thp)"
    using s1(9) q tt by (auto simp: woken_def e0 Let_def)
  have w1: "wf_queues s1" "threads s1 (curthr s1) \<noteq> None" using s1(2,3) t1 by (auto simp: sched_inv_def)
  obtain s' where s': "sched_switch intr s1 = Some s'" "curthr s' = tp" "procs s' = procs s1" "proc_list s' = proc_list s1" "next_pid s' = next_pid s1"
    "proc_initproc s' = proc_initproc s1" "threads s' ?t = Some (th\<lparr>kt_retval := status, kt_state := KT_EXITED, kt_oldipl := ipl s1\<rparr>)" "curproc s' = kt_proc thp"
    using switch_now [OF w1 r1, of intr] s1(3) tt t1 tp1 by auto
  have ex: "do_exit intr ops status s = Some s'"
    using exit_one_thread [OF c(1,6) th(1) wc ql th(2) t0] s1(1) s'(1) by (simp add: s0_def)
  have i': "sched_inv s'" using exit_switch_inv [OF s1(2) _ _ ok s'(1)] t1 s1(3) by simp
  have tr': "tree s' = adopt ?c (proc_initproc s) (tree s)" using s1(8) by (simp add: tree_def s'(3))
  have "?c \<noteq> proc_initproc s" using c(1,3) n by auto
  then have "proc_inv ops s'"
    using adopt_wf [OF tr [unfolded t0'] tree_eq(1) [OF c(1)] tree_eq(1) [OF n(1)]] w tr' s'(4,5) s1(5,6) by (simp add: proc_inv_def)
  moreover obtain cr' where cr': "procs s' ?c = Some cr'" "details cr' = (PROC_DEAD, status, [?t], p_pagedir cr, replicate (NFILES ops) NULL)"
    using s1(10) [rule_format, of ?c] c(6) by (auto simp: s'(3))
  moreover have "p_children cr' = []"
    using tree_eq(1) [OF cr'(1)] tr' tree_eq(1) [OF c(1)] by (auto simp: adopt_def node_of_def)
  moreover have "map_option p_state (procs s' x) = map_option p_state (procs s x)" if "x \<noteq> ?c" for x
    using s1(10) [rule_format, of x] that by (cases "procs s1 x"; cases "procs s x") (auto simp: s'(3) details_def)
  ultimately show ?thesis
    using ex i' s'(2,6-8) s1(7) tr' c(7) th tt by (intro exI [of _ s'] exI [of _ cr']) (auto simp: zombie_def gone_def details_def)
qed

section \<open>No child\<close>

lemma reap_returns: "reap ops pid want c s \<noteq> Some (No_child s')"
  by (auto simp: reap_def Let_def split: bind_splits if_splits)

lemma sleeps_returns: "do { s \<leftarrow> sched_sleep_on intr q s; Some (Still_waiting s) } \<noteq> Some (No_child s')"
  by (auto split: bind_splits)

lemma wait_any_returns:
  assumes "procs s (curproc s) = Some cp" "p_children cp \<noteq> []"
  shows "wait_any intr ops want s \<noteq> Some (No_child s')"
  using assms by (cases "first_dead (procs s) (p_children cp)") (auto simp: wait_any_def reap_returns sleeps_returns split: option.splits)

lemma wait_for_returns: "wait_for intr ops pid want c s \<noteq> Some (No_child s')"
  by (cases "procs s c") (auto simp: wait_for_def reap_returns sleeps_returns)

lemma children_exist:
  assumes "wf_tree idle (tree s) L" "procs s q = Some cp"
  shows "\<forall>c \<in> set (p_children cp). \<exists>cr. procs s c = Some cr \<and> c \<noteq> NULL"
proof
  fix c assume c: "c \<in> set (p_children cp)"
  obtain cr where "procs s c = Some cr" using wf_treeD(6) [OF assms(1) tree_eq(1) [OF assms(2)], of c] c by (auto simp: tree_def)
  then show "\<exists>cr. procs s c = Some cr \<and> c \<noteq> NULL" using wf_treeD(1) [OF assms(1)] by (metis option.simps(3) tree_eq(1))
qed

lemma waitpid_no_child:
  assumes w: "wf_tree idle (tree s) L" and cp: "procs s (curproc s) = Some cp" "proc_initproc s \<noteq> NULL"
  shows "(do_waitpid intr ops pid want s = Some (No_child s')) =
    (s' = s \<and> (pid < - 1 \<or> p_children cp = [] \<or> pid \<noteq> - 1 \<and> pid \<notin> (\<lambda>c. p_pid (the (procs s c))) ` set (p_children cp)))"
proof -
  consider "pid < - 1 \<or> p_children cp = []" | "pid = - 1" "p_children cp \<noteq> []" | "- 1 < pid" "p_children cp \<noteq> []" by linarith
  then show ?thesis
  proof cases
    case 1
    then show ?thesis using cp by (auto simp: do_waitpid_def)
  next
    case 2
    then show ?thesis using cp wait_any_returns [OF cp(1) 2(2)] by (auto simp: do_waitpid_def)
  next
    case 3
    have ex: "\<forall>c \<in> set (p_children cp). \<exists>cr. procs s c = Some cr \<and> c \<noteq> NULL" by (rule children_exist [OF w cp(1)])
    show ?thesis
    proof (cases "pid \<in> (\<lambda>c. p_pid (the (procs s c))) ` set (p_children cp)")
      case True
      then obtain c where c: "c \<in> set (p_children cp)" "pid = p_pid (the (procs s c))" by auto
      then obtain cr where cr: "procs s c = Some cr" "c \<noteq> NULL" using ex by auto
      have "proc_lookup_in (procs s) (p_children cp) pid = Some c" using lookup_child [OF w cp(1) c(1) cr(1)] c(2) cr(1) by simp
      then show ?thesis using cp 3 True cr(2) by (simp add: do_waitpid_def wait_for_returns)
    next
      case False
      have "proc_lookup_in (procs s) (p_children cp) pid = Some NULL"
      proof (rule lookup_in_none, rule ballI)
        fix c assume c: "c \<in> set (p_children cp)"
        then obtain cr where cr: "procs s c = Some cr" using ex by auto
        then have "p_pid cr \<noteq> pid" using False c by force
        then show "\<exists>qr. procs s c = Some qr \<and> p_pid qr \<noteq> pid" using cr by blast
      qed
      then show ?thesis using cp 3 False by (auto simp: do_waitpid_def)
    qed
  qed
qed

section \<open>Properties\<close>

text \<open>
  C33.  Waiting for a dead child, by its identifier or as the first dead one: the identifier and the
  status are returned, the process and its threads are gone and nothing else, its identifier is
  free again, and processes and scheduler keep their invariants.
\<close>

theorem waitpid_reaps:
  assumes "sched_inv s" "proc_inv ops s" "procs s (curproc s) = Some cp" "p_state cp = PROC_RUNNING" "proc_initproc s \<noteq> NULL"
    and c: "zombie s c cr" "c \<in> set (p_children cp)"
    and pid: "pid = p_pid cr \<and> 0 \<le> pid \<or> pid = - 1 \<and> first_dead (procs s) (p_children cp) = Some (Some c)"
  shows "\<exists>s'. do_waitpid intr ops pid want s = Some (Reaped (p_pid cr) (if want then Some (p_status cr) else None) s') \<and>
    sched_inv s' \<and> proc_inv ops s' \<and> tree s' = drop_child (curproc s) c (tree s) \<and> threads s' = threads s |` (- set (p_threads cr)) \<and>
    proc_lookup (p_pid cr) s' = Some NULL"
proof -
  have t: "wf_tree (PID_IDLE ops) (tree s) (proc_list s)" using assms(2) by (simp add: proc_inv_def)
  have z: "procs s c = Some cr" "p_state cr = PROC_DEAD" using c(1) by (auto simp: zombie_def)
  have c0: "c \<noteq> NULL" using wf_treeD(1) [OF t] z(1) by (metis option.simps(3) tree_eq(1))
  have ne: "p_children cp \<noteq> []" using c(2) by auto
  have "do_waitpid intr ops pid want s = reap ops pid want c s"
    using pid
  proof
    assume "pid = p_pid cr \<and> 0 \<le> pid"
    then show ?thesis using lookup_child [OF t assms(3) c(2) z(1)] assms(3,5) ne c0 z by (simp add: do_waitpid_def wait_for_def)
  next
    assume "pid = - 1 \<and> first_dead (procs s) (p_children cp) = Some (Some c)"
    then show ?thesis using assms(3,5) ne by (simp add: do_waitpid_def wait_any_def)
  qed
  then show ?thesis using reap_zombie [OF assms(1-4) c, of pid want] pid by auto
qed

text \<open>
  C34.  \<open>do_waitpid\<close> fails with \<open>-ECHILD\<close> exactly when the identifier is below \<open>-1\<close>, there are no
  children, or an identifier is given that no child has; it then changes nothing.
\<close>

theorem waitpid_echild:
  assumes "proc_inv ops s" "procs s (curproc s) = Some cp" "proc_initproc s \<noteq> NULL"
  shows "(do_waitpid intr ops pid want s = Some (No_child s')) =
    (s' = s \<and> (pid < - 1 \<or> p_children cp = [] \<or> pid \<noteq> - 1 \<and> pid \<notin> (\<lambda>c. p_pid (the (procs s c))) ` set (p_children cp)))"
  using waitpid_no_child [of "PID_IDLE ops" s "proc_list s", OF _ assms(2,3)] assms(1) by (simp add: proc_inv_def)


section \<open>Examples\<close>

text \<open>
  The idle process 9, the init process 10 with thread 1, its child 11 with thread 2, and the child
  12 of that.  Thread 2 runs and thread 1 waits for its children.
\<close>

definition demo_family :: "nat kernel" where
  "demo_family = \<lparr>threads = [1 \<mapsto> demo_thread 10 (Some (P_wait 10)) KT_SLEEP, 2 \<mapsto> demo_thread 11 None KT_RUN],
     procs = [9 \<mapsto> demo_proc 0 [] [10] NULL, 10 \<mapsto> demo_proc 1 [1] [11] 9, 11 \<mapsto> demo_proc 2 [2] [12] 10, 12 \<mapsto> demo_proc 3 [] [] 11],
     queues = (\<lambda>_. \<lparr>tq_list = [], tq_size = 0\<rparr>)(P_wait 10 := \<lparr>tq_list = [1], tq_size = 1\<rparr>),
     proc_list = [9, 10, 11, 12], next_pid = 4, proc_initproc = 10, curthr = 2, curproc = 11, ipl = IPL_LOW, km_holder = (\<lambda>_. NULL), ext = 0\<rparr>"

text \<open>The same after 11 has exited with status 7 and thread 1 has been woken up.\<close>

definition demo_exited :: "nat kernel" where
  "demo_exited = demo_family\<lparr>threads := [1 \<mapsto> demo_thread 10 None KT_RUN, 2 \<mapsto> demo_thread 11 None KT_EXITED],
     procs := [9 \<mapsto> demo_proc 0 [] [10] NULL, 10 \<mapsto> demo_proc 1 [1] [11] 9, 11 \<mapsto> (demo_proc 2 [2] [] 10)\<lparr>p_status := 7, p_state := PROC_DEAD\<rparr>],
     queues := (\<lambda>_. \<lparr>tq_list = [], tq_size = 0\<rparr>), proc_list := [9, 10, 11], curthr := 1, curproc := 10\<rparr>"

lemma demo_family_inv: "sched_inv demo_family"
proof -
  have t: "threads demo_family = [1 \<mapsto> demo_thread 10 (Some (P_wait 10)) KT_SLEEP, 2 \<mapsto> demo_thread 11 None KT_RUN]"
    and q: "queues demo_family = (\<lambda>_. \<lparr>tq_list = [], tq_size = 0\<rparr>)(P_wait 10 := \<lparr>tq_list = [1], tq_size = 1\<rparr>)"
    and c: "curthr demo_family = 2" by (simp_all add: demo_family_def)
  have "wf_queues demo_family"
    unfolding wf_queues_def t q
    by (intro conjI allI) (auto simp: demo_thread_def thr_ok_def wait_state_def split: if_splits)
  moreover have "no_lost demo_family" unfolding no_lost_def parked_def t c by (auto simp: demo_thread_def split: if_splits)
  moreover have "cur_free demo_family" unfolding cur_free_def t c by (simp add: demo_thread_def)
  ultimately show ?thesis by (simp add: sched_inv_def)
qed

lemma demo_exited_inv: "sched_inv demo_exited"
  by (auto simp: demo_exited_def demo_thread_def sched_inv_def wf_queues_def thr_ok_def no_lost_def parked_def cur_free_def split: if_splits)

lemma demo_family_tree: "proc_inv demo_ops demo_family"
proof -
  have "tree demo_family = [9 \<mapsto> \<lparr>n_pid = 0, n_children = [10], n_parent = 0\<rparr>, 10 \<mapsto> \<lparr>n_pid = 1, n_children = [11], n_parent = 9\<rparr>,
      11 \<mapsto> \<lparr>n_pid = 2, n_children = [12], n_parent = 10\<rparr>, 12 \<mapsto> \<lparr>n_pid = 3, n_children = [], n_parent = 11\<rparr>]"
    by (auto simp: tree_def demo_family_def fun_eq_iff node_of_def demo_proc_def)
  moreover have "wf_tree 0 [9 \<mapsto> \<lparr>n_pid = 0, n_children = [10], n_parent = 0\<rparr>, 10 \<mapsto> \<lparr>n_pid = 1, n_children = [11], n_parent = 9\<rparr>,
      11 \<mapsto> \<lparr>n_pid = 2, n_children = [12], n_parent = 10\<rparr>, 12 \<mapsto> \<lparr>n_pid = 3, n_children = [], n_parent = 11\<rparr>] [9, 10, 11, 12]"
    by (rule wf_treeI) (auto split: if_splits)
  ultimately show ?thesis by (simp add: proc_inv_def) (simp add: demo_family_def demo_ops_def)
qed

lemma demo_exited_tree: "proc_inv demo_ops demo_exited"
proof -
  have "tree demo_exited = [9 \<mapsto> \<lparr>n_pid = 0, n_children = [10], n_parent = 0\<rparr>, 10 \<mapsto> \<lparr>n_pid = 1, n_children = [11], n_parent = 9\<rparr>,
      11 \<mapsto> \<lparr>n_pid = 2, n_children = [], n_parent = 10\<rparr>]"
    by (auto simp: tree_def demo_exited_def fun_eq_iff node_of_def demo_proc_def)
  moreover have "wf_tree 0 [9 \<mapsto> \<lparr>n_pid = 0, n_children = [10], n_parent = 0\<rparr>, 10 \<mapsto> \<lparr>n_pid = 1, n_children = [11], n_parent = 9\<rparr>,
      11 \<mapsto> \<lparr>n_pid = 2, n_children = [], n_parent = 10\<rparr>] [9, 10, 11]"
    by (rule wf_treeI) (auto split: if_splits)
  ultimately show ?thesis by (simp add: proc_inv_def) (simp add: demo_exited_def demo_family_def demo_ops_def)
qed

lemma demo_pids: "pids demo_family = [0, 1, 2, 3]" "next_pid demo_family = 4" "curproc demo_family = 11"
  "procs demo_family 11 = Some (demo_proc 2 [2] [12] 10)"
  by (simp_all add: pids_def demo_family_def demo_proc_def)

lemma demo_consts: "PROC_MAX_COUNT demo_ops = 65536" "PID_IDLE demo_ops = 0" "PID_INIT demo_ops = 1" "NFILES demo_ops = 2"
  by (simp_all add: demo_ops_def)

theorem getid_unused_witness:
  "\<exists>pid s'. proc_getid demo_ops demo_family = Some (pid, s') \<and> 0 \<le> pid \<and> pid \<notin> {0, 1, 2, 3}"
proof -
  have "\<not> {0..<65536} \<subseteq> {0, 1, 2, 3 :: int}" by (simp add: subset_iff) (intro exI [of _ 4], simp)
  then show ?thesis using getid_unused [of demo_family demo_ops] by (auto simp: demo_pids demo_consts)
qed

theorem create_extends_tree_witness:
  "\<exists>p s' pid. proc_create demo_ops ''child'' demo_family = Some (p, s') \<and> proc_inv demo_ops s' \<and> proc_lookup pid demo_family = Some NULL \<and>
    proc_lookup pid s' = Some p"
proof -
  have "fresh_proc demo_ops demo_family" by (simp add: fresh_proc_def demo_ops_def demo_family_def)
  moreover have "\<not> {0..<65536} \<subseteq> {0, 1, 2, 3 :: int}" by (simp add: subset_iff) (intro exI [of _ 4], simp)
  moreover have "\<forall>x. fst (vmmap_create demo_ops x) \<noteq> NULL" by (simp add: demo_ops_def)
  ultimately show ?thesis
    using create_extends_tree [OF demo_family_tree, of "demo_proc 2 [2] [12] 10" "''child''"] by (simp add: demo_pids demo_consts) blast
qed


lemma demo_zombie: "zombie demo_exited 11 ((demo_proc 2 [2] [] 10)\<lparr>p_status := 7, p_state := PROC_DEAD\<rparr>)"
  by (simp add: zombie_def gone_def demo_exited_def demo_proc_def demo_thread_def)

theorem waitpid_reaps_witness:
  "\<exists>s'. do_waitpid (\<lambda>_ s. s) demo_ops 2 True demo_exited = Some (Reaped 2 (Some 7) s') \<and> proc_lookup 2 s' = Some NULL"
proof -
  have "procs demo_exited (curproc demo_exited) = Some (demo_proc 1 [1] [11] 9)" "proc_initproc demo_exited \<noteq> NULL"
    by (simp_all add: demo_exited_def demo_family_def)
  then show ?thesis
    using waitpid_reaps [OF demo_exited_inv demo_exited_tree _ _ _ demo_zombie, of "demo_proc 1 [1] [11] 9" 2 "\<lambda>_ s. s" True]
    by (auto simp: demo_proc_def)
qed

theorem waitpid_echild_witness:
  "do_waitpid (\<lambda>_ s. s) demo_ops 5 True demo_exited = Some (No_child demo_exited)"
proof -
  have "procs demo_exited (curproc demo_exited) = Some (demo_proc 1 [1] [11] 9)" "proc_initproc demo_exited \<noteq> NULL"
    "procs demo_exited 11 = Some ((demo_proc 2 [2] [] 10)\<lparr>p_status := 7, p_state := PROC_DEAD\<rparr>)"
    by (simp_all add: demo_exited_def demo_family_def)
  then show ?thesis
    using waitpid_echild [OF demo_exited_tree, of "demo_proc 1 [1] [11] 9" "\<lambda>_ s. s" 5 True demo_exited] by (simp add: demo_proc_def)
qed


end
