(* ===== verification/Vnode.thy ===== *)
theory Vnode
  imports OS_Prelude
begin

text \<open>
  The state of the file system layer and the vnodes, \<^verbatim>\<open>vnode.c\<close>.

  The state holds the vnodes in use and their list, the open files, the file table and the
  working directory of the current process, the root vnode, and what the file system below
  keeps, a value of type \<open>'x\<close>.  There is one file system.  A vnode is named by its address; what a
  vnode points to in the file system is found by its number \<open>vn_vno\<close>.

  A result \<^const>\<open>None\<close> is a failed \<^verbatim>\<open>KASSERT\<close>, a panic, a bad pointer, or a wait for a vnode that
  another thread is bringing in or taking away.
\<close>

datatype mode = S_IFREG | S_IFDIR | S_IFCHR | S_IFBLK | Mode_other int

definition S_ISDIR :: "mode \<Rightarrow> bool" where
  "S_ISDIR m \<longleftrightarrow> m = S_IFDIR"

definition S_ISCHR :: "mode \<Rightarrow> bool" where
  "S_ISCHR m \<longleftrightarrow> m = S_IFCHR"

definition S_ISBLK :: "mode \<Rightarrow> bool" where
  "S_ISBLK m \<longleftrightarrow> m = S_IFBLK"

definition S_ISREG :: "mode \<Rightarrow> bool" where
  "S_ISREG m \<longleftrightarrow> m = S_IFREG"

lemmas mode_defs = S_ISDIR_def S_ISCHR_def S_ISBLK_def S_ISREG_def

record vnode =
  vn_vno :: nat
  vn_mode :: mode
  vn_len :: int
  vn_refcount :: int
  vn_nrespages :: int
  vn_devid :: nat
  vn_busy :: bool

record file_t =
  f_pos :: int
  f_mode :: int
  f_refcount :: int
  f_vnode :: addr

record 'x vfs =
  vnodes :: "addr \<rightharpoonup> vnode"
  vnode_inuse_list :: "addr list"
  files :: "addr \<rightharpoonup> file_t"
  cur_files :: "addr list"
  cur_cwd :: addr
  vfs_root_vn :: addr
  fsx :: 'x

type_synonym byte = "8 word"

record dirent =
  d_ino :: nat
  d_off :: int
  d_name :: string

record stat =
  st_mode :: mode
  st_ino :: nat
  st_dev :: int
  st_rdev :: int
  st_nlink :: int
  st_size :: int
  st_blksize :: int
  st_blocks :: int

text \<open>
  The operations of the file system: those of \<^verbatim>\<open>fs_ops_t\<close>, the tables \<^verbatim>\<open>vnode_ops_t\<close>, where
  \<^const>\<open>None\<close> is an entry that is \<open>NULL\<close>, and the allocators of vnodes and files.  A name is a pointer into
  a path, that is, a string of which a length is to be used.
\<close>

type_synonym 'x result = "((errno + int) \<times> 'x vfs) option"

record 'x fs_ops =
  read_vnode :: "addr \<Rightarrow> 'x vfs \<Rightarrow> 'x vfs option"
  delete_vnode :: "addr \<Rightarrow> 'x vfs \<Rightarrow> 'x vfs option"
  query_vnode :: "addr \<Rightarrow> 'x vfs \<Rightarrow> bool"
  vop_read :: "'x vfs \<Rightarrow> addr \<Rightarrow> (int \<Rightarrow> nat \<Rightarrow> 'x vfs \<Rightarrow> ((errno + int) \<times> byte list \<times> 'x vfs) option) option"
  vop_write :: "'x vfs \<Rightarrow> addr \<Rightarrow> (int \<Rightarrow> byte list \<Rightarrow> 'x vfs \<Rightarrow> 'x result) option"
  vop_create :: "'x vfs \<Rightarrow> addr \<Rightarrow> (string \<Rightarrow> nat \<Rightarrow> 'x vfs \<Rightarrow> ((errno + addr) \<times> 'x vfs) option) option"
  vop_mknod :: "'x vfs \<Rightarrow> addr \<Rightarrow> (string \<Rightarrow> nat \<Rightarrow> mode \<Rightarrow> nat \<Rightarrow> 'x vfs \<Rightarrow> 'x result) option"
  vop_lookup :: "'x vfs \<Rightarrow> addr \<Rightarrow> (string \<Rightarrow> nat \<Rightarrow> 'x vfs \<Rightarrow> ((errno + addr) \<times> 'x vfs) option) option"
  vop_link :: "'x vfs \<Rightarrow> addr \<Rightarrow> (addr \<Rightarrow> string \<Rightarrow> nat \<Rightarrow> 'x vfs \<Rightarrow> 'x result) option"
  vop_unlink :: "'x vfs \<Rightarrow> addr \<Rightarrow> (string \<Rightarrow> nat \<Rightarrow> 'x vfs \<Rightarrow> 'x result) option"
  vop_mkdir :: "'x vfs \<Rightarrow> addr \<Rightarrow> (string \<Rightarrow> nat \<Rightarrow> 'x vfs \<Rightarrow> 'x result) option"
  vop_rmdir :: "'x vfs \<Rightarrow> addr \<Rightarrow> (string \<Rightarrow> nat \<Rightarrow> 'x vfs \<Rightarrow> 'x result) option"
  vop_readdir :: "'x vfs \<Rightarrow> addr \<Rightarrow> (int \<Rightarrow> 'x vfs \<Rightarrow> ((errno + int) \<times> dirent option \<times> 'x vfs) option) option"
  vop_stat :: "'x vfs \<Rightarrow> addr \<Rightarrow> ('x vfs \<Rightarrow> ((errno + int) \<times> stat \<times> 'x vfs) option) option"
  vnode_alloc :: "'x vfs \<Rightarrow> addr"
  file_alloc :: "'x vfs \<Rightarrow> addr"

section \<open>Operations\<close>

definition upd_vn :: "addr \<Rightarrow> (vnode \<Rightarrow> vnode) \<Rightarrow> 'x vfs \<Rightarrow> 'x vfs option" where
  "upd_vn v f s = (case vnodes s v of None \<Rightarrow> None | Some vn \<Rightarrow> Some (s\<lparr>vnodes := (vnodes s)(v \<mapsto> f vn)\<rparr>))"

definition vref :: "addr \<Rightarrow> 'x vfs \<Rightarrow> 'x vfs option" where
  "vref v s = do {
     vn \<leftarrow> vnodes s v;
     if v = NULL \<or> \<not> 0 < vn_refcount vn then None
     else Some (s\<lparr>vnodes := (vnodes s)(v \<mapsto> vn\<lparr>vn_refcount := vn_refcount vn + 1\<rparr>)\<rparr>)
   }"

text \<open>The search through the list of vnodes in use.\<close>

fun find_vnode :: "(addr \<rightharpoonup> vnode) \<Rightarrow> addr list \<Rightarrow> nat \<Rightarrow> addr option option" where
  "find_vnode vs [] vno = Some None"
| "find_vnode vs (v # l) vno = do { vn \<leftarrow> vs v; if vn_vno vn = vno then Some (Some v) else find_vnode vs l vno }"

text \<open>
  \<open>vget\<close>.  The allocator is taken not to fail; the code waits until there is memory.  What
  \<open>init_special_vnode\<close> stores in the vnode of a special file is found from its mode and device number.
\<close>

definition vget :: "'x fs_ops \<Rightarrow> nat \<Rightarrow> 'x vfs \<Rightarrow> (addr \<times> 'x vfs) option" where
  "vget ops vno s = do {
     f \<leftarrow> find_vnode (vnodes s) (vnode_inuse_list s) vno;
     (case f of
        Some v \<Rightarrow> do {
          vn \<leftarrow> vnodes s v;
          if vn_busy vn then None else do { s \<leftarrow> vref v s; Some (v, s) }
        }
      | None \<Rightarrow> do {
          let v = vnode_alloc ops s;
          let s = s\<lparr>vnodes := (vnodes s)(v \<mapsto> \<lparr>vn_vno = vno, vn_mode = Mode_other 0, vn_len = 0, vn_refcount = 0, vn_nrespages = 0, vn_devid = 0, vn_busy = True\<rparr>),
                    vnode_inuse_list := v # vnode_inuse_list s\<rparr>;
          s \<leftarrow> read_vnode ops v s;
          s \<leftarrow> upd_vn v (\<lambda>vn. vn\<lparr>vn_refcount := 1, vn_busy := False\<rparr>) s;
          Some (v, s)
        })
   }"

text \<open>
  \<open>vput\<close>.  Freeing a resident page also drops the reference that the page holds.
\<close>

definition vput :: "'x fs_ops \<Rightarrow> addr \<Rightarrow> 'x vfs \<Rightarrow> 'x vfs option" where
  "vput ops v s = do {
     vn \<leftarrow> vnodes s v;
     if v = NULL \<or> \<not> 0 \<le> vn_nrespages vn \<or> \<not> vn_nrespages vn < vn_refcount vn \<or> vn_busy vn then None
     else do {
       let vn = (if vn_nrespages vn = vn_refcount vn - 1 \<and> \<not> query_vnode ops v s
                 then vn\<lparr>vn_refcount := vn_refcount vn - vn_nrespages vn, vn_nrespages := 0\<rparr> else vn);
       let vn = vn\<lparr>vn_refcount := vn_refcount vn - 1\<rparr>;
       if 0 < vn_refcount vn then Some (s\<lparr>vnodes := (vnodes s)(v \<mapsto> vn)\<rparr>)
       else if vn_refcount vn \<noteq> 0 \<or> vn_nrespages vn \<noteq> 0 then None
       else do {
         s \<leftarrow> delete_vnode ops v (s\<lparr>vnodes := (vnodes s)(v \<mapsto> vn\<lparr>vn_busy := True\<rparr>)\<rparr>);
         Some (s\<lparr>vnodes := (vnodes s)(v := None), vnode_inuse_list := remove1 v (vnode_inuse_list s)\<rparr>)
       }
     }
   }"

text \<open>The two counts of vnodes in use; the sum is \<open>-EBUSY\<close> if a vnode has references of its own.\<close>

fun in_use_loop :: "addr \<Rightarrow> (addr \<rightharpoonup> vnode) \<Rightarrow> addr list \<Rightarrow> (errno + int) \<Rightarrow> (errno + int) option" where
  "in_use_loop root vs [] ret = Some ret"
| "in_use_loop root vs (v # l) ret = do {
     vn \<leftarrow> vs v;
     let refs = vn_refcount vn - vn_nrespages vn;
     if \<not> vn_nrespages vn \<le> vn_refcount vn \<or> \<not> 0 \<le> vn_nrespages vn \<or> \<not> 0 \<le> refs \<or> v = root \<and> \<not> 1 \<le> refs then None
     else in_use_loop root vs l (if v = root \<and> 1 < refs \<or> v \<noteq> root \<and> refs \<noteq> 0 then Inl EBUSY else ret)
   }"

definition vfs_is_in_use :: "'x vfs \<Rightarrow> (errno + int) option" where
  "vfs_is_in_use s = in_use_loop (vfs_root_vn s) (vnodes s) (vnode_inuse_list s) (Inr 0)"

definition vnode_inuse :: "'x vfs \<Rightarrow> nat" where
  "vnode_inuse s = length (vnode_inuse_list s)"

section \<open>Special files\<close>

text \<open>
  The operations of byte devices are those of drivers that are not among the sources: a parameter gives, for a
  device number, what the driver's \<open>read\<close> and \<open>write\<close> return, if there are such entries.
\<close>

record devices =
  cd_read :: "nat \<Rightarrow> (int \<Rightarrow> nat \<Rightarrow> (errno + int) \<times> byte list) option"
  cd_write :: "nat \<Rightarrow> (int \<Rightarrow> byte list \<Rightarrow> errno + int) option"

definition special_file_stat :: "(addr \<Rightarrow> 'x vfs \<Rightarrow> ((errno + int) \<times> stat \<times> 'x vfs) option) option \<Rightarrow> addr \<Rightarrow> 'x vfs \<Rightarrow> ((errno + int) \<times> stat \<times> 'x vfs) option" where
  "special_file_stat root_stat v s = do { op \<leftarrow> root_stat; op v s }"

definition special_file_read :: "devices \<Rightarrow> addr \<Rightarrow> int \<Rightarrow> nat \<Rightarrow> 'x vfs \<Rightarrow> ((errno + int) \<times> byte list \<times> 'x vfs) option" where
  "special_file_read dev v offset cnt s = do {
     vn \<leftarrow> vnodes s v;
     if v = NULL \<or> \<not> (S_ISCHR (vn_mode vn) \<or> S_ISBLK (vn_mode vn)) then None
     else if S_ISCHR (vn_mode vn) then do {
       op \<leftarrow> cd_read dev (vn_devid vn);
       (case op offset cnt of (r, buf) \<Rightarrow> Some (r, buf, s))
     }
     else Some (Inl ENOTSUP, [], s)
   }"

definition special_file_write :: "devices \<Rightarrow> addr \<Rightarrow> int \<Rightarrow> byte list \<Rightarrow> 'x vfs \<Rightarrow> 'x result" where
  "special_file_write dev v offset buf s = do {
     vn \<leftarrow> vnodes s v;
     if v = NULL \<or> \<not> (S_ISCHR (vn_mode vn) \<or> S_ISBLK (vn_mode vn)) then None
     else if S_ISCHR (vn_mode vn) then do {
       op \<leftarrow> cd_write dev (vn_devid vn);
       Some (op offset buf, s)
     }
     else Some (Inl ENOTSUP, s)
   }"

section \<open>References\<close>

text \<open>The references to a vnode other than those its resident pages hold.\<close>

definition refs :: "'x vfs \<Rightarrow> addr \<Rightarrow> int" where
  "refs s v = (case vnodes s v of None \<Rightarrow> 0 | Some vn \<Rightarrow> vn_refcount vn - vn_nrespages vn)"

text \<open>What the file system below leaves alone.\<close>

definition same_files :: "'x vfs \<Rightarrow> 'x vfs \<Rightarrow> bool" where
  "same_files s s' \<longleftrightarrow> files s' = files s \<and> cur_files s' = cur_files s \<and> cur_cwd s' = cur_cwd s \<and> vfs_root_vn s' = vfs_root_vn s"

definition vnode_ok :: "vnode \<Rightarrow> bool" where
  "vnode_ok vn \<longleftrightarrow> 0 \<le> vn_nrespages vn \<and> vn_nrespages vn \<le> vn_refcount vn \<and> 0 < vn_refcount vn \<and> \<not> vn_busy vn"

definition vn_ok :: "'x vfs \<Rightarrow> bool" where
  "vn_ok s \<longleftrightarrow> vnodes s NULL = None \<and> distinct (vnode_inuse_list s) \<and> set (vnode_inuse_list s) = dom (vnodes s) \<and>
     (\<forall>v vn. vnodes s v = Some vn \<longrightarrow> vnode_ok vn) \<and>
     (\<forall>v vn w wn. vnodes s v = Some vn \<and> vnodes s w = Some wn \<and> vn_vno vn = vn_vno wn \<longrightarrow> v = w)"

lemma same_files_refl [simp]: "same_files s s"
  by (simp add: same_files_def)

lemma same_files_trans [trans]: "same_files s t \<Longrightarrow> same_files t u \<Longrightarrow> same_files s u"
  by (simp add: same_files_def)

lemma same_filesD:
  "same_files s s' \<Longrightarrow> files s' = files s" "same_files s s' \<Longrightarrow> cur_files s' = cur_files s"
  "same_files s s' \<Longrightarrow> cur_cwd s' = cur_cwd s" "same_files s s' \<Longrightarrow> vfs_root_vn s' = vfs_root_vn s"
  by (simp_all add: same_files_def)

lemma refs_some: "vnodes s v = Some vn \<Longrightarrow> refs s v = vn_refcount vn - vn_nrespages vn"
  by (simp add: refs_def)

lemma refs_pos: "0 < refs s v \<Longrightarrow> \<exists>vn. vnodes s v = Some vn"
  by (cases "vnodes s v") (auto simp: refs_def)

lemma vn_ok_vnode: "vn_ok s \<Longrightarrow> vnodes s v = Some vn \<Longrightarrow> vnode_ok vn \<and> v \<noteq> NULL"
  by (metis option.distinct(1) vn_ok_def)

lemma refs_pos_nonnull: "vn_ok s \<Longrightarrow> 0 < refs s v \<Longrightarrow> v \<noteq> NULL"
  using refs_pos vn_ok_vnode by metis

lemma refs_upd: "refs (s\<lparr>vnodes := (vnodes s)(v \<mapsto> vn)\<rparr>) = (refs s)(v := vn_refcount vn - vn_nrespages vn)"
  by (rule ext) (simp add: refs_def)

lemma refs_other [simp]:
  "refs (s\<lparr>files := a\<rparr>) = refs s" "refs (s\<lparr>cur_files := b\<rparr>) = refs s" "refs (s\<lparr>cur_cwd := c\<rparr>) = refs s"
  "refs (s\<lparr>fsx := x\<rparr>) = refs s" "refs (s\<lparr>vnode_inuse_list := l\<rparr>) = refs s" "refs (s\<lparr>vfs_root_vn := c\<rparr>) = refs s"
  by (auto simp: refs_def fun_eq_iff)

lemma vn_ok_other [simp]:
  "vn_ok (s\<lparr>files := a\<rparr>) = vn_ok s" "vn_ok (s\<lparr>cur_files := b\<rparr>) = vn_ok s" "vn_ok (s\<lparr>cur_cwd := c\<rparr>) = vn_ok s"
  "vn_ok (s\<lparr>fsx := x\<rparr>) = vn_ok s" "vn_ok (s\<lparr>vfs_root_vn := c\<rparr>) = vn_ok s"
  by (auto simp: vn_ok_def)

lemma vn_ok_upd:
  assumes "vn_ok s" "vnodes s v = Some vn" "vnode_ok vn'" "vn_vno vn' = vn_vno vn"
  shows "vn_ok (s\<lparr>vnodes := (vnodes s)(v \<mapsto> vn')\<rparr>)"
proof -
  have "\<forall>w wn. vnodes s w = Some wn \<and> vn_vno wn = vn_vno vn \<longrightarrow> w = v" using assms(1,2) unfolding vn_ok_def by metis
  then show ?thesis using assms by (auto simp: vn_ok_def insert_absorb domI)
qed

lemma vref_returns:
  assumes "vn_ok s" "0 < refs s v"
  obtains vn where "vnodes s v = Some vn" "vref v s = Some (s\<lparr>vnodes := (vnodes s)(v \<mapsto> vn\<lparr>vn_refcount := vn_refcount vn + 1\<rparr>)\<rparr>)"
proof -
  obtain vn where vn: "vnodes s v = Some vn" using refs_pos [OF assms(2)] by blast
  then show thesis using that vn_ok_vnode [OF assms(1) vn] by (auto simp: vref_def vnode_ok_def)
qed

lemma vref_refs:
  assumes "vn_ok s" "vref v s = Some s'"
  shows "vn_ok s'" "same_files s s'" "refs s' = (refs s)(v := refs s v + 1)" "fsx s' = fsx s"
proof -
  obtain vn where vn: "vnodes s v = Some vn" and s': "s' = s\<lparr>vnodes := (vnodes s)(v \<mapsto> vn\<lparr>vn_refcount := vn_refcount vn + 1\<rparr>)\<rparr>"
    using assms(2) by (auto simp: vref_def bind_eq_Some_conv split: if_splits)
  show "vn_ok s'" using vn_ok_upd [OF assms(1) vn, of "vn\<lparr>vn_refcount := vn_refcount vn + 1\<rparr>"] vn_ok_vnode [OF assms(1) vn]
    by (simp add: s' vnode_ok_def)
  show "same_files s s'" by (simp add: s' same_files_def)
  show "refs s' = (refs s)(v := refs s v + 1)" by (simp add: s' refs_upd refs_some [OF vn] algebra_simps)
  show "fsx s' = fsx s" by (simp add: s')
qed

lemma remove_vnode_ok:
  assumes "vn_ok s"
  shows "vn_ok (s\<lparr>vnodes := (vnodes s)(v := None), vnode_inuse_list := remove1 v (vnode_inuse_list s)\<rparr>)"
    (is "vn_ok ?t")
proof -
  have "vnodes ?t NULL = None" using assms by (simp add: vn_ok_def)
  moreover have "distinct (vnode_inuse_list ?t)" using assms by (simp add: vn_ok_def)
  moreover have "set (vnode_inuse_list ?t) = dom (vnodes ?t)" using assms by (auto simp: vn_ok_def)
  moreover have "\<forall>w wn. vnodes ?t w = Some wn \<longrightarrow> vnodes s w = Some wn" by simp
  ultimately show ?thesis using assms unfolding vn_ok_def by blast
qed

text \<open>
  What \<open>vput\<close> does, given what the file system does when it deletes a vnode: it drops one reference, and the vnode is gone
  if nothing is left of it.
\<close>

lemma bind_map_option_Some: "x \<bind> (\<lambda>y. Some (f y)) = map_option f x"
  by (cases x) simp_all

lemma vput_cases:
  assumes ok: "vn_ok s" and pos: "0 < refs s v"
  obtains (keep) vn vn' where "vnodes s v = Some vn" "vput ops v s = Some (s\<lparr>vnodes := (vnodes s)(v \<mapsto> vn')\<rparr>)"
      "vnode_ok vn'" "vn' = vn\<lparr>vn_refcount := vn_refcount vn', vn_nrespages := vn_nrespages vn'\<rparr>" "vn_refcount vn' - vn_nrespages vn' = refs s v - 1"
  | (last) vn vn' where "vnodes s v = Some vn" "refs s v = 1" "vn' = vn\<lparr>vn_refcount := 0, vn_nrespages := 0, vn_busy := True\<rparr>"
      "vput ops v s = map_option (\<lambda>s'. s'\<lparr>vnodes := (vnodes s')(v := None), vnode_inuse_list := remove1 v (vnode_inuse_list s')\<rparr>)
         (delete_vnode ops v (s\<lparr>vnodes := (vnodes s)(v \<mapsto> vn')\<rparr>))"
proof -
  obtain vn where vn: "vnodes s v = Some vn" using refs_pos [OF pos] by blast
  note vno = vn_ok_vnode [OF ok vn]
  have guard: "\<not> (v = NULL \<or> \<not> 0 \<le> vn_nrespages vn \<or> \<not> vn_nrespages vn < vn_refcount vn \<or> vn_busy vn)"
    using vno pos by (simp add: vnode_ok_def refs_some [OF vn])
  define free where "free = (vn_nrespages vn = vn_refcount vn - 1 \<and> \<not> query_vnode ops v s)"
  show thesis
  proof (cases "free \<or> vn_refcount vn = 1")
    case True
    then have r1: "refs s v = 1" using vno guard by (auto simp: free_def refs_some [OF vn] vnode_ok_def)
    have np: "\<not> free \<Longrightarrow> vn_nrespages vn = 0" using True vno r1 by (simp add: refs_some [OF vn])
    define vn' where "vn' = vn\<lparr>vn_refcount := 0, vn_nrespages := 0, vn_busy := True\<rparr>"
    have rc: "vn_refcount vn = vn_nrespages vn + 1" using r1 by (simp add: refs_some [OF vn])
    show thesis
    proof (rule last [OF vn r1 vn'_def])
      show "vput ops v s = map_option (\<lambda>s'. s'\<lparr>vnodes := (vnodes s')(v := None), vnode_inuse_list := remove1 v (vnode_inuse_list s')\<rparr>)
         (delete_vnode ops v (s\<lparr>vnodes := (vnodes s)(v \<mapsto> vn')\<rparr>))"
      proof (cases free)
        case True
        have e: "vn\<lparr>vn_nrespages := 0, vn_refcount := 0, vn_busy := True\<rparr> = vn'" by (simp add: vn'_def)
        show ?thesis using True guard rc e unfolding vput_def free_def by (simp add: vn bind_map_option_Some)
      next
        case False
        then have n0: "vn_nrespages vn = 0" by (rule np)
        then have q: "query_vnode ops v s" using False rc by (simp add: free_def)
        have e: "vn\<lparr>vn_refcount := 0, vn_busy := True\<rparr> = vn'" using n0 by (simp add: vn'_def)
        show ?thesis using guard rc n0 q e unfolding vput_def by (simp add: vn bind_map_option_Some)
      qed
    qed
  next
    case False
    show thesis
    proof (rule keep [OF vn, of "vn\<lparr>vn_refcount := vn_refcount vn - 1\<rparr>"])
      show "vput ops v s = Some (s\<lparr>vnodes := (vnodes s)(v \<mapsto> vn\<lparr>vn_refcount := vn_refcount vn - 1\<rparr>)\<rparr>)"
        using guard False vno unfolding vput_def free_def by (auto simp: vn vnode_ok_def)
    qed (use False vno guard in \<open>auto simp: vnode_ok_def refs_some [OF vn]\<close>)
  qed
qed

end
