(* ===== verification/Vfs.thy ===== *)
theory Vfs
  imports Vnode
begin

text \<open>
  Open files, \<^verbatim>\<open>file.c\<close>, paths, \<^verbatim>\<open>namev.c\<close>, opening, \<^verbatim>\<open>open.c\<close>, and the system calls on
  files, \<^verbatim>\<open>vfs_syscall.c\<close>.

  The constants of headers that are not among the sources are a parameter.  A returned negative
  error number is \<open>Inl\<close>.  File offsets are 32-bit: \<open>off_t\<close> is the value an \<open>off_t\<close> holds
  after an addition.  A path is the list of its characters without the final zero.
\<close>

unbundle bit_operations_syntax

record vfs_config =
  NFILES :: nat
  NAME_LEN :: nat
  MAXPATHLEN :: nat
  FMODE_READ :: int
  FMODE_WRITE :: int
  FMODE_APPEND :: int
  O_RDONLY :: int
  O_WRONLY :: int
  O_RDWR :: int
  O_CREAT :: int
  O_TRUNC :: int
  O_APPEND :: int
  sizeof_dirent :: int
  error_number :: "errno \<Rightarrow> int"

datatype whence = SEEK_SET | SEEK_CUR | SEEK_END | Whence_other int

definition off_t :: "int \<Rightarrow> int" where
  "off_t x = signed_take_bit 31 x"

text \<open>The C value of a result.\<close>

definition c_int :: "vfs_config \<Rightarrow> errno + int \<Rightarrow> int" where
  "c_int cfg r = (case r of Inl e \<Rightarrow> - error_number cfg e | Inr n \<Rightarrow> n)"

section \<open>Open files\<close>

definition upd_file :: "addr \<Rightarrow> (file_t \<Rightarrow> file_t) \<Rightarrow> 'x vfs \<Rightarrow> 'x vfs option" where
  "upd_file f g s = (case files s f of None \<Rightarrow> None | Some fl \<Rightarrow> Some (s\<lparr>files := (files s)(f \<mapsto> g fl)\<rparr>))"

definition fref :: "addr \<Rightarrow> 'x vfs \<Rightarrow> 'x vfs option" where
  "fref f s = do {
     fl \<leftarrow> files s f;
     if \<not> (0 \<le> f_mode fl \<and> f_mode fl < 8) \<or> \<not> - 1 \<le> f_pos fl \<or> \<not> 0 \<le> f_refcount fl \<or> f_refcount fl \<noteq> 0 \<and> f_vnode fl = NULL then None
     else upd_file f (\<lambda>fl. fl\<lparr>f_refcount := f_refcount fl + 1\<rparr>) s
   }"

definition fget :: "'x fs_ops \<Rightarrow> vfs_config \<Rightarrow> int \<Rightarrow> 'x vfs \<Rightarrow> (addr \<times> 'x vfs) option" where
  "fget ops cfg fd s =
     (if fd = - 1 then
        (let f = file_alloc ops s in
         if f \<noteq> NULL then do {
           s \<leftarrow> fref f (s\<lparr>files := (files s)(f \<mapsto> \<lparr>f_pos = 0, f_mode = 0, f_refcount = 0, f_vnode = NULL\<rparr>)\<rparr>);
           Some (f, s)
         } else Some (NULL, s))
      else if fd < 0 \<or> int (NFILES cfg) \<le> fd then Some (NULL, s)
      else
        (let f = cur_files s ! nat fd in
         if f \<noteq> NULL then do { s \<leftarrow> fref f s; Some (f, s) } else Some (NULL, s)))"

definition fput :: "'x fs_ops \<Rightarrow> addr \<Rightarrow> 'x vfs \<Rightarrow> 'x vfs option" where
  "fput ops f s = do {
     fl \<leftarrow> files s f;
     if f = NULL \<or> \<not> (0 \<le> f_mode fl \<and> f_mode fl < 8) \<or> \<not> - 1 \<le> f_pos fl \<or> \<not> 0 < f_refcount fl \<or>
        f_refcount fl \<noteq> 1 \<and> f_vnode fl = NULL then None
     else do {
       s \<leftarrow> upd_file f (\<lambda>fl. fl\<lparr>f_refcount := f_refcount fl - 1\<rparr>) s;
       if f_refcount fl - 1 = 0 then do {
         s \<leftarrow> (if f_vnode fl \<noteq> NULL then vput ops (f_vnode fl) s else Some s);
         Some (s\<lparr>files := (files s)(f := None)\<rparr>)
       } else Some s
     }
   }"

fun empty_fd :: "addr list \<Rightarrow> nat list \<Rightarrow> errno + int" where
  "empty_fd fs [] = Inl EMFILE"
| "empty_fd fs (fd # fds) = (if fs ! fd = NULL then Inr (int fd) else empty_fd fs fds)"

definition get_empty_fd :: "vfs_config \<Rightarrow> 'x vfs \<Rightarrow> errno + int" where
  "get_empty_fd cfg s = empty_fd (cur_files s) [0..<NFILES cfg]"

text \<open>The test with which the system calls on descriptors begin.\<close>

definition bad_fd :: "vfs_config \<Rightarrow> int \<Rightarrow> 'x vfs \<Rightarrow> bool" where
  "bad_fd cfg fd s \<longleftrightarrow> fd < 0 \<or> int (NFILES cfg) \<le> fd \<or> cur_files s ! nat fd = NULL"

section \<open>Paths\<close>

definition lookup :: "'x fs_ops \<Rightarrow> addr \<Rightarrow> string \<Rightarrow> nat \<Rightarrow> 'x vfs \<Rightarrow> ((errno + addr) \<times> 'x vfs) option" where
  "lookup ops dir name len s = do {
     vn \<leftarrow> vnodes s dir;
     if dir = NULL then None
     else if \<not> S_ISDIR (vn_mode vn) then Some (Inl ENOTDIR, s)
     else (case vop_lookup ops s dir of None \<Rightarrow> Some (Inl ENOTDIR, s)
       | Some op \<Rightarrow>
           if name = ''.'' \<or> len = 0 then do { s \<leftarrow> vref dir s; Some (Inr dir, s) }
           else op name len s)
   }"

text \<open>
  The loop of \<open>dir_namev\<close>; \<open>rest\<close> is what \<open>pathname + i\<close> points to.  The result is the directory, the rest
  of the path from the last component on, and the length of that component.
\<close>

function namev_loop :: "'x fs_ops \<Rightarrow> vfs_config \<Rightarrow> addr \<Rightarrow> string \<Rightarrow> 'x vfs \<Rightarrow> ((errno + addr \<times> string \<times> nat) \<times> 'x vfs) option" where
  "namev_loop ops cfg base rest s =
     (let j = length (takeWhile (\<lambda>c. c \<noteq> CHR ''/'') rest) in
      if NAME_LEN cfg < j then do { s \<leftarrow> vput ops base s; Some (Inl ENAMETOOLONG, s) }
      else
        (let k = length (takeWhile (\<lambda>c. c = CHR ''/'') (drop j rest)) in
         if drop (j + k) rest = [] then Some (Inr (base, rest, j), s)
         else do {
           (r, s) \<leftarrow> lookup ops base rest j s;
           s \<leftarrow> vput ops base s;
           (case r of Inl e \<Rightarrow> Some (Inl e, s) | Inr v \<Rightarrow> namev_loop ops cfg v (drop (j + k) rest) s)
         }))"
  by pat_completeness auto
termination
proof (relation "measure (\<lambda>(_, _, _, rest, _). length rest)", goal_cases)
  case (2 ops cfg base rest s j k)
  then have ne: "rest \<noteq> []" by auto
  have "0 < j + k"
  proof (cases "hd rest = CHR ''/''")
    case True
    then have "j = 0" "0 < k" using ne 2(1,3) by (cases rest; simp)+
    then show ?thesis by simp
  next
    case False
    then show ?thesis using ne 2(1) by (cases rest) auto
  qed
  then show ?case using ne by simp
qed simp

definition dir_namev :: "'x fs_ops \<Rightarrow> vfs_config \<Rightarrow> string \<Rightarrow> addr \<Rightarrow> 'x vfs \<Rightarrow> ((errno + addr \<times> string \<times> nat) \<times> 'x vfs) option" where
  "dir_namev ops cfg pathname base s =
     (if pathname = [] then Some (Inl EINVAL, s)
      else if MAXPATHLEN cfg < length pathname then Some (Inl ENAMETOOLONG, s)
      else do {
        let base = (if base = NULL then cur_cwd s else base);
        let (base, rest) = (if hd pathname = CHR ''/'' then (vfs_root_vn s, dropWhile (\<lambda>c. c = CHR ''/'') pathname) else (base, pathname));
        s \<leftarrow> vref base s;
        (r, s) \<leftarrow> namev_loop ops cfg base rest s;
        (case r of Inl e \<Rightarrow> Some (Inl e, s)
         | Inr (base, name, namelen) \<Rightarrow> do {
             vn \<leftarrow> vnodes s base;
             if \<not> S_ISDIR (vn_mode vn) then do { s \<leftarrow> vput ops base s; Some (Inl ENOTDIR, s) }
             else Some (Inr (base, name, namelen), s)
           })
      })"

definition open_namev :: "'x fs_ops \<Rightarrow> vfs_config \<Rightarrow> string \<Rightarrow> int \<Rightarrow> addr \<Rightarrow> 'x vfs \<Rightarrow> ((errno + addr) \<times> 'x vfs) option" where
  "open_namev ops cfg pathname flag base s = do {
     (r, s) \<leftarrow> dir_namev ops cfg pathname base s;
     (case r of Inl e \<Rightarrow> Some (Inl e, s)
      | Inr (parent, name, len) \<Rightarrow> do {
          (r, s) \<leftarrow> lookup ops parent name len s;
          (case r of
             Inr v \<Rightarrow> do { s \<leftarrow> vput ops parent s; Some (Inr v, s) }
           | Inl e \<Rightarrow>
               if e \<noteq> ENOENT then do { s \<leftarrow> vput ops parent s; Some (Inl e, s) }
               else if flag AND O_CREAT cfg \<noteq> 0 then do {
                 create \<leftarrow> vop_create ops s parent;
                 (r, s) \<leftarrow> create name len s;
                 s \<leftarrow> vput ops parent s;
                 Some (r, s)
               }
               else do { s \<leftarrow> vput ops parent s; Some (Inl ENOENT, s) })
        })
   }"

section \<open>Descriptors\<close>

definition do_close :: "'x fs_ops \<Rightarrow> vfs_config \<Rightarrow> int \<Rightarrow> 'x vfs \<Rightarrow> 'x result" where
  "do_close ops cfg fd s =
     (if bad_fd cfg fd s then Some (Inl EBADF, s)
      else do {
        s \<leftarrow> fput ops (cur_files s ! nat fd) s;
        Some (Inr 0, s\<lparr>cur_files := (cur_files s)[nat fd := NULL]\<rparr>)
      })"

definition do_dup :: "'x fs_ops \<Rightarrow> vfs_config \<Rightarrow> int \<Rightarrow> 'x vfs \<Rightarrow> 'x result" where
  "do_dup ops cfg fd s =
     (if bad_fd cfg fd s then Some (Inl EBADF, s)
      else do {
        (f, s) \<leftarrow> fget ops cfg fd s;
        (case get_empty_fd cfg s of
           Inl e \<Rightarrow> do { s \<leftarrow> fput ops f s; Some (Inl EMFILE, s) }
         | Inr nfd \<Rightarrow> Some (Inr nfd, s\<lparr>cur_files := (cur_files s)[nat nfd := f]\<rparr>))
      })"

definition do_dup2 :: "'x fs_ops \<Rightarrow> vfs_config \<Rightarrow> int \<Rightarrow> int \<Rightarrow> 'x vfs \<Rightarrow> 'x result" where
  "do_dup2 ops cfg ofd nfd s =
     (if bad_fd cfg ofd s then Some (Inl EBADF, s)
      else if nfd < 0 \<or> int (NFILES cfg) \<le> nfd then Some (Inl EBADF, s)
      else do {
        (f, s) \<leftarrow> fget ops cfg ofd s;
        if ofd = nfd then do { s \<leftarrow> fput ops f s; Some (Inr nfd, s) }
        else do {
          (r, s) \<leftarrow> (if cur_files s ! nat nfd \<noteq> NULL then do_close ops cfg nfd s else Some (Inr 0, s));
          (case r of Inl e \<Rightarrow> Some (Inl e, s) | Inr _ \<Rightarrow> Some (Inr nfd, s\<lparr>cur_files := (cur_files s)[nat nfd := f]\<rparr>))
        }
      })"

definition do_lseek :: "'x fs_ops \<Rightarrow> vfs_config \<Rightarrow> int \<Rightarrow> int \<Rightarrow> whence \<Rightarrow> 'x vfs \<Rightarrow> 'x result" where
  "do_lseek ops cfg fd offset whence s =
     (if bad_fd cfg fd s then Some (Inl EBADF, s)
      else if whence \<noteq> SEEK_SET \<and> whence \<noteq> SEEK_CUR \<and> whence \<noteq> SEEK_END then Some (Inl EINVAL, s)
      else do {
        (f, s) \<leftarrow> fget ops cfg fd s;
        fl \<leftarrow> files s f;
        pos \<leftarrow> (case whence of
            SEEK_CUR \<Rightarrow> Some (off_t (f_pos fl + offset))
          | SEEK_END \<Rightarrow> do { vn \<leftarrow> vnodes s (f_vnode fl); Some (off_t (vn_len vn + offset)) }
          | _ \<Rightarrow> Some offset);
        if pos < 0 then do { s \<leftarrow> fput ops f s; Some (Inl EINVAL, s) }
        else do {
          s \<leftarrow> upd_file f (\<lambda>fl. fl\<lparr>f_pos := pos\<rparr>) s;
          s \<leftarrow> fput ops f s;
          fl \<leftarrow> files s f;
          Some (Inr (f_pos fl), s)
        }
      })"

section \<open>Reading and writing\<close>

definition do_read :: "'x fs_ops \<Rightarrow> vfs_config \<Rightarrow> int \<Rightarrow> nat \<Rightarrow> 'x vfs \<Rightarrow> ((errno + int) \<times> byte list \<times> 'x vfs) option" where
  "do_read ops cfg fd nbytes s =
     (if bad_fd cfg fd s then Some (Inl EBADF, [], s)
      else do {
        (f, s) \<leftarrow> fget ops cfg fd s;
        if f = NULL then Some (Inl EBADF, [], s)
        else do {
          fl \<leftarrow> files s f;
          if f_mode fl AND FMODE_READ cfg = 0 then do { s \<leftarrow> fput ops f s; Some (Inl EBADF, [], s) }
          else do {
            vn \<leftarrow> vnodes s (f_vnode fl);
            if S_ISDIR (vn_mode vn) then do { s \<leftarrow> fput ops f s; Some (Inl EISDIR, [], s) }
            else do {
              op \<leftarrow> vop_read ops s (f_vnode fl);
              (r, buf, s) \<leftarrow> op (f_pos fl) nbytes s;
              (case r of
                 Inl e \<Rightarrow> do { s \<leftarrow> fput ops f s; Some (Inl e, buf, s) }
               | Inr n \<Rightarrow> do {
                   s \<leftarrow> upd_file f (\<lambda>fl. fl\<lparr>f_pos := off_t (f_pos fl + n)\<rparr>) s;
                   s \<leftarrow> fput ops f s;
                   Some (Inr n, buf, s)
                 })
            }
          }
        }
      })"

text \<open>
  \<open>do_write\<close> lets the descriptor \<open>NFILES\<close> pass its first test; whatever it then reads beyond the table,
  \<open>fget\<close> gives \<open>NULL\<close>.
\<close>

definition do_write :: "'x fs_ops \<Rightarrow> vfs_config \<Rightarrow> int \<Rightarrow> byte list \<Rightarrow> 'x vfs \<Rightarrow> 'x result" where
  "do_write ops cfg fd buf s =
     (if fd < 0 \<or> int (NFILES cfg) < fd \<or> fd \<noteq> int (NFILES cfg) \<and> cur_files s ! nat fd = NULL then Some (Inl EBADF, s)
      else do {
        (f, s) \<leftarrow> fget ops cfg fd s;
        if f = NULL then Some (Inl EBADF, s)
        else do {
          fl \<leftarrow> files s f;
          if f_mode fl AND FMODE_APPEND cfg = 0 \<and> f_mode fl AND FMODE_WRITE cfg = 0 then do { s \<leftarrow> fput ops f s; Some (Inl EBADF, s) }
          else do {
            (r, s) \<leftarrow> (if f_mode fl AND FMODE_APPEND cfg \<noteq> 0 then do_lseek ops cfg fd 0 SEEK_END s else Some (Inr 0, s));
            (case r of
               Inl e \<Rightarrow> do { s \<leftarrow> fput ops f s; Some (Inl e, s) }
             | Inr pos \<Rightarrow> do {
                 (r, s) \<leftarrow> (if f_mode fl AND FMODE_WRITE cfg \<noteq> 0 then do_lseek ops cfg fd 0 SEEK_CUR s else Some (Inr pos, s));
                 let cursor_pos = c_int cfg r;
                 fl \<leftarrow> files s f;
                 op \<leftarrow> vop_write ops s (f_vnode fl);
                 (w, s) \<leftarrow> op cursor_pos buf s;
                 fl \<leftarrow> files s f;
                 vn \<leftarrow> vnodes s (f_vnode fl);
                 if \<not> (S_ISCHR (vn_mode vn) \<or> S_ISBLK (vn_mode vn) \<or> S_ISREG (vn_mode vn) \<and> f_pos fl \<le> vn_len vn) then None
                 else do {
                   s \<leftarrow> upd_file f (\<lambda>fl. fl\<lparr>f_pos := off_t (f_pos fl + c_int cfg w)\<rparr>) s;
                   s \<leftarrow> fput ops f s;
                   Some (w, s)
                 }
               })
          }
        }
      })"

definition do_getdent :: "'x fs_ops \<Rightarrow> vfs_config \<Rightarrow> int \<Rightarrow> 'x vfs \<Rightarrow> ((errno + int) \<times> dirent option \<times> 'x vfs) option" where
  "do_getdent ops cfg fd s =
     (if bad_fd cfg fd s then Some (Inl EBADF, None, s)
      else do {
        (f, s) \<leftarrow> fget ops cfg fd s;
        fl \<leftarrow> files s f;
        vn \<leftarrow> vnodes s (f_vnode fl);
        if \<not> S_ISDIR (vn_mode vn) then do { s \<leftarrow> fput ops f s; Some (Inl ENOTDIR, None, s) }
        else do {
          op \<leftarrow> vop_readdir ops s (f_vnode fl);
          (r, d, s) \<leftarrow> op (f_pos fl) s;
          s \<leftarrow> upd_file f (\<lambda>fl. fl\<lparr>f_pos := off_t (f_pos fl + c_int cfg r)\<rparr>) s;
          s \<leftarrow> fput ops f s;
          Some (if c_int cfg r \<le> 0 then r else Inr (sizeof_dirent cfg), d, s)
        }
      })"

section \<open>Names\<close>

definition do_mknod :: "'x fs_ops \<Rightarrow> vfs_config \<Rightarrow> string \<Rightarrow> mode \<Rightarrow> nat \<Rightarrow> 'x vfs \<Rightarrow> 'x result" where
  "do_mknod ops cfg path m devid s =
     (if MAXPATHLEN cfg < length path then Some (Inl ENAMETOOLONG, s)
      else if m \<noteq> S_IFCHR \<and> m \<noteq> S_IFBLK then Some (Inl EINVAL, s)
      else do {
        (r, s) \<leftarrow> dir_namev ops cfg path NULL s;
        (case r of Inl e \<Rightarrow> Some (Inl e, s)
         | Inr (dir, name, len) \<Rightarrow> do {
             (r, s) \<leftarrow> lookup ops dir name len s;
             (case r of
                Inr v \<Rightarrow> do { s \<leftarrow> vput ops dir s; s \<leftarrow> vput ops v s; Some (Inl EEXIST, s) }
              | Inl _ \<Rightarrow> do {
                  op \<leftarrow> vop_mknod ops s dir;
                  (r, s) \<leftarrow> op name len m devid s;
                  s \<leftarrow> vput ops dir s;
                  Some (r, s)
                })
           })
      })"

definition do_mkdir :: "'x fs_ops \<Rightarrow> vfs_config \<Rightarrow> string \<Rightarrow> 'x vfs \<Rightarrow> 'x result" where
  "do_mkdir ops cfg path s =
     (if MAXPATHLEN cfg < length path then Some (Inl ENAMETOOLONG, s)
      else do {
        (r, s) \<leftarrow> dir_namev ops cfg path NULL s;
        (case r of Inl e \<Rightarrow> Some (Inl e, s)
         | Inr (dir, name, len) \<Rightarrow>
             if NAME_LEN cfg < length name then do { s \<leftarrow> vput ops dir s; Some (Inl ENAMETOOLONG, s) }
             else do {
               (r, s) \<leftarrow> lookup ops dir name len s;
               (case r of
                  Inr v \<Rightarrow> do { s \<leftarrow> vput ops dir s; s \<leftarrow> vput ops v s; Some (Inl EEXIST, s) }
                | Inl _ \<Rightarrow> do {
                    vn \<leftarrow> vnodes s dir;
                    if \<not> S_ISDIR (vn_mode vn) then do { s \<leftarrow> vput ops dir s; Some (Inl ENOTDIR, s) }
                    else do {
                      op \<leftarrow> vop_mkdir ops s dir;
                      (r, s) \<leftarrow> op name len s;
                      s \<leftarrow> vput ops dir s;
                      Some (r, s)
                    }
                  })
             })
      })"

definition do_rmdir :: "'x fs_ops \<Rightarrow> vfs_config \<Rightarrow> string \<Rightarrow> 'x vfs \<Rightarrow> 'x result" where
  "do_rmdir ops cfg path s =
     (if MAXPATHLEN cfg < length path then Some (Inl ENAMETOOLONG, s)
      else do {
        (r, s) \<leftarrow> dir_namev ops cfg path NULL s;
        (case r of Inl e \<Rightarrow> Some (Inl e, s)
         | Inr (dir, name, len) \<Rightarrow>
             if name = ''..'' then do { s \<leftarrow> vput ops dir s; Some (Inl ENOTEMPTY, s) }
             else if name = ''.'' then do { s \<leftarrow> vput ops dir s; Some (Inl EINVAL, s) }
             else do {
               vn \<leftarrow> vnodes s dir;
               if \<not> S_ISDIR (vn_mode vn) then do { s \<leftarrow> vput ops dir s; Some (Inl ENOTDIR, s) }
               else do {
                 op \<leftarrow> vop_rmdir ops s dir;
                 (r, s) \<leftarrow> op name len s;
                 s \<leftarrow> vput ops dir s;
                 Some (r, s)
               }
             })
      })"

definition do_unlink :: "'x fs_ops \<Rightarrow> vfs_config \<Rightarrow> string \<Rightarrow> 'x vfs \<Rightarrow> 'x result" where
  "do_unlink ops cfg path s =
     (if MAXPATHLEN cfg < length path then Some (Inl ENAMETOOLONG, s)
      else do {
        (r, s) \<leftarrow> dir_namev ops cfg path NULL s;
        (case r of Inl e \<Rightarrow> Some (Inl e, s)
         | Inr (dir, name, len) \<Rightarrow>
             if name = ''.'' then do { s \<leftarrow> vput ops dir s; Some (Inl EINVAL, s) }
             else if name = ''..'' then do { s \<leftarrow> vput ops dir s; Some (Inl ENOTEMPTY, s) }
             else do {
               vn \<leftarrow> vnodes s dir;
               if \<not> S_ISDIR (vn_mode vn) then do { s \<leftarrow> vput ops dir s; Some (Inl ENOTDIR, s) }
               else do {
                 (r, s) \<leftarrow> lookup ops dir name len s;
                 (case r of
                    Inl e \<Rightarrow> do { s \<leftarrow> vput ops dir s; Some (Inl e, s) }
                  | Inr v \<Rightarrow> do {
                      vn \<leftarrow> vnodes s v;
                      if S_ISDIR (vn_mode vn) then do { s \<leftarrow> vput ops v s; s \<leftarrow> vput ops dir s; Some (Inl EISDIR, s) }
                      else do {
                        op \<leftarrow> vop_unlink ops s dir;
                        (r, s) \<leftarrow> op name len s;
                        s \<leftarrow> vput ops dir s;
                        s \<leftarrow> vput ops v s;
                        Some (r, s)
                      }
                    })
               }
             })
      })"

text \<open>
  \<open>do_link\<close> uses what \<open>open_namev\<close> was to set without looking at its result: \<open>junk\<close> is what
  the variable holds when nothing was stored.
\<close>

definition do_link :: "'x fs_ops \<Rightarrow> vfs_config \<Rightarrow> addr \<Rightarrow> string \<Rightarrow> string \<Rightarrow> 'x vfs \<Rightarrow> 'x result" where
  "do_link ops cfg junk from to s =
     (if NAME_LEN cfg < length to \<or> NAME_LEN cfg < length from then Some (Inl ENAMETOOLONG, s)
      else do {
        (r, s) \<leftarrow> open_namev ops cfg from 0 NULL s;
        let open_res = (case r of Inr v \<Rightarrow> v | Inl _ \<Rightarrow> junk);
        vn \<leftarrow> vnodes s open_res;
        if S_ISDIR (vn_mode vn) then do { s \<leftarrow> vput ops open_res s; Some (Inl EISDIR, s) }
        else do {
          (r, s) \<leftarrow> dir_namev ops cfg to NULL s;
          (case r of Inl e \<Rightarrow> Some (Inl e, s)
           | Inr (dir, name, len) \<Rightarrow> do {
               (r, s) \<leftarrow> lookup ops dir name len s;
               (case r of
                  Inl _ \<Rightarrow> do {
                    op \<leftarrow> vop_link ops s dir;
                    (r, s) \<leftarrow> op open_res name len s;
                    s \<leftarrow> vput ops open_res s;
                    s \<leftarrow> vput ops dir s;
                    Some (r, s)
                  }
                | Inr v \<Rightarrow> do {
                    s \<leftarrow> vput ops open_res s;
                    s \<leftarrow> vput ops dir s;
                    s \<leftarrow> vput ops v s;
                    Some (Inl EEXIST, s)
                  })
             })
        }
      })"

definition do_chdir :: "'x fs_ops \<Rightarrow> vfs_config \<Rightarrow> string \<Rightarrow> 'x vfs \<Rightarrow> 'x result" where
  "do_chdir ops cfg path s = do {
     (r, s) \<leftarrow> open_namev ops cfg path 0 NULL s;
     (case r of Inl e \<Rightarrow> Some (Inl e, s)
      | Inr v \<Rightarrow> do {
          vn \<leftarrow> vnodes s v;
          if \<not> S_ISDIR (vn_mode vn) then do { s \<leftarrow> vput ops v s; Some (Inl ENOTDIR, s) }
          else do {
            s \<leftarrow> vput ops (cur_cwd s) s;
            Some (Inr 0, s\<lparr>cur_cwd := v\<rparr>)
          }
        })
   }"

definition do_stat :: "'x fs_ops \<Rightarrow> vfs_config \<Rightarrow> string \<Rightarrow> 'x vfs \<Rightarrow> ((errno + int) \<times> stat option \<times> 'x vfs) option" where
  "do_stat ops cfg path s =
     (if MAXPATHLEN cfg < length path then Some (Inl ENAMETOOLONG, None, s)
      else do {
        (r, s) \<leftarrow> open_namev ops cfg path 0 NULL s;
        (case r of Inl e \<Rightarrow> Some (Inl e, None, s)
         | Inr v \<Rightarrow> do {
             op \<leftarrow> vop_stat ops s v;
             (r, st, s) \<leftarrow> op s;
             s \<leftarrow> vput ops v s;
             Some (r, Some st, s)
           })
      })"

section \<open>Opening\<close>

definition open_mode :: "vfs_config \<Rightarrow> int \<Rightarrow> int option" where
  "open_mode cfg oflags =
     (if oflags = O_RDONLY cfg \<or> oflags = O_RDONLY cfg OR O_CREAT cfg \<or> oflags = O_RDONLY cfg OR O_TRUNC cfg then Some (FMODE_READ cfg)
      else if oflags = O_WRONLY cfg \<or> oflags = O_WRONLY cfg OR O_CREAT cfg \<or> oflags = O_WRONLY cfg OR O_TRUNC cfg then Some (FMODE_WRITE cfg)
      else if oflags = O_RDWR cfg OR O_APPEND cfg then Some (FMODE_WRITE cfg OR FMODE_READ cfg OR FMODE_APPEND cfg)
      else if oflags = O_RDONLY cfg OR O_APPEND cfg then Some (FMODE_READ cfg OR FMODE_APPEND cfg)
      else if oflags = O_WRONLY cfg OR O_APPEND cfg then Some (FMODE_WRITE cfg OR FMODE_APPEND cfg)
      else if oflags = O_RDWR cfg \<or> oflags = O_RDWR cfg OR O_CREAT cfg \<or> oflags = O_RDWR cfg OR O_TRUNC cfg then Some (FMODE_READ cfg OR FMODE_WRITE cfg)
      else None)"

text \<open>
  With no memory for a file, \<open>do_open\<close> calls \<open>fput (NULL)\<close>, whose assertion fails.  When the path is not
  found, \<open>do_close\<close> is called for a descriptor that is still empty.
\<close>

definition do_open :: "'x fs_ops \<Rightarrow> vfs_config \<Rightarrow> string \<Rightarrow> int \<Rightarrow> 'x vfs \<Rightarrow> 'x result" where
  "do_open ops cfg filename oflags s =
     (case get_empty_fd cfg s of Inl _ \<Rightarrow> Some (Inl EMFILE, s)
      | Inr fd \<Rightarrow> do {
          (newfile, s) \<leftarrow> fget ops cfg (- 1) s;
          if newfile = NULL then None
          else if NAME_LEN cfg < length filename then do { s \<leftarrow> fput ops newfile s; Some (Inl ENAMETOOLONG, s) }
          else (case open_mode cfg oflags of None \<Rightarrow> Some (Inl EINVAL, s)
            | Some fmode \<Rightarrow> do {
                s \<leftarrow> upd_file newfile (\<lambda>fl. fl\<lparr>f_mode := fmode\<rparr>) s;
                (r, s) \<leftarrow> open_namev ops cfg filename oflags NULL s;
                (case r of
                   Inl e \<Rightarrow> do {
                     (_, s) \<leftarrow> do_close ops cfg fd s;
                     Some (Inl e, s\<lparr>cur_files := (cur_files s)[nat fd := NULL]\<rparr>)
                   }
                 | Inr v \<Rightarrow> if v = NULL then do {
                     (_, s) \<leftarrow> do_close ops cfg fd s;
                     Some (Inr 0, s\<lparr>cur_files := (cur_files s)[nat fd := NULL]\<rparr>)
                   } else do {
                     s \<leftarrow> upd_file newfile (\<lambda>fl. fl\<lparr>f_vnode := v\<rparr>) s;
                     vn \<leftarrow> vnodes s v;
                     if (oflags AND 3 = O_WRONLY cfg \<or> oflags AND 3 = O_RDWR cfg) \<and> S_ISDIR (vn_mode vn) then do {
                       (_, s) \<leftarrow> do_close ops cfg fd s;
                       s \<leftarrow> vput ops v s;
                       Some (Inl EISDIR, s)
                     }
                     else Some (Inr fd, s\<lparr>cur_files := (cur_files s)[nat fd := newfile]\<rparr>)
                   })
              })
        })"
end
