(* ===== verification/Vfs_Refs.thy ===== *)
theory Vfs_Refs
  imports Vfs
begin

text \<open>
  Reference counting across the system calls on files.

  \<open>finv\<close> accounts for every reference: \<open>T\<close> holds an open file once for every reference to it, \<open>W\<close> a vnode
  once for every reference that is not from an open file.  Taking a reference adds an element to \<open>T\<close> or \<open>W\<close> and dropping it
  removes one, so that each system call is followed step by step.  The file system below is the locale \<open>file_system\<close>.
\<close>

definition file_ok :: "file_t \<Rightarrow> bool" where
  "file_ok fl \<longleftrightarrow> 0 \<le> f_mode fl \<and> f_mode fl < 8 \<and> - 1 \<le> f_pos fl \<and> f_vnode fl \<noteq> NULL"

definition vnode_of :: "'x vfs \<Rightarrow> addr \<Rightarrow> addr" where
  "vnode_of s f = (case files s f of None \<Rightarrow> NULL | Some fl \<Rightarrow> f_vnode fl)"

definition file_refs :: "addr multiset \<Rightarrow> 'x vfs \<Rightarrow> addr multiset" where
  "file_refs T s = image_mset (vnode_of s) (mset_set (set_mset T))"

definition finv :: "('x vfs \<Rightarrow> bool) \<Rightarrow> addr multiset \<Rightarrow> addr multiset \<Rightarrow> 'x vfs \<Rightarrow> bool" where
  "finv ok T W s \<longleftrightarrow> ok s \<and> NULL \<notin># T \<and>
     (\<forall>f \<in># T. \<exists>fl. files s f = Some fl \<and> f_refcount fl = int (count T f) \<and> file_ok fl) \<and>
     refs s = (\<lambda>v. int (count (W + file_refs T s) v))"

definition gain :: "errno + addr \<Rightarrow> (addr \<Rightarrow> int) \<Rightarrow> addr \<Rightarrow> int" where
  "gain r R = (case r of Inl _ \<Rightarrow> R | Inr v \<Rightarrow> R(v := R v + 1))"

definition gained :: "errno + addr \<Rightarrow> addr multiset" where
  "gained r = (case r of Inl _ \<Rightarrow> {#} | Inr v \<Rightarrow> {#v#})"

text \<open>What an operation of the file system leaves: the references \<open>R\<close>, and everything above as it was.\<close>

definition after :: "('x vfs \<Rightarrow> bool) \<Rightarrow> 'x vfs \<Rightarrow> (addr \<Rightarrow> int) \<Rightarrow> 'x vfs \<Rightarrow> bool" where
  "after ok s R s' \<longleftrightarrow> ok s' \<and> same_files s s' \<and> refs s' = R"

lemma gained_simps [simp]: "gained (Inl e) = {#}" "gained (Inr v) = {#v#}"
  by (simp_all add: gained_def)

lemma finvD:
  assumes "finv ok T W s"
  shows "ok s" "NULL \<notin># T" "refs s = (\<lambda>v. int (count (W + file_refs T s) v))"
  using assms by (simp_all add: finv_def)

lemma finv_file:
  assumes "finv ok T W s" "f \<in># T"
  obtains fl where "files s f = Some fl" "f_refcount fl = int (count T f)" "file_ok fl" "f \<noteq> NULL"
proof -
  have "f \<noteq> NULL" using finvD(2) [OF assms(1)] assms(2) by (intro notI) simp
  then show thesis using that assms unfolding finv_def by blast
qed

lemma finv_refs_pos: "finv ok T W s \<Longrightarrow> v \<in># W \<Longrightarrow> 0 < refs s v"
  using finvD(3) [of ok T W s] by (simp add: add_pos_nonneg)

lemma finv_refs_file:
  assumes "finv ok T W s" "f \<in># T" "files s f = Some fl"
  shows "0 < refs s (f_vnode fl)"
proof -
  have "f_vnode fl \<in># file_refs T s" using assms(2,3) by (auto simp: file_refs_def vnode_of_def intro!: rev_image_eqI [of f])
  then show ?thesis using finvD(3) [OF assms(1)] by (simp add: add_nonneg_pos)
qed

lemma file_refs_same: "same_files s s' \<Longrightarrow> file_refs T s' = file_refs T s"
  by (simp add: file_refs_def same_files_def vnode_of_def cong: image_mset_cong)

lemma finv_after:
  assumes "finv ok T W s" "after ok s R s'" "R = (\<lambda>v. refs s v + int (count W' v) - int (count W v))"
  shows "finv ok T W' s'"
proof -
  have "refs s' = (\<lambda>v. int (count (W' + file_refs T s') v))"
    using finvD(3) [OF assms(1)] assms(2,3) file_refs_same [of s s' T] by (simp add: after_def add.commute)
  then show ?thesis using assms(1,2) unfolding finv_def after_def same_files_def by simp
qed

lemma finv_gained: "finv ok T W s \<Longrightarrow> after ok s (gain r (refs s)) s' \<Longrightarrow> finv ok T (gained r + W) s'"
  by (erule (1) finv_after; cases r) (auto simp: gain_def)

lemma finv_same: "finv ok T W s \<Longrightarrow> after ok s (refs s) s' \<Longrightarrow> finv ok T W s'"
  by (erule (1) finv_after) simp

lemma file_refs_upd:
  "(f \<in># T \<Longrightarrow> vnode_of s' f = vnode_of s f) \<Longrightarrow> (\<And>g. g \<noteq> f \<Longrightarrow> files s' g = files s g) \<Longrightarrow> file_refs T s' = file_refs T s"
  unfolding file_refs_def by (rule image_mset_cong) (metis finite_set_mset elem_mset_set vnode_of_def)

text \<open>An open file is changed but keeps its vnode.\<close>

lemma finv_upd_file:
  assumes "finv ok T W s" "ok (s\<lparr>files := (files s)(f \<mapsto> fl')\<rparr>)" "files s f = Some fl" "f_vnode fl' = f_vnode fl" "file_ok fl'"
    and "f_refcount fl' = int (count T' f)" "set_mset T' = set_mset T" "\<And>g. g \<noteq> f \<Longrightarrow> count T' g = count T g"
  shows "finv ok T' W (s\<lparr>files := (files s)(f \<mapsto> fl')\<rparr>)"
proof -
  let ?s = "s\<lparr>files := (files s)(f \<mapsto> fl')\<rparr>"
  have "file_refs T' ?s = file_refs T s"
    using file_refs_upd [of f T ?s s] assms(3,4) by (simp add: vnode_of_def file_refs_def assms(7))
  moreover have "\<forall>g \<in># T'. \<exists>fl. files ?s g = Some fl \<and> f_refcount fl = int (count T' g) \<and> file_ok fl"
    using assms(1,5-8) unfolding finv_def by simp
  ultimately show ?thesis using assms(1,2,7) unfolding finv_def by simp
qed

text \<open>An open file to which there is no reference does not matter.\<close>

lemma finv_dead:
  assumes "finv ok T W s" "f \<notin># T" "ok (s\<lparr>files := (files s)(f := x)\<rparr>)"
  shows "finv ok T W (s\<lparr>files := (files s)(f := x)\<rparr>)"
proof -
  let ?s = "s\<lparr>files := (files s)(f := x)\<rparr>"
  have "file_refs T ?s = file_refs T s" using file_refs_upd [of f T ?s s] assms(2) by simp
  moreover have "\<forall>g \<in># T. g \<noteq> f" using assms(2) by auto
  ultimately show ?thesis using assms(1,3) unfolding finv_def by simp
qed

text \<open>The only reference to an open file stands for one to its vnode.\<close>

lemma finv_open_close:
  assumes "files s f = Some fl" "f_refcount fl = 1" "file_ok fl" "f \<notin># T" "f \<noteq> NULL"
  shows "finv ok (add_mset f T) W s \<longleftrightarrow> finv ok T (add_mset (f_vnode fl) W) s"
proof -
  have "file_refs (add_mset f T) s = add_mset (f_vnode fl) (file_refs T s)"
    using assms(1,4) by (simp add: file_refs_def vnode_of_def)
  moreover have "count (add_mset f T) g = count T g" if "g \<in># T" for g using that assms(4) by auto
  ultimately show ?thesis using assms by (auto simp: finv_def count_eq_zero_iff)
qed

section \<open>Paths\<close>

lemma namev_loop_eq:
  assumes "j = length (takeWhile (\<lambda>c. c \<noteq> CHR ''/'') rest)" "k = length (takeWhile (\<lambda>c. c = CHR ''/'') (drop j rest))"
  shows "namev_loop ops cfg base rest s =
    (if NAME_LEN cfg < j then do { s \<leftarrow> vput ops base s; Some (Inl ENAMETOOLONG, s) }
     else if drop (j + k) rest = [] then Some (Inr (base, rest, j), s)
     else do {
       (r, s) \<leftarrow> lookup ops base rest j s;
       s \<leftarrow> vput ops base s;
       (case r of Inl e \<Rightarrow> Some (Inl e, s) | Inr v \<Rightarrow> namev_loop ops cfg v (drop (j + k) rest) s)
     })"
  by (subst namev_loop.simps) (simp only: Let_def assms)

lemma namev_progress: "rest \<noteq> [] \<Longrightarrow> 0 < length (takeWhile (\<lambda>c. c \<noteq> CHR ''/'') rest) + length (takeWhile (\<lambda>c. c = CHR ''/'') (drop (length (takeWhile (\<lambda>c. c \<noteq> CHR ''/'') rest)) rest))"
  by (cases rest) auto

definition dir_gained :: "errno + addr \<times> string \<times> nat \<Rightarrow> addr multiset" where
  "dir_gained r = (case r of Inl _ \<Rightarrow> {#} | Inr (d, _, _) \<Rightarrow> {#d#})"

lemma dir_gained_simps [simp]: "dir_gained (Inl e) = {#}" "dir_gained (Inr (d, n, l)) = {#d#}"
  by (simp_all add: dir_gained_def)

section \<open>The interface of a file system\<close>

text \<open>
  \<open>ok\<close> is the invariant the file system keeps.  Looking up and creating give a reference to their result; every other
  operation leaves the references as they were.
\<close>

text \<open>What closing a file leaves alone.\<close>

definition same_proc :: "'x vfs \<Rightarrow> 'x vfs \<Rightarrow> bool" where
  "same_proc s s' \<longleftrightarrow> cur_files s' = cur_files s \<and> cur_cwd s' = cur_cwd s \<and> vfs_root_vn s' = vfs_root_vn s"

text \<open>The table of descriptors has its length, and there is a reference for each entry.\<close>

definition fds_in :: "vfs_config \<Rightarrow> addr multiset \<Rightarrow> 'x vfs \<Rightarrow> bool" where
  "fds_in cfg T s \<longleftrightarrow> length (cur_files s) = NFILES cfg \<and> (\<forall>f \<in> set (cur_files s). f \<noteq> NULL \<longrightarrow> f \<in># T)"

text \<open>
  The invariant of the system calls: \<open>E\<close> are the references to open files that other processes have, \<open>V\<close> the references to
  vnodes that are neither from an open file nor the working directory, the one to the root among them.
\<close>

definition opens :: "'x vfs \<Rightarrow> addr multiset" where
  "opens s = filter_mset (\<lambda>f. f \<noteq> NULL) (mset (cur_files s))"

definition vfs_inv :: "vfs_config \<Rightarrow> ('x vfs \<Rightarrow> bool) \<Rightarrow> addr multiset \<Rightarrow> addr multiset \<Rightarrow> 'x vfs \<Rightarrow> bool" where
  "vfs_inv cfg ok E V s \<longleftrightarrow> length (cur_files s) = NFILES cfg \<and> vfs_root_vn s \<in># V \<and>
     finv ok (E + opens s) (add_mset (cur_cwd s) V) s"

lemma vfs_invD:
  assumes "vfs_inv cfg ok E V s"
  shows "finv ok (E + opens s) (add_mset (cur_cwd s) V) s" "fds_in cfg (E + opens s) s" "vfs_root_vn s \<in># V"
  using assms by (auto simp: vfs_inv_def fds_in_def opens_def)

lemma vfs_inv_same:
  "vfs_inv cfg ok E V s \<Longrightarrow> finv ok (E + opens s) (add_mset (cur_cwd s) V) s' \<Longrightarrow> same_proc s s' \<Longrightarrow> vfs_inv cfg ok E V s'"
  by (simp add: vfs_inv_def same_proc_def opens_def)

lemma opens_clear:
  assumes "i < length (cur_files s)"
  shows "opens (s\<lparr>cur_files := (cur_files s)[i := NULL]\<rparr>) = opens s - {#cur_files s ! i#}"
  using assms by (auto simp: opens_def mset_update filter_diff_mset multiset_eq_iff)

lemma opens_set:
  assumes "i < length (cur_files s)" "cur_files s ! i = NULL" "f \<noteq> NULL"
  shows "opens (s\<lparr>cur_files := (cur_files s)[i := f]\<rparr>) = add_mset f (opens s)"
  using assms by (auto simp: opens_def mset_update multiset_eq_iff)

lemma opens_mem: "\<not> bad_fd cfg fd s \<Longrightarrow> length (cur_files s) = NFILES cfg \<Longrightarrow> cur_files s ! nat fd \<in># opens s"
  by (auto simp: opens_def bad_fd_def)

lemma empty_fd_first:
  "empty_fd fs ns = Inr n \<Longrightarrow> \<exists>i \<in> set ns. n = int i \<and> fs ! i = NULL"
  "empty_fd fs ns = Inl e \<Longrightarrow> e = EMFILE \<and> (\<forall>i \<in> set ns. fs ! i \<noteq> NULL)"
  by (induction ns) (auto split: if_splits)

lemma get_empty_fd_free:
  assumes "get_empty_fd cfg s = Inr n"
  shows "0 \<le> n \<and> nat n < NFILES cfg \<and> cur_files s ! nat n = NULL"
  using empty_fd_first(1) [of "cur_files s" "[0..<NFILES cfg]" n] assms by (auto simp: get_empty_fd_def)

text \<open>The modes of files fit in three bits.\<close>

definition modes_ok :: "vfs_config \<Rightarrow> bool" where
  "modes_ok cfg \<longleftrightarrow> list_all (\<lambda>m. 0 \<le> m \<and> m < 8) [FMODE_READ cfg, FMODE_WRITE cfg, FMODE_APPEND cfg]"

lemma open_mode_ok:
  assumes "modes_ok cfg" "open_mode cfg flags = Some m"
  shows "0 \<le> m \<and> m < 8"
proof -
  have "0 \<le> a OR b \<and> a OR b < 8" if "0 \<le> a" "a < 8" "0 \<le> b" "b < 8" for a b :: int
    using OR_upper [of a 3 b] that by simp
  then show ?thesis using assms by (auto simp: modes_ok_def open_mode_def split: if_splits)
qed

locale file_system =
  fixes ops :: "'x fs_ops" and ok :: "'x vfs \<Rightarrow> bool"
  assumes ok_vn: "ok s \<Longrightarrow> vn_ok s"
    and ok_files: "ok s \<Longrightarrow> ok (s\<lparr>files := F\<rparr>)"
    and ok_cur_files: "ok s \<Longrightarrow> ok (s\<lparr>cur_files := fs\<rparr>)"
    and ok_cur_cwd: "ok s \<Longrightarrow> ok (s\<lparr>cur_cwd := v\<rparr>)"
    and ok_vref: "ok s \<Longrightarrow> vref v s = Some s' \<Longrightarrow> ok s'"
    and ok_vput: "ok s \<Longrightarrow> 0 < refs s v \<Longrightarrow> \<exists>s'. vput ops v s = Some s' \<and> after ok s ((refs s)(v := refs s v - 1)) s'"
    and ok_file_alloc: "ok s \<Longrightarrow> file_alloc ops s = NULL \<or> files s (file_alloc ops s) = None"
    and ok_lookup: "ok s \<Longrightarrow> vop_lookup ops s d = Some op \<Longrightarrow> yields (op n l s) (\<lambda>(r, s'). after ok s (gain r (refs s)) s')"
    and ok_create: "ok s \<Longrightarrow> vop_create ops s d = Some op1 \<Longrightarrow> yields (op1 n l s) (\<lambda>(r, s'). after ok s (gain r (refs s)) s')"
    and ok_mknod: "ok s \<Longrightarrow> vop_mknod ops s d = Some op2 \<Longrightarrow> yields (op2 n l m i s) (\<lambda>(r, s'). after ok s (refs s) s')"
    and ok_link: "ok s \<Longrightarrow> vop_link ops s d = Some op3 \<Longrightarrow> yields (op3 v n l s) (\<lambda>(r, s'). after ok s (refs s) s')"
    and ok_unlink: "ok s \<Longrightarrow> vop_unlink ops s d = Some op4 \<Longrightarrow> yields (op4 n l s) (\<lambda>(r, s'). after ok s (refs s) s')"
    and ok_mkdir: "ok s \<Longrightarrow> vop_mkdir ops s d = Some op4 \<Longrightarrow> yields (op4 n l s) (\<lambda>(r, s'). after ok s (refs s) s')"
    and ok_rmdir: "ok s \<Longrightarrow> vop_rmdir ops s d = Some op4 \<Longrightarrow> yields (op4 n l s) (\<lambda>(r, s'). after ok s (refs s) s')"
    and ok_read: "ok s \<Longrightarrow> vop_read ops s d = Some op5 \<Longrightarrow> yields (op5 p l s) (\<lambda>(r, b, s'). after ok s (refs s) s')"
    and ok_write: "ok s \<Longrightarrow> vop_write ops s d = Some op6 \<Longrightarrow> yields (op6 p buf s) (\<lambda>(r, s'). after ok s (refs s) s')"
    and ok_readdir: "ok s \<Longrightarrow> vop_readdir ops s d = Some op7 \<Longrightarrow> yields (op7 p s) (\<lambda>(r, e, s'). after ok s (refs s) s')"
    and ok_stat: "ok s \<Longrightarrow> vop_stat ops s d = Some op8 \<Longrightarrow> yields (op8 s) (\<lambda>(r, st, s'). after ok s (refs s) s')"
begin

abbreviation inv :: "addr multiset \<Rightarrow> addr multiset \<Rightarrow> 'x vfs \<Rightarrow> bool" where
  "inv \<equiv> finv ok"

lemma vref_inv:
  assumes "inv T W s" "v \<in># W"
  shows "\<exists>s'. vref v s = Some s' \<and> inv T (add_mset v W) s' \<and> same_files s s'"
proof -
  have ok: "ok s" by (rule finvD(1) [OF assms(1)])
  obtain s' where s': "vref v s = Some s'" using vref_returns [OF ok_vn [OF ok] finv_refs_pos [OF assms]] by metis
  note r = vref_refs [OF ok_vn [OF ok] s']
  have "after ok s (gain (Inr v) (refs s)) s'" using ok_vref [OF ok s'] r by (simp add: after_def gain_def)
  from finv_gained [OF assms(1) this] show ?thesis using s' r(2) by simp
qed

lemma vput_inv:
  assumes "inv T W s" "v \<in># W"
  shows "\<exists>s'. vput ops v s = Some s' \<and> inv T (W - {#v#}) s' \<and> same_files s s'"
proof -
  obtain s' where s': "vput ops v s = Some s'" "after ok s ((refs s)(v := refs s v - 1)) s'"
    using ok_vput [OF finvD(1) [OF assms(1)] finv_refs_pos [OF assms]] by blast
  have c: "int (count W v - Suc 0) = int (count W v) - 1" using assms(2) by (simp add: of_nat_diff Suc_leI)
  have "inv T (W - {#v#}) s'" by (rule finv_after [OF assms(1) s'(2)]) (auto simp: c fun_eq_iff)
  then show ?thesis using s' by (simp add: after_def)
qed

lemma fref_inv:
  assumes "inv T W s" "f \<in># T"
  shows "\<exists>fl. files s f = Some fl \<and> fref f s = Some (s\<lparr>files := (files s)(f \<mapsto> fl\<lparr>f_refcount := f_refcount fl + 1\<rparr>)\<rparr>) \<and>
    inv (add_mset f T) W (s\<lparr>files := (files s)(f \<mapsto> fl\<lparr>f_refcount := f_refcount fl + 1\<rparr>)\<rparr>)"
proof -
  obtain fl where fl: "files s f = Some fl" "f_refcount fl = int (count T f)" "file_ok fl" "f \<noteq> NULL" by (rule finv_file [OF assms])
  have "inv (add_mset f T) W (s\<lparr>files := (files s)(f \<mapsto> fl\<lparr>f_refcount := f_refcount fl + 1\<rparr>)\<rparr>)"
    by (rule finv_upd_file [OF assms(1) ok_files [OF finvD(1) [OF assms(1)]] fl(1)]) (use fl assms(2) in \<open>auto simp: file_ok_def\<close>)
  then show ?thesis using fl by (auto simp: fref_def upd_file_def file_ok_def)
qed

lemma fput_inv:
  assumes inv: "inv T W s" and f: "f \<in># T"
  shows "\<exists>s'. fput ops f s = Some s' \<and> inv (T - {#f#}) W s' \<and> same_proc s s' \<and> (\<forall>g. g \<noteq> f \<longrightarrow> files s' g = files s g) \<and>
    (1 < count T f \<longrightarrow> (\<forall>fl. files s f = Some fl \<longrightarrow> files s' f = Some (fl\<lparr>f_refcount := f_refcount fl - 1\<rparr>)))"
proof -
  obtain fl where fl: "files s f = Some fl" "f_refcount fl = int (count T f)" "file_ok fl" "f \<noteq> NULL" by (rule finv_file [OF inv f])
  define fl' where "fl' = fl\<lparr>f_refcount := f_refcount fl - 1\<rparr>"
  define s1 where "s1 = s\<lparr>files := (files s)(f \<mapsto> fl')\<rparr>"
  have pos: "0 < f_refcount fl" using fl(2) f by simp
  have run: "fput ops f s = (if f_refcount fl = 1 then do { s \<leftarrow> vput ops (f_vnode fl) s1; Some (s\<lparr>files := (files s)(f := None)\<rparr>) } else Some s1)"
    using fl pos by (auto simp: fput_def upd_file_def file_ok_def s1_def fl'_def)
  have c: "int (count T f - Suc 0) = int (count T f) - 1" using f by (simp add: of_nat_diff Suc_leI)
  show ?thesis
  proof (cases "f_refcount fl = 1")
    case True
    then have nin: "f \<notin># T - {#f#}" using fl(2) by (simp add: not_in_iff)
    obtain v where v: "v = f_vnode fl" by simp
    have "inv (T - {#f#}) (add_mset v W) s" using finv_open_close [OF fl(1) True fl(3) nin fl(4), of ok W] inv f v by simp
    then have "inv (T - {#f#}) (add_mset v W) s1" using finv_dead [of ok "T - {#f#}" "add_mset v W" s f "Some fl'"] nin ok_files finvD(1)
      unfolding s1_def by blast
    from vput_inv [OF this, of v] obtain s2 where s2: "vput ops v s1 = Some s2" "inv (T - {#f#}) W s2" "same_files s1 s2" by auto
    have "inv (T - {#f#}) W (s2\<lparr>files := (files s2)(f := None)\<rparr>)" using finv_dead [of ok "T - {#f#}" W s2 f None] s2(2) nin ok_files finvD(1) by blast
    then show ?thesis using run True v s2 fl(2) by (auto simp: same_files_def same_proc_def s1_def)
  next
    case False
    have "count T f \<noteq> 0" "count T f \<noteq> 1" using False fl(2) f by auto
    then have "1 < count T f" by linarith
    then have s: "set_mset (T - {#f#}) = set_mset T" using f by (auto simp: in_diff_count split: if_splits)
    have "inv (T - {#f#}) W s1" unfolding s1_def
      by (rule finv_upd_file [OF inv ok_files [OF finvD(1) [OF inv]] fl(1)]) (use fl s c in \<open>auto simp: fl'_def file_ok_def\<close>)
    then show ?thesis using run False fl(1) by (auto simp: same_proc_def s1_def fl'_def)
  qed
qed

text \<open>The rules with which the system calls are followed.\<close>

lemma vput_y:
  assumes "inv T W s" "v \<in># W" "\<And>s'. inv T (W - {#v#}) s' \<Longrightarrow> same_files s s' \<Longrightarrow> Q s'"
  shows "yields (vput ops v s) Q"
  using vput_inv [OF assms(1,2)] assms(3) by (auto simp: yields_def)

lemma lookup_y:
  assumes inv: "inv T W s" and Q: "\<And>r s'. inv T (gained r + W) s' \<Longrightarrow> same_files s s' \<Longrightarrow> Q (r, s')"
  shows "yields (lookup ops d n l s) Q"
proof (rule yieldsI)
  fix x assume x: "lookup ops d n l s = Some x"
  note ok = finvD(1) [OF inv]
  obtain r s' where rs: "x = (r, s')" by (cases x)
  have "after ok s (gain r (refs s)) s'"
  proof (cases "\<exists>s1. vref d s = Some s1 \<and> r = Inr d \<and> s' = s1")
    case True
    then show ?thesis using vref_refs [OF ok_vn [OF ok]] ok_vref [OF ok] by (auto simp: after_def gain_def)
  next
    case False
    then have "r = Inl ENOTDIR \<and> s' = s \<or> (\<exists>op. vop_lookup ops s d = Some op \<and> op n l s = Some (r, s'))"
      using x unfolding lookup_def rs by (auto simp: bind_eq_Some_conv split: if_splits option.splits)
    then show ?thesis using yieldsD [OF ok_lookup [OF ok]] ok by (fastforce simp: after_def gain_def)
  qed
  then show "Q x" using Q finv_gained [OF inv] by (auto simp: rs after_def)
qed

lemma namev_loop_y:
  "inv T (add_mset base W) s \<Longrightarrow> yields (namev_loop ops cfg base rest s) (\<lambda>(r, s'). inv T (dir_gained r + W) s' \<and> same_files s s')"
proof (induction rest arbitrary: base s rule: measure_induct_rule [of length])
  case (less rest)
  define j where "j = length (takeWhile (\<lambda>c. c \<noteq> CHR ''/'') rest)"
  define k where "k = length (takeWhile (\<lambda>c. c = CHR ''/'') (drop j rest))"
  have IH: "yields (namev_loop ops cfg v (drop (j + k) rest) s') (\<lambda>(r, s''). inv T (dir_gained r + W) s'' \<and> same_files s s'')"
    if "drop (j + k) rest \<noteq> []" "inv T (add_mset v W) s'" "same_files s s'" for v s'
  proof -
    have "length (drop (j + k) rest) < length rest" using that(1) namev_progress [of rest] unfolding j_def [symmetric] k_def [symmetric] by (cases rest) auto
    from less.IH [OF this that(2)] show ?thesis by (rule yields_mono) (use that(3) same_files_trans in blast)
  qed
  show ?case unfolding namev_loop_eq [OF j_def k_def]
  proof (simp only: yields_if yields_simps, intro conjI impI, goal_cases)
    case 1
    show ?case by (rule vput_y [OF less.prems]) auto
  next
    case 2
    then show ?case using less.prems by simp
  next
    case 3
    show ?case
    proof (rule lookup_y [OF less.prems], simp, rule vput_y, assumption)
      fix r s' s'' assume "inv T (add_mset base (gained r + W) - {#base#}) s''" "same_files s s'" "same_files s' s''"
      then show "yields (case r of Inl e \<Rightarrow> Some (Inl e, s'') | Inr v \<Rightarrow> namev_loop ops cfg v (drop (j + k) rest) s'')
          (\<lambda>(r, s'). inv T (dir_gained r + W) s' \<and> same_files s s')"
        using IH [OF 3(2)] same_files_trans [of s s' s''] by (cases r) auto
    qed simp
  qed
qed

lemma vnodes_y: "(\<And>vn. vnodes s v = Some vn \<Longrightarrow> Q vn) \<Longrightarrow> yields (vnodes s v) Q"
  by (rule yieldsI)

lemma create_y:
  assumes "inv T W s" "\<And>r s'. inv T (gained r + W) s' \<Longrightarrow> same_files s s' \<Longrightarrow> Q (r, s')"
  shows "yields (vop_create ops s d) (\<lambda>op. yields (op n l s) Q)"
proof (rule yieldsI)
  fix op assume "vop_create ops s d = Some op"
  from ok_create [OF finvD(1) [OF assms(1)] this] show "yields (op n l s) Q"
    by (rule yields_mono) (use assms(2) finv_gained [OF assms(1)] in \<open>auto simp: after_def\<close>)
qed

lemma mknod_y:
  assumes "inv T W s" "\<And>r s'. inv T (W) s' \<Longrightarrow> same_files s s' \<Longrightarrow> Q (r, s')"
  shows "yields (vop_mknod ops s d) (\<lambda>op. yields (op n l m i s) Q)"
proof (rule yieldsI)
  fix op assume "vop_mknod ops s d = Some op"
  from ok_mknod [OF finvD(1) [OF assms(1)] this] show "yields (op n l m i s) Q"
    by (rule yields_mono) (use assms(2) finv_same [OF assms(1)] in \<open>auto simp: after_def\<close>)
qed

lemma link_y:
  assumes "inv T W s" "\<And>r s'. inv T (W) s' \<Longrightarrow> same_files s s' \<Longrightarrow> Q (r, s')"
  shows "yields (vop_link ops s d) (\<lambda>op. yields (op v n l s) Q)"
proof (rule yieldsI)
  fix op assume "vop_link ops s d = Some op"
  from ok_link [OF finvD(1) [OF assms(1)] this] show "yields (op v n l s) Q"
    by (rule yields_mono) (use assms(2) finv_same [OF assms(1)] in \<open>auto simp: after_def\<close>)
qed

lemma unlink_y:
  assumes "inv T W s" "\<And>r s'. inv T (W) s' \<Longrightarrow> same_files s s' \<Longrightarrow> Q (r, s')"
  shows "yields (vop_unlink ops s d) (\<lambda>op. yields (op n l s) Q)"
proof (rule yieldsI)
  fix op assume "vop_unlink ops s d = Some op"
  from ok_unlink [OF finvD(1) [OF assms(1)] this] show "yields (op n l s) Q"
    by (rule yields_mono) (use assms(2) finv_same [OF assms(1)] in \<open>auto simp: after_def\<close>)
qed

lemma mkdir_y:
  assumes "inv T W s" "\<And>r s'. inv T (W) s' \<Longrightarrow> same_files s s' \<Longrightarrow> Q (r, s')"
  shows "yields (vop_mkdir ops s d) (\<lambda>op. yields (op n l s) Q)"
proof (rule yieldsI)
  fix op assume "vop_mkdir ops s d = Some op"
  from ok_mkdir [OF finvD(1) [OF assms(1)] this] show "yields (op n l s) Q"
    by (rule yields_mono) (use assms(2) finv_same [OF assms(1)] in \<open>auto simp: after_def\<close>)
qed

lemma rmdir_y:
  assumes "inv T W s" "\<And>r s'. inv T (W) s' \<Longrightarrow> same_files s s' \<Longrightarrow> Q (r, s')"
  shows "yields (vop_rmdir ops s d) (\<lambda>op. yields (op n l s) Q)"
proof (rule yieldsI)
  fix op assume "vop_rmdir ops s d = Some op"
  from ok_rmdir [OF finvD(1) [OF assms(1)] this] show "yields (op n l s) Q"
    by (rule yields_mono) (use assms(2) finv_same [OF assms(1)] in \<open>auto simp: after_def\<close>)
qed

lemma write_y:
  assumes "inv T W s" "\<And>r s'. inv T (W) s' \<Longrightarrow> same_files s s' \<Longrightarrow> Q (r, s')"
  shows "yields (vop_write ops s d) (\<lambda>op. yields (op p buf s) Q)"
proof (rule yieldsI)
  fix op assume "vop_write ops s d = Some op"
  from ok_write [OF finvD(1) [OF assms(1)] this] show "yields (op p buf s) Q"
    by (rule yields_mono) (use assms(2) finv_same [OF assms(1)] in \<open>auto simp: after_def\<close>)
qed

lemma read_y:
  assumes "inv T W s" "\<And>r b s'. inv T (W) s' \<Longrightarrow> same_files s s' \<Longrightarrow> Q (r, b, s')"
  shows "yields (vop_read ops s d) (\<lambda>op. yields (op p l s) Q)"
proof (rule yieldsI)
  fix op assume "vop_read ops s d = Some op"
  from ok_read [OF finvD(1) [OF assms(1)] this] show "yields (op p l s) Q"
    by (rule yields_mono) (use assms(2) finv_same [OF assms(1)] in \<open>auto simp: after_def\<close>)
qed

lemma readdir_y:
  assumes "inv T W s" "\<And>r e s'. inv T (W) s' \<Longrightarrow> same_files s s' \<Longrightarrow> Q (r, e, s')"
  shows "yields (vop_readdir ops s d) (\<lambda>op. yields (op p s) Q)"
proof (rule yieldsI)
  fix op assume "vop_readdir ops s d = Some op"
  from ok_readdir [OF finvD(1) [OF assms(1)] this] show "yields (op p s) Q"
    by (rule yields_mono) (use assms(2) finv_same [OF assms(1)] in \<open>auto simp: after_def\<close>)
qed

lemma stat_y:
  assumes "inv T W s" "\<And>r st s'. inv T (W) s' \<Longrightarrow> same_files s s' \<Longrightarrow> Q (r, st, s')"
  shows "yields (vop_stat ops s d) (\<lambda>op. yields (op s) Q)"
proof (rule yieldsI)
  fix op assume "vop_stat ops s d = Some op"
  from ok_stat [OF finvD(1) [OF assms(1)] this] show "yields (op s) Q"
    by (rule yields_mono) (use assms(2) finv_same [OF assms(1)] in \<open>auto simp: after_def\<close>)
qed

lemma dir_namev_y:
  assumes inv: "inv T W s" and W: "cur_cwd s \<in># W" "vfs_root_vn s \<in># W"
    and Q: "\<And>r s'. inv T (dir_gained r + W) s' \<Longrightarrow> same_files s s' \<Longrightarrow> Q (r, s')"
  shows "yields (dir_namev ops cfg path NULL s) Q"
proof -
  define base where "base = (if hd path = CHR ''/'' then vfs_root_vn s else cur_cwd s)"
  define rest where "rest = (if hd path = CHR ''/'' then dropWhile (\<lambda>c. c = CHR ''/'') path else path)"
  have "base \<in># W" using W by (simp add: base_def)
  then obtain s1 where s1: "vref base s = Some s1" "inv T (add_mset base W) s1" "same_files s s1" using vref_inv [OF inv] by blast
  have run: "dir_namev ops cfg path NULL s =
     (if path = [] then Some (Inl EINVAL, s)
      else if MAXPATHLEN cfg < length path then Some (Inl ENAMETOOLONG, s)
      else do {
        (r, s) \<leftarrow> namev_loop ops cfg base rest s1;
        (case r of Inl e \<Rightarrow> Some (Inl e, s)
         | Inr (base, name, namelen) \<Rightarrow> do {
             vn \<leftarrow> vnodes s base;
             if \<not> S_ISDIR (vn_mode vn) then do { s \<leftarrow> vput ops base s; Some (Inl ENOTDIR, s) }
             else Some (Inr (base, name, namelen), s)
           })
      })"
    using s1(1) by (auto simp: dir_namev_def base_def rest_def)
  show ?thesis unfolding run
  proof (simp only: yields_if yields_simps, intro conjI impI, goal_cases)
    case 3
    show ?case
    proof (rule yields_mono [OF namev_loop_y [OF s1(2)]], clarify)
      fix r s2 assume s2: "inv T (dir_gained r + W) s2" "same_files s1 s2"
      note sf = same_files_trans [OF s1(3) s2(2)]
      show "yields (case r of Inl e \<Rightarrow> Some (Inl e, s2)
         | Inr (base, name, namelen) \<Rightarrow> do {
             vn \<leftarrow> vnodes s2 base;
             if \<not> S_ISDIR (vn_mode vn) then do { s \<leftarrow> vput ops base s2; Some (Inl ENOTDIR, s) }
             else Some (Inr (base, name, namelen), s2)
           }) Q"
        using s2(1) sf by (cases r) (auto simp: yields_if intro!: vnodes_y Q elim!: vput_y dest: same_files_trans)
    qed
  qed (use Q inv in auto)
qed

lemma open_namev_y:
  assumes inv: "inv T W s" and W: "cur_cwd s \<in># W" "vfs_root_vn s \<in># W"
    and Q: "\<And>r s'. inv T (gained r + W) s' \<Longrightarrow> same_files s s' \<Longrightarrow> Q (r, s')"
  shows "yields (open_namev ops cfg path flag NULL s) Q"
  unfolding open_namev_def yields_simps
proof (rule dir_namev_y [OF inv W], clarify)
  fix r s1 assume s1: "inv T (dir_gained r + W) s1" "same_files s s1"
  show "yields (case r of Inl e \<Rightarrow> Some (Inl e, s1)
      | Inr (parent, name, len) \<Rightarrow> do {
          (r, s) \<leftarrow> lookup ops parent name len s1;
          (case r of
             Inr v \<Rightarrow> do { s \<leftarrow> vput ops parent s; Some (Inr v, s) }
           | Inl e \<Rightarrow>
               if e \<noteq> ENOENT then do { s \<leftarrow> vput ops parent s; Some (Inl e, s) }
               else if flag AND O_CREAT cfg \<noteq> 0 then do {
                 create \<leftarrow> vop_create ops s parent;
                 (r, s) \<leftarrow> create name len s;
                 s \<leftarrow> vput ops parent s;
                 Some (r, s)
               }
               else do { s \<leftarrow> vput ops parent s; Some (Inl ENOENT, s) })
        }) Q"
    using s1 by (cases r) (auto simp: yields_if same_files_def split: sum.split intro!: Q elim!: vput_y lookup_y create_y)
qed

section \<open>The system calls on names\<close>

lemmas call_rules = vput_y lookup_y dir_namev_y open_namev_y mknod_y link_y unlink_y mkdir_y rmdir_y stat_y

lemma do_mknod_y:
  assumes "inv T W s" "cur_cwd s \<in># W" "vfs_root_vn s \<in># W"
  shows "yields (do_mknod ops cfg path m i s) (\<lambda>(r, s'). inv T W s' \<and> same_files s s')"
  using assms by (auto simp: do_mknod_def yields_if same_files_def split: sum.split intro!: vnodes_y elim!: call_rules)

lemma do_mkdir_y:
  assumes "inv T W s" "cur_cwd s \<in># W" "vfs_root_vn s \<in># W"
  shows "yields (do_mkdir ops cfg path s) (\<lambda>(r, s'). inv T W s' \<and> same_files s s')"
  using assms by (auto simp: do_mkdir_def yields_if same_files_def split: sum.split intro!: vnodes_y elim!: call_rules)

lemma do_rmdir_y:
  assumes "inv T W s" "cur_cwd s \<in># W" "vfs_root_vn s \<in># W"
  shows "yields (do_rmdir ops cfg path s) (\<lambda>(r, s'). inv T W s' \<and> same_files s s')"
  using assms by (auto simp: do_rmdir_def same_files_def split: sum.split intro!: yields_ifI vnodes_y elim!: call_rules)

lemma do_unlink_y:
  assumes "inv T W s" "cur_cwd s \<in># W" "vfs_root_vn s \<in># W"
  shows "yields (do_unlink ops cfg path s) (\<lambda>(r, s'). inv T W s' \<and> same_files s s')"
  using assms by (auto simp: do_unlink_def same_files_def split: sum.split intro!: yields_ifI vnodes_y elim!: call_rules)

lemma do_stat_y:
  assumes "inv T W s" "cur_cwd s \<in># W" "vfs_root_vn s \<in># W"
  shows "yields (do_stat ops cfg path s) (\<lambda>(r, st, s'). inv T W s' \<and> same_files s s')"
  using assms by (auto simp: do_stat_def yields_if same_files_def split: sum.split intro!: vnodes_y elim!: call_rules)

lemma inv_cur_cwd: "inv T W s \<Longrightarrow> inv T W (s\<lparr>cur_cwd := v\<rparr>)"
  using ok_cur_cwd by (simp add: finv_def file_refs_def vnode_of_def cong: image_mset_cong)

lemma inv_cur_files: "inv T W s \<Longrightarrow> inv T W (s\<lparr>cur_files := fs\<rparr>)"
  using ok_cur_files by (simp add: finv_def file_refs_def vnode_of_def cong: image_mset_cong)

text \<open>The reference to the working directory moves from the old one to the new one.\<close>

lemma do_chdir_y:
  assumes "inv T (add_mset (cur_cwd s) W) s" "vfs_root_vn s \<in># W"
  shows "yields (do_chdir ops cfg path s) (\<lambda>(r, s'). inv T (add_mset (cur_cwd s') W) s' \<and>
    files s' = files s \<and> cur_files s' = cur_files s \<and> vfs_root_vn s' = vfs_root_vn s)"
  using assms by (auto simp: do_chdir_def yields_if same_files_def split: sum.split intro!: vnodes_y inv_cur_cwd elim!: call_rules)

text \<open>Linking, when the first path is found and the call succeeds.\<close>

lemma do_link_y:
  assumes "inv T W s" "cur_cwd s \<in># W" "vfs_root_vn s \<in># W" "open_namev ops cfg from 0 NULL s = Some (Inr v, s1)"
  shows "yields (do_link ops cfg junk from to s) (\<lambda>(r, s'). (\<exists>n. r = Inr n) \<longrightarrow> inv T W s' \<and> same_files s s')"
proof -
  have "inv T (add_mset v W) s1 \<and> same_files s s1" using yieldsD [OF open_namev_y [OF assms(1-3), of "\<lambda>(r, s'). inv T (gained r + W) s' \<and> same_files s s'"] assms(4)] by simp
  then show ?thesis using assms(2-4)
    by (auto simp: do_link_def yields_if same_files_def split: sum.split intro!: vnodes_y elim!: call_rules)
qed

section \<open>The system calls on descriptors\<close>

lemma fput_y:
  assumes "inv T W s" "f \<in># T" "\<And>s'. inv (T - {#f#}) W s' \<Longrightarrow> same_proc s s' \<Longrightarrow> Q s'"
  shows "yields (fput ops f s) Q"
  using fput_inv [OF assms(1,2)] assms(3) by (auto simp: yields_def)

lemma fds_inD: "fds_in cfg T s \<Longrightarrow> \<not> bad_fd cfg fd s \<Longrightarrow> cur_files s ! nat fd \<in># T"
  by (auto simp: fds_in_def bad_fd_def)

lemma fget_y:
  assumes "inv T W s" "fds_in cfg T s" "fd \<noteq> - 1" "bad_fd cfg fd s \<Longrightarrow> Q (NULL, s)"
    and "\<And>s'. cur_files s ! nat fd \<in># T \<Longrightarrow> cur_files s ! nat fd \<noteq> NULL \<Longrightarrow> inv (add_mset (cur_files s ! nat fd) T) W s' \<Longrightarrow> same_proc s s' \<Longrightarrow> Q (cur_files s ! nat fd, s')"
  shows "yields (fget ops cfg fd s) Q"
proof (cases "bad_fd cfg fd s")
  case True
  then show ?thesis using assms(3,4) by (auto simp: fget_def bad_fd_def Let_def)
next
  case False
  let ?f = "cur_files s ! nat fd"
  have f: "?f \<in># T" by (rule fds_inD [OF assms(2) False])
  obtain fl where "files s ?f = Some fl" "?f \<noteq> NULL" using finv_file [OF assms(1) f] by metis
  then show ?thesis using fref_inv [OF assms(1) f] assms(3,5) False f
    by (auto simp: fget_def bad_fd_def Let_def same_proc_def)
qed

text \<open>Storing a position and putting the file: that \<open>fput\<close> goes through shows that the position is allowed.\<close>

lemma set_pos_fput_y:
  assumes "inv T W s" "f \<in># T" "\<And>s'. inv (T - {#f#}) W s' \<Longrightarrow> same_proc s s' \<Longrightarrow> Q s'"
  shows "yields (upd_file f (\<lambda>fl. fl\<lparr>f_pos := p fl\<rparr>) s) (\<lambda>s. yields (fput ops f s) Q)"
proof -
  obtain fl where fl: "files s f = Some fl" "f_refcount fl = int (count T f)" "file_ok fl" "f \<noteq> NULL" by (rule finv_file [OF assms(1,2)])
  let ?fl = "fl\<lparr>f_pos := p fl\<rparr>" let ?s = "s\<lparr>files := (files s)(f \<mapsto> ?fl)\<rparr>"
  have "yields (fput ops f ?s) Q"
  proof (cases "- 1 \<le> p fl")
    case True
    have "inv T W ?s" by (rule finv_upd_file [OF assms(1) ok_files [OF finvD(1) [OF assms(1)]] fl(1)]) (use fl True in \<open>auto simp: file_ok_def\<close>)
    then show ?thesis by (rule fput_y [OF _ assms(2)]) (use assms(3) in \<open>simp add: same_proc_def\<close>)
  next
    case False
    then have "fput ops f ?s = None" by (simp add: fput_def)
    then show ?thesis by simp
  qed
  then show ?thesis by (simp add: upd_file_def fl(1))
qed

lemma files_y: "(\<And>fl. files s f = Some fl \<Longrightarrow> Q fl) \<Longrightarrow> yields (files s f) Q"
  by (rule yieldsI)

lemma fds_in_mono: "fds_in cfg T s \<Longrightarrow> same_proc s s' \<Longrightarrow> fds_in cfg (add_mset f T) s'" "fds_in cfg T s \<Longrightarrow> same_proc s s' \<Longrightarrow> fds_in cfg T s'"
  by (auto simp: fds_in_def same_proc_def)

lemma same_files_proc: "same_files s s' \<Longrightarrow> same_proc s s'"
  by (simp add: same_files_def same_proc_def)

lemma do_lseek_y:
  assumes "inv T W s" "fds_in cfg T s" "\<And>r s'. inv T W s' \<Longrightarrow> same_proc s s' \<Longrightarrow> Q (r, s')"
  shows "yields (do_lseek ops cfg fd offset wh s) Q"
proof -
  have "yields (do_lseek ops cfg fd offset wh s) (\<lambda>(r, s'). inv T W s' \<and> same_proc s s')"
    unfolding do_lseek_def
  proof (intro yields_ifI, goal_cases)
    case 3
    then have "fd \<noteq> - 1" by (auto simp: bad_fd_def)
    show ?case unfolding yields_simps
    proof (rule fget_y [OF assms(1,2) \<open>fd \<noteq> - 1\<close>], goal_cases)
      case 1
      then show ?case using 3(1) by simp
    next
      case (2 s1)
      define f where "f = cur_files s ! nat fd"
      have *: "yields (if p < 0 then do { s \<leftarrow> fput ops f s1; Some (Inl EINVAL, s) }
        else do {
          s \<leftarrow> upd_file f (\<lambda>fl. fl\<lparr>f_pos := p\<rparr>) s1;
          s \<leftarrow> fput ops f s;
          fl \<leftarrow> files s f;
          Some (Inr (f_pos fl), s)
        }) (\<lambda>(r, s'). inv T W s' \<and> same_proc s s')" for p
        using 2 unfolding f_def [symmetric] by (auto simp: same_proc_def intro!: yields_ifI files_y elim!: fput_y set_pos_fput_y)
      show ?case using * unfolding f_def [symmetric] by (auto split: whence.split intro!: files_y vnodes_y simp del: if_split)
    qed
  qed (use assms(1) in \<open>auto simp: same_proc_def\<close>)
  then show ?thesis using assms(3) by (auto simp: yields_def)
qed

lemma do_read_y:
  assumes "inv T W s" "fds_in cfg T s"
  shows "yields (do_read ops cfg fd n s) (\<lambda>(r, buf, s'). inv T W s' \<and> same_proc s s')"
  unfolding do_read_def
proof (intro yields_ifI, goal_cases)
  case 2
  then have "fd \<noteq> - 1" by (auto simp: bad_fd_def)
  show ?case unfolding yields_simps
  proof (rule fget_y [OF assms \<open>fd \<noteq> - 1\<close>], goal_cases)
    case 1
    then show ?case using 2 by simp
  next
    case (2 s1)
    define f where "f = cur_files s ! nat fd"
    show ?case using 2 unfolding f_def [symmetric]
      by (auto simp: same_proc_def same_files_def split: sum.split intro!: yields_ifI files_y vnodes_y elim!: fput_y set_pos_fput_y read_y)
  qed
qed (use assms(1) in \<open>auto simp: same_proc_def\<close>)

lemma do_getdent_y:
  assumes "inv T W s" "fds_in cfg T s"
  shows "yields (do_getdent ops cfg fd s) (\<lambda>(r, d, s'). inv T W s' \<and> same_proc s s')"
  unfolding do_getdent_def
proof (intro yields_ifI, goal_cases)
  case 2
  then have "fd \<noteq> - 1" by (auto simp: bad_fd_def)
  show ?case unfolding yields_simps
  proof (rule fget_y [OF assms \<open>fd \<noteq> - 1\<close>], goal_cases)
    case 1
    then show ?case using 2 by simp
  next
    case (2 s1)
    define f where "f = cur_files s ! nat fd"
    show ?case using 2 unfolding f_def [symmetric]
      by (auto simp: same_proc_def same_files_def split: sum.split intro!: yields_ifI files_y vnodes_y elim!: fput_y set_pos_fput_y readdir_y)
  qed
qed (use assms(1) in \<open>auto simp: same_proc_def\<close>)

lemma do_write_y:
  assumes "inv T W s" "fds_in cfg T s"
  shows "yields (do_write ops cfg fd buf s) (\<lambda>(r, s'). inv T W s' \<and> same_proc s s')"
  unfolding do_write_def
proof (intro yields_ifI, goal_cases)
  case 2
  then have "fd \<noteq> - 1" by auto
  show ?case unfolding yields_simps
  proof (rule fget_y [OF assms \<open>fd \<noteq> - 1\<close>], goal_cases)
    case 1
    show ?case using assms(1) by (simp add: same_proc_def)
  next
    case (2 s1)
    define f where "f = cur_files s ! nat fd"
    have fds: "length (cur_files s) = NFILES cfg" "\<forall>f \<in> set (cur_files s). f \<noteq> NULL \<longrightarrow> f \<in># T" using assms(2) by (simp_all add: fds_in_def)
    show ?case using 2 fds unfolding f_def [symmetric]
      by (auto simp: same_proc_def same_files_def fds_in_def split: sum.split intro!: yields_ifI files_y vnodes_y elim!: fput_y set_pos_fput_y write_y do_lseek_y)
  qed
qed (use assms(1) in \<open>auto simp: same_proc_def\<close>)

end

end
