(* ===== verification/Vfs_Inv.thy ===== *)
theory Vfs_Inv
  imports Vfs_Refs
begin

text \<open>
  The table of descriptors, and the invariant of reference counts over all system calls on files.
\<close>

text \<open>
  A system call of the current process.  A link is followed if the first path is found and the call succeeds: see
  \<open>link_leaks\<close> for the other case.
\<close>

inductive vfs_call :: "'x fs_ops \<Rightarrow> vfs_config \<Rightarrow> 'x vfs \<Rightarrow> 'x vfs \<Rightarrow> bool" for ops cfg where
  call_open: "do_open ops cfg path flags s = Some (r, s') \<Longrightarrow> vfs_call ops cfg s s'"
| call_read: "do_read ops cfg fd n s = Some (r, buf, s') \<Longrightarrow> vfs_call ops cfg s s'"
| call_write: "do_write ops cfg fd buf s = Some (r, s') \<Longrightarrow> vfs_call ops cfg s s'"
| call_close: "do_close ops cfg fd s = Some (r, s') \<Longrightarrow> vfs_call ops cfg s s'"
| call_dup: "do_dup ops cfg fd s = Some (r, s') \<Longrightarrow> vfs_call ops cfg s s'"
| call_dup2: "do_dup2 ops cfg ofd nfd s = Some (r, s') \<Longrightarrow> vfs_call ops cfg s s'"
| call_lseek: "do_lseek ops cfg fd offset wh s = Some (r, s') \<Longrightarrow> vfs_call ops cfg s s'"
| call_mknod: "do_mknod ops cfg path m i s = Some (r, s') \<Longrightarrow> vfs_call ops cfg s s'"
| call_mkdir: "do_mkdir ops cfg path s = Some (r, s') \<Longrightarrow> vfs_call ops cfg s s'"
| call_rmdir: "do_rmdir ops cfg path s = Some (r, s') \<Longrightarrow> vfs_call ops cfg s s'"
| call_unlink: "do_unlink ops cfg path s = Some (r, s') \<Longrightarrow> vfs_call ops cfg s s'"
| call_link: "open_namev ops cfg from 0 NULL s = Some (Inr v, s1) \<Longrightarrow> do_link ops cfg junk from to s = Some (Inr n, s') \<Longrightarrow> vfs_call ops cfg s s'"
| call_chdir: "do_chdir ops cfg path s = Some (r, s') \<Longrightarrow> vfs_call ops cfg s s'"
| call_getdent: "do_getdent ops cfg fd s = Some (r, d, s') \<Longrightarrow> vfs_call ops cfg s s'"
| call_stat: "do_stat ops cfg path s = Some (r, st, s') \<Longrightarrow> vfs_call ops cfg s s'"

context file_system
begin

section \<open>The table of descriptors\<close>

lemma fget_vfs:
  assumes inv: "vfs_inv cfg ok E V s" and fd: "\<not> bad_fd cfg fd s"
  obtains s' where "fget ops cfg fd s = Some (cur_files s ! nat fd, s')" "vfs_inv cfg ok (add_mset (cur_files s ! nat fd) E) V s'"
    "same_proc s s'" "cur_files s ! nat fd \<noteq> NULL"
proof -
  let ?f = "cur_files s ! nat fd"
  have f: "?f \<in># E + opens s" by (rule fds_inD [OF vfs_invD(2) [OF inv] fd])
  obtain s' where s': "fref ?f s = Some s'" "inv (add_mset ?f (E + opens s)) (add_mset (cur_cwd s) V) s'" "same_proc s s'"
    using fref_inv [OF vfs_invD(1) [OF inv] f] by (auto simp: same_proc_def)
  have nn: "?f \<noteq> NULL" using fd by (simp add: bad_fd_def)
  have "fget ops cfg fd s = Some (?f, s')" using fd s'(1) by (auto simp: fget_def bad_fd_def Let_def)
  moreover have "vfs_inv cfg ok (add_mset ?f E) V s'" using inv s'(2,3) by (simp add: vfs_inv_def same_proc_def opens_def)
  ultimately show thesis using that s'(3) nn by blast
qed

lemma fput_vfs:
  assumes inv: "vfs_inv cfg ok (add_mset f E) V s"
  obtains s' where "fput ops f s = Some s'" "vfs_inv cfg ok E V s'" "same_proc s s'"
proof -
  obtain s' where s': "fput ops f s = Some s'" "inv (E + opens s) (add_mset (cur_cwd s) V) s'" "same_proc s s'"
    using fput_inv [OF vfs_invD(1) [OF inv], of f] by auto
  then show thesis using that [OF s'(1) _ s'(3)] inv by (simp add: vfs_inv_def same_proc_def opens_def)
qed

lemma do_close_vfs:
  assumes inv: "vfs_inv cfg ok E V s"
  shows "\<exists>r s'. do_close ops cfg fd s = Some (r, s') \<and> vfs_inv cfg ok E V s' \<and>
    (bad_fd cfg fd s \<longrightarrow> r = Inl EBADF \<and> s' = s) \<and>
    (\<not> bad_fd cfg fd s \<longrightarrow> r = Inr 0 \<and> cur_files s' = (cur_files s)[nat fd := NULL])"
proof (cases "bad_fd cfg fd s")
  case True
  then show ?thesis using inv by (simp add: do_close_def)
next
  case False
  let ?f = "cur_files s ! nat fd"
  have len: "length (cur_files s) = NFILES cfg" "nat fd < length (cur_files s)" using inv False by (auto simp: vfs_inv_def bad_fd_def)
  have f: "?f \<in># opens s" by (rule opens_mem [OF False len(1)])
  obtain s' where s': "fput ops ?f s = Some s'" "inv (E + opens s - {#?f#}) (add_mset (cur_cwd s) V) s'" "same_proc s s'"
    using fput_inv [OF vfs_invD(1) [OF inv], of ?f] f by auto
  let ?t = "s'\<lparr>cur_files := (cur_files s')[nat fd := NULL]\<rparr>"
  have cf: "cur_files s' = cur_files s" using s'(3) by (simp add: same_proc_def)
  have "opens ?t = opens s - {#?f#}" using opens_clear [of "nat fd" s'] len cf by (simp add: opens_def)
  then have "E + opens ?t = E + opens s - {#?f#}" using multiset_diff_union_assoc [of "{#?f#}" "opens s" E] f by (metis mset_subset_eq_single)
  then have "vfs_inv cfg ok E V ?t" using inv_cur_files [OF s'(2)] inv s'(3) len by (simp add: vfs_inv_def same_proc_def)
  then show ?thesis using False s'(1) cf by (simp add: do_close_def)
qed

lemma install_vfs:
  assumes inv: "vfs_inv cfg ok (add_mset f E) V s" and "f \<noteq> NULL" "i < NFILES cfg" "cur_files s ! i = NULL"
  shows "vfs_inv cfg ok E V (s\<lparr>cur_files := (cur_files s)[i := f]\<rparr>)"
proof -
  have "opens (s\<lparr>cur_files := (cur_files s)[i := f]\<rparr>) = add_mset f (opens s)"
    using opens_set [of i s f] assms by (simp add: vfs_inv_def)
  then show ?thesis using inv_cur_files [OF vfs_invD(1) [OF inv]] inv by (simp add: vfs_inv_def)
qed

lemma do_dup_vfs:
  assumes inv: "vfs_inv cfg ok E V s"
  shows "\<exists>r s'. do_dup ops cfg fd s = Some (r, s') \<and> vfs_inv cfg ok E V s' \<and>
    (bad_fd cfg fd s \<longrightarrow> r = Inl EBADF \<and> s' = s) \<and>
    (\<not> bad_fd cfg fd s \<longrightarrow> r = get_empty_fd cfg s \<and> (\<forall>n. r = Inr n \<longrightarrow> cur_files s' = (cur_files s)[nat n := cur_files s ! nat fd]))"
proof (cases "bad_fd cfg fd s")
  case True
  then show ?thesis using inv by (simp add: do_dup_def)
next
  case False
  let ?f = "cur_files s ! nat fd"
  obtain s1 where s1: "fget ops cfg fd s = Some (?f, s1)" "vfs_inv cfg ok (add_mset ?f E) V s1" "same_proc s s1" "?f \<noteq> NULL"
    by (rule fget_vfs [OF inv False])
  have e: "get_empty_fd cfg s1 = get_empty_fd cfg s" using s1(3) by (simp add: get_empty_fd_def same_proc_def)
  show ?thesis
  proof (cases "get_empty_fd cfg s")
    case (Inl er)
    then have "er = EMFILE" using empty_fd_first(2) by (auto simp: get_empty_fd_def)
    moreover obtain s' where "fput ops ?f s1 = Some s'" "vfs_inv cfg ok E V s'" by (rule fput_vfs [OF s1(2)])
    ultimately show ?thesis using False s1(1) e Inl by (simp add: do_dup_def)
  next
    case (Inr n)
    note n = get_empty_fd_free [OF Inr]
    have "vfs_inv cfg ok E V (s1\<lparr>cur_files := (cur_files s1)[nat n := ?f]\<rparr>)"
      by (rule install_vfs [OF s1(2,4)]) (use n s1(3) in \<open>auto simp: same_proc_def\<close>)
    then show ?thesis using False s1 e Inr by (simp add: do_dup_def same_proc_def)
  qed
qed

lemma do_dup2_vfs:
  assumes inv: "vfs_inv cfg ok E V s"
  shows "\<exists>r s'. do_dup2 ops cfg ofd nfd s = Some (r, s') \<and> vfs_inv cfg ok E V s' \<and>
    (bad_fd cfg ofd s \<or> nfd < 0 \<or> int (NFILES cfg) \<le> nfd \<longrightarrow> r = Inl EBADF \<and> s' = s) \<and>
    (\<not> (bad_fd cfg ofd s \<or> nfd < 0 \<or> int (NFILES cfg) \<le> nfd) \<longrightarrow> r = Inr nfd \<and> cur_files s' = (cur_files s)[nat nfd := cur_files s ! nat ofd])"
proof (cases "bad_fd cfg ofd s \<or> nfd < 0 \<or> int (NFILES cfg) \<le> nfd")
  case True
  then show ?thesis using inv by (auto simp: do_dup2_def)
next
  case False
  let ?f = "cur_files s ! nat ofd"
  have len: "length (cur_files s) = NFILES cfg" using inv by (simp add: vfs_inv_def)
  obtain s1 where s1: "fget ops cfg ofd s = Some (?f, s1)" "vfs_inv cfg ok (add_mset ?f E) V s1" "same_proc s s1" "?f \<noteq> NULL"
    using fget_vfs [OF inv, of ofd] False by metis
  have cf: "cur_files s1 = cur_files s" using s1(3) by (simp add: same_proc_def)
  show ?thesis
  proof (cases "ofd = nfd")
    case True
    obtain s' where "fput ops ?f s1 = Some s'" "vfs_inv cfg ok E V s'" "same_proc s1 s'" by (rule fput_vfs [OF s1(2)])
    then show ?thesis using False True s1(1) cf len by (auto simp: do_dup2_def same_proc_def bad_fd_def)
  next
    case ne: False
    obtain r2 s2 where s2: "(if cur_files s1 ! nat nfd \<noteq> NULL then do_close ops cfg nfd s1 else Some (Inr 0, s1)) = Some (Inr r2, s2)"
      "vfs_inv cfg ok (add_mset ?f E) V s2" "cur_files s2 = (cur_files s)[nat nfd := NULL]"
    proof (cases "cur_files s1 ! nat nfd = NULL")
      case True
      then show thesis using that s1(2) cf list_update_id [of "cur_files s" "nat nfd"] by simp
    next
      case nn: False
      then have "\<not> bad_fd cfg nfd s1" using False by (simp add: bad_fd_def)
      then show thesis using that nn do_close_vfs [OF s1(2), of nfd] cf by auto
    qed
    have "vfs_inv cfg ok E V (s2\<lparr>cur_files := (cur_files s2)[nat nfd := ?f]\<rparr>)"
      by (rule install_vfs [OF s2(2) s1(4)]) (use False len s2(3) in auto)
    then show ?thesis using False ne s1(1) s2 by (simp add: do_dup2_def)
  qed
qed

lemma open_created:
  assumes inv: "inv T W s" and new: "file_alloc ops s = f" "f \<noteq> NULL"
  shows "\<exists>s'. fget ops cfg (- 1) s = Some (f, s') \<and> s' = s\<lparr>files := (files s)(f \<mapsto> \<lparr>f_pos = 0, f_mode = 0, f_refcount = 1, f_vnode = NULL\<rparr>)\<rparr> \<and>
    f \<notin># T"
proof -
  have "files s f = None" using ok_file_alloc [OF finvD(1) [OF inv]] new by auto
  then have "f \<notin># T" using finv_file [OF inv, of f] by force
  then show ?thesis using new by (auto simp: fget_def fref_def upd_file_def Let_def)
qed

text \<open>The situation in \<open>do_open\<close> once there is a free descriptor \<open>fd\<close> and a new file \<open>f\<close>.\<close>

definition being_opened :: "vfs_config \<Rightarrow> addr multiset \<Rightarrow> addr multiset \<Rightarrow> addr \<Rightarrow> int \<Rightarrow> 'x vfs \<Rightarrow> bool" where
  "being_opened cfg E V f fd s \<longleftrightarrow> vfs_inv cfg ok E V s \<and> f \<notin># E + opens s \<and> f \<noteq> NULL \<and> 0 \<le> fd \<and> nat fd < NFILES cfg \<and> cur_files s ! nat fd = NULL"

lemma opening_same:
  assumes "being_opened cfg E V f fd s" "inv (E + opens s) (add_mset (cur_cwd s) V) t" "same_proc s t"
  shows "vfs_inv cfg ok E V t"
  using vfs_inv_same [of cfg ok E V s t] assms by (simp add: being_opened_def)

lemma opening_dead:
  assumes "being_opened cfg E V f fd s" "inv (E + opens s) W t"
  shows "inv (E + opens s) W (t\<lparr>files := (files t)(f := x)\<rparr>)"
  using finv_dead [of ok "E + opens s" W t f x] ok_files finvD(1) [OF assms(2)] assms by (simp add: being_opened_def)

lemma opening_close:
  assumes "being_opened cfg E V f fd s" "cur_files t = cur_files s"
  shows "do_close ops cfg fd t = Some (Inl EBADF, t)" "t\<lparr>cur_files := (cur_files t)[nat fd := NULL]\<rparr> = t"
proof -
  show "do_close ops cfg fd t = Some (Inl EBADF, t)" using assms by (simp add: being_opened_def do_close_def bad_fd_def)
  have "(cur_files t)[nat fd := NULL] = cur_files t" using assms list_update_id [of "cur_files t" "nat fd"] by (simp add: being_opened_def)
  then show "t\<lparr>cur_files := (cur_files t)[nat fd := NULL]\<rparr> = t" by simp
qed

lemma opening_found:
  assumes o: "being_opened cfg E V f fd s" and s3: "inv (E + opens s) (add_mset v (add_mset (cur_cwd s) V)) s3" "same_proc s s3"
    and fl: "files s3 f = Some fl" "f_refcount fl = 1" "file_ok (fl\<lparr>f_vnode := v\<rparr>)"
  shows "yields (do {
        s \<leftarrow> upd_file f (\<lambda>fl. fl\<lparr>f_vnode := v\<rparr>) s3;
        vn \<leftarrow> vnodes s v;
        if b \<and> S_ISDIR (vn_mode vn) then do {
          (_, s) \<leftarrow> do_close ops cfg fd s;
          s \<leftarrow> vput ops v s;
          Some (Inl EISDIR, s)
        }
        else Some (Inr fd, s\<lparr>cur_files := (cur_files s)[nat fd := f]\<rparr>)
      }) (\<lambda>(r, s'). vfs_inv cfg ok E V s')"
proof -
  let ?T = "E + opens s" and ?W = "add_mset (cur_cwd s) V"
  define t where "t = s3\<lparr>files := (files s3)(f \<mapsto> fl\<lparr>f_vnode := v\<rparr>)\<rparr>"
  have u: "upd_file f (\<lambda>fl. fl\<lparr>f_vnode := v\<rparr>) s3 = Some t" by (simp add: upd_file_def fl(1) t_def)
  have it: "inv ?T (add_mset v ?W) t" unfolding t_def by (rule opening_dead [OF o s3(1)])
  have proc: "same_proc s t" using s3(2) by (simp add: same_proc_def t_def)
  have "inv (add_mset f ?T) ?W t"
    using finv_open_close [of t f "fl\<lparr>f_vnode := v\<rparr>" ?T ok ?W] it o fl by (simp add: being_opened_def t_def)
  then have "vfs_inv cfg ok (add_mset f E) V t" using o proc by (simp add: being_opened_def vfs_inv_def same_proc_def opens_def)
  then have "vfs_inv cfg ok E V (t\<lparr>cur_files := (cur_files t)[nat fd := f]\<rparr>)"
    by (rule install_vfs) (use o proc in \<open>auto simp: being_opened_def same_proc_def\<close>)
  moreover have "yields (vput ops v t) (\<lambda>s. vfs_inv cfg ok E V s)"
    by (rule vput_y [OF it]) (use opening_same [OF o] proc in \<open>auto simp: same_files_def same_proc_def\<close>)
  ultimately show ?thesis using opening_close(1) [OF o, of t] proc by (auto simp: u same_proc_def intro!: vnodes_y yields_ifI)
qed

lemma opening_named:
  assumes o: "being_opened cfg E V f fd s"
    and fl: "s2 = s\<lparr>files := (files s)(f \<mapsto> fl)\<rparr>" "f_refcount fl = 1" "\<And>v. v \<noteq> NULL \<Longrightarrow> file_ok (fl\<lparr>f_vnode := v\<rparr>)"
  shows "yields (do {
        (r, s) \<leftarrow> open_namev ops cfg path flags NULL s2;
        (case r of
           Inl e \<Rightarrow> do {
             (_, s) \<leftarrow> do_close ops cfg fd s;
             Some (Inl e, s\<lparr>cur_files := (cur_files s)[nat fd := NULL]\<rparr>)
           }
         | Inr v \<Rightarrow> if v = NULL then do {
             (_, s) \<leftarrow> do_close ops cfg fd s;
             Some (Inr 0, s\<lparr>cur_files := (cur_files s)[nat fd := NULL]\<rparr>)
           } else do {
             s \<leftarrow> upd_file f (\<lambda>fl. fl\<lparr>f_vnode := v\<rparr>) s;
             vn \<leftarrow> vnodes s v;
             if b \<and> S_ISDIR (vn_mode vn) then do {
               (_, s) \<leftarrow> do_close ops cfg fd s;
               s \<leftarrow> vput ops v s;
               Some (Inl EISDIR, s)
             }
             else Some (Inr fd, s\<lparr>cur_files := (cur_files s)[nat fd := f]\<rparr>)
           })
      }) (\<lambda>(r, s'). vfs_inv cfg ok E V s')"
  unfolding yields_simps
proof (rule open_namev_y [of "E + opens s" "add_mset (cur_cwd s) V"], goal_cases)
  case 1
  have "vfs_inv cfg ok E V s" using o by (simp add: being_opened_def)
  then show ?case unfolding fl(1) by (intro opening_dead [OF o] vfs_invD(1))
next
  case (4 r s3)
  have proc: "same_proc s s3" "files s3 f = Some fl" using 4(2) fl(1) by (auto simp: same_files_def same_proc_def)
  then have cf: "cur_files s3 = cur_files s" by (simp add: same_proc_def)
  show ?case
  proof (cases r)
    case (Inl e)
    have "vfs_inv cfg ok E V s3" using opening_same [OF o] 4(1) proc(1) Inl by simp
    then show ?thesis using opening_close [OF o cf] by (simp add: Inl)
  next
    case (Inr v)
    have "0 < refs s3 v" using finv_refs_pos [OF 4(1), of v] Inr by simp
    then have v: "v \<noteq> NULL" using refs_pos_nonnull [OF ok_vn [OF finvD(1) [OF 4(1)]]] by blast
    have i3: "inv (E + opens s) (add_mset v (add_mset (cur_cwd s) V)) s3" using 4(1) by (simp add: Inr add_mset_commute)
    show ?thesis using opening_found [OF o i3 proc fl(2) fl(3) [OF v], of b] v by (simp add: Inr split del: if_split)
  qed
qed (use o fl(1) in \<open>auto simp: being_opened_def vfs_inv_def\<close>)

lemma do_open_y:
  assumes inv: "vfs_inv cfg ok E V s" and modes: "modes_ok cfg"
  shows "yields (do_open ops cfg path flags s) (\<lambda>(r, s'). vfs_inv cfg ok E V s')"
proof (cases "get_empty_fd cfg s")
  case (Inl e)
  then show ?thesis using inv by (simp add: do_open_def)
next
  case (Inr fd)
  define f where "f = file_alloc ops s"
  show ?thesis
  proof (cases "f = NULL")
    case True
    then show ?thesis by (simp add: do_open_def Inr fget_def f_def)
  next
    case nn: False
    define new where "new = \<lparr>f_pos = 0, f_mode = 0, f_refcount = 1, f_vnode = NULL\<rparr>"
    obtain s1 where s1: "fget ops cfg (- 1) s = Some (f, s1)" "f \<notin># E + opens s" "s1 = s\<lparr>files := (files s)(f \<mapsto> new)\<rparr>"
      using open_created [OF vfs_invD(1) [OF inv] f_def [symmetric] nn, of cfg] new_def by blast
    have o: "being_opened cfg E V f fd s" using inv s1(2) nn get_empty_fd_free [OF Inr] by (simp add: being_opened_def)
    have same: "vfs_inv cfg ok E V (s\<lparr>files := (files s)(f := x)\<rparr>)" for x
      using opening_same [OF o opening_dead [OF o vfs_invD(1) [OF inv]]] by (simp add: same_proc_def)
    have put: "fput ops f s1 = Some (s\<lparr>files := (files s)(f := None)\<rparr>)" using nn by (simp add: fput_def upd_file_def s1(3) new_def)
    show ?thesis
    proof (cases "open_mode cfg flags")
      case None
      have "vfs_inv cfg ok E V s1" unfolding s1(3) by (rule same)
      then show ?thesis using same nn None by (auto simp: do_open_def Inr s1(1) put)
    next
      case (Some m)
      have "upd_file f (\<lambda>fl. fl\<lparr>f_mode := m\<rparr>) s1 = Some (s\<lparr>files := (files s)(f \<mapsto> new\<lparr>f_mode := m\<rparr>)\<rparr>)"
        by (simp add: upd_file_def s1(3))
      then show ?thesis using opening_named [OF o refl, of "new\<lparr>f_mode := m\<rparr>"] open_mode_ok [OF modes Some] same nn
        by (auto simp: do_open_def Inr s1(1) put Some new_def file_ok_def simp del: yields_simps(3))
    qed
  qed
qed

text \<open>\<open>do_lseek\<close> always returns.\<close>

lemma do_lseek_vfs:
  assumes inv: "vfs_inv cfg ok E V s" and fd: "\<not> bad_fd cfg fd s"
    and fl: "files s (cur_files s ! nat fd) = Some fl" "vnodes s (f_vnode fl) = Some vn"
    and pos: "pos = (case wh of SEEK_CUR \<Rightarrow> off_t (f_pos fl + offset) | SEEK_END \<Rightarrow> off_t (vn_len vn + offset) | _ \<Rightarrow> offset)"
  shows "\<exists>s'. do_lseek ops cfg fd offset wh s =
      Some (if (\<exists>n. wh = Whence_other n) \<or> pos < 0 then Inl EINVAL else Inr pos, s') \<and>
    vfs_inv cfg ok E V s' \<and> same_proc s s'"
proof (cases "\<exists>n. wh = Whence_other n")
  case True
  then show ?thesis using fd inv by (auto simp: do_lseek_def same_proc_def)
next
  case False
  define f where "f = cur_files s ! nat fd"
  let ?T = "E + opens s" and ?W = "add_mset (cur_cwd s) V"
  have f: "f \<in># ?T" unfolding f_def by (rule fds_inD [OF vfs_invD(2) [OF inv] fd])
  define fl1 where "fl1 = fl\<lparr>f_refcount := f_refcount fl + 1\<rparr>"
  define s1 where "s1 = s\<lparr>files := (files s)(f \<mapsto> fl1)\<rparr>"
  have s1: "fref f s = Some s1" "inv (add_mset f ?T) ?W s1" using fref_inv [OF vfs_invD(1) [OF inv] f] fl(1) by (auto simp: f_def s1_def fl1_def)
  have get: "fget ops cfg fd s = Some (f, s1)" using fd s1(1) by (auto simp: fget_def bad_fd_def Let_def f_def)
  have run: "do_lseek ops cfg fd offset wh s =
      (if pos < 0 then do { s \<leftarrow> fput ops f s1; Some (Inl EINVAL, s) }
       else do {
         s \<leftarrow> upd_file f (\<lambda>fl. fl\<lparr>f_pos := pos\<rparr>) s1;
         s \<leftarrow> fput ops f s;
         fl \<leftarrow> files s f;
         Some (Inr (f_pos fl), s)
       })"
    using False fd fl(2) by (auto simp: do_lseek_def get pos s1_def fl1_def split: whence.splits)
  have put_back: "\<exists>s'. fput ops f t = Some s' \<and> vfs_inv cfg ok E V s' \<and> same_proc s s' \<and> files s' f = Some (g\<lparr>f_refcount := f_refcount g - 1\<rparr>)"
    if t: "inv (add_mset f ?T) ?W t" "same_proc s t" "files t f = Some g" for t g
    using fput_inv [OF t(1), of f] f t(2,3) vfs_inv_same [OF inv] by (auto simp: same_proc_def)
  show ?thesis
  proof (cases "pos < 0")
    case True
    then show ?thesis using put_back [OF s1(2)] run by (auto simp: s1_def same_proc_def)
  next
    case nn: False
    let ?t = "s1\<lparr>files := (files s1)(f \<mapsto> fl1\<lparr>f_pos := pos\<rparr>)\<rparr>"
    have ff: "files s1 f = Some fl1" by (simp add: s1_def)
    obtain g where g: "files s1 f = Some g" "f_refcount g = int (count (add_mset f ?T) f)" "file_ok g" using finv_file [OF s1(2), of f] by auto
    have "inv (add_mset f ?T) ?W ?t"
      by (rule finv_upd_file [OF s1(2) ok_files [OF finvD(1) [OF s1(2)]] ff]) (use g ff nn in \<open>auto simp: file_ok_def\<close>)
    from put_back [OF this] show ?thesis using run nn False by (auto simp: same_proc_def s1_def upd_file_def)
  qed
qed

section \<open>All calls\<close>

lemma call_inv:
  assumes inv: "vfs_inv cfg ok E V s" and modes: "modes_ok cfg" and call: "vfs_call ops cfg s s'"
  shows "vfs_inv cfg ok E V s'"
proof -
  note i = vfs_invD [OF inv]
  have root: "cur_cwd s \<in># add_mset (cur_cwd s) V" "vfs_root_vn s \<in># add_mset (cur_cwd s) V" using i(3) by auto
  note proc = vfs_inv_same [OF inv] and files = vfs_inv_same [OF inv _ same_files_proc]
  from call show ?thesis
  proof cases
    case (call_open path flags r)
    then show ?thesis using yieldsD [OF do_open_y [OF inv modes]] by fastforce
  next
    case (call_read fd n r buf)
    then show ?thesis using yieldsD [OF do_read_y [OF i(1,2)] call_read] proc by blast
  next
    case (call_write fd buf r)
    then show ?thesis using yieldsD [OF do_write_y [OF i(1,2)] call_write] proc by blast
  next
    case (call_close fd r)
    then show ?thesis using do_close_vfs [OF inv] by (metis option.inject prod.inject)
  next
    case (call_dup fd r)
    then show ?thesis using do_dup_vfs [OF inv] by (metis option.inject prod.inject)
  next
    case (call_dup2 ofd nfd r)
    then show ?thesis using do_dup2_vfs [OF inv] by (metis option.inject prod.inject)
  next
    case (call_lseek fd offset wh r)
    then show ?thesis using yieldsD [OF do_lseek_y [OF i(1,2), of "\<lambda>(r, s'). finv ok (E + opens s) (add_mset (cur_cwd s) V) s' \<and> same_proc s s'"] call_lseek] proc by blast
  next
    case (call_mknod path m j r)
    then show ?thesis using yieldsD [OF do_mknod_y [OF i(1) root] call_mknod] files by blast
  next
    case (call_mkdir path r)
    then show ?thesis using yieldsD [OF do_mkdir_y [OF i(1) root] call_mkdir] files by blast
  next
    case (call_rmdir path r)
    then show ?thesis using yieldsD [OF do_rmdir_y [OF i(1) root] call_rmdir] files by blast
  next
    case (call_unlink path r)
    then show ?thesis using yieldsD [OF do_unlink_y [OF i(1) root] call_unlink] files by blast
  next
    case (call_link p v s1 junk q n)
    then show ?thesis using yieldsD [OF do_link_y [OF i(1) root call_link(1)] call_link(2)] files by blast
  next
    case (call_chdir path r)
    then show ?thesis using yieldsD [OF do_chdir_y [OF i(1,3)] call_chdir] inv by (auto simp: vfs_inv_def opens_def)
  next
    case (call_getdent fd r d)
    then show ?thesis using yieldsD [OF do_getdent_y [OF i(1,2)] call_getdent] proc by blast
  next
    case (call_stat path r st)
    then show ?thesis using yieldsD [OF do_stat_y [OF i(1) root] call_stat] files by blast
  qed
qed

lemma calls_inv:
  assumes "(vfs_call ops cfg)\<^sup>*\<^sup>* s s'" "vfs_inv cfg ok E V s" "modes_ok cfg"
  shows "vfs_inv cfg ok E V s'"
  using assms(1,2) by (induction rule: rtranclp_induct) (auto intro: call_inv [OF _ assms(3)])

end

end
