(* ===== verification/Ramfs.thy ===== *)
theory Ramfs
  imports Vfs_Inv
begin

text \<open>
  The file system in memory, \<^verbatim>\<open>ramfs.c\<close>.

  An inode is found by its number in the table \<open>rfs_inodes\<close>; a vnode points to the inode whose number it
  has.  The page of an inode is a list of bytes for a file, a list of entries for a directory, and the
  device number for a special file.  The name of an entry is the string its array holds, empty for a free entry.

  A parameter holds the constants of headers that are not among the sources, \<open>name_match\<close>, the
  allocators, and the devices.
\<close>

datatype ramfs_type = RAMFS_TYPE_DATA | RAMFS_TYPE_DIR | RAMFS_TYPE_CHR | RAMFS_TYPE_BLK

record ramfs_dirent =
  rd_ino :: nat
  rd_name :: string

datatype rf_mem = Rf_data "byte list" | Rf_dirents "ramfs_dirent list" | Rf_devid nat

record ramfs_inode =
  rf_size :: int
  rf_ino :: nat
  rf_mem :: rf_mem
  rf_mode :: ramfs_type
  rf_linkcount :: int

record ramfs =
  rfs_inodes :: "ramfs_inode option list"

type_synonym rfs = "ramfs vfs"

record ramfs_env =
  limits :: vfs_config
  PAGE_SIZE :: nat
  sizeof_ramfs_dirent :: nat
  name_match :: "string \<Rightarrow> string \<Rightarrow> nat \<Rightarrow> bool"
  fs_memory :: bool
  inode_memory :: "ramfs \<Rightarrow> bool"
  vnode_memory :: "rfs \<Rightarrow> addr"
  file_memory :: "rfs \<Rightarrow> addr"
  devs :: devices

definition RAMFS_MAX_FILES :: nat where
  "RAMFS_MAX_FILES = 64"

definition RAMFS_MAX_DIRENT :: "ramfs_env \<Rightarrow> nat" where
  "RAMFS_MAX_DIRENT e = PAGE_SIZE e div sizeof_ramfs_dirent e"

section \<open>Inodes\<close>

definition inode_at :: "nat \<Rightarrow> rfs \<Rightarrow> ramfs_inode option" where
  "inode_at i s = (if i < length (rfs_inodes (fsx s)) then rfs_inodes (fsx s) ! i else None)"

definition set_inode :: "nat \<Rightarrow> ramfs_inode option \<Rightarrow> rfs \<Rightarrow> rfs" where
  "set_inode i n s = s\<lparr>fsx := (fsx s)\<lparr>rfs_inodes := (rfs_inodes (fsx s))[i := n]\<rparr>\<rparr>"

definition VNODE_TO_RAMFSINODE :: "addr \<Rightarrow> rfs \<Rightarrow> ramfs_inode option" where
  "VNODE_TO_RAMFSINODE v s = do { vn \<leftarrow> vnodes s v; inode_at (vn_vno vn) s }"

definition VNODE_TO_DIRENT :: "addr \<Rightarrow> rfs \<Rightarrow> ramfs_dirent list option" where
  "VNODE_TO_DIRENT v s = do {
     i \<leftarrow> VNODE_TO_RAMFSINODE v s;
     (case rf_mem i of Rf_dirents es \<Rightarrow> Some es | _ \<Rightarrow> None)
   }"

definition upd_inode :: "addr \<Rightarrow> (ramfs_inode \<Rightarrow> ramfs_inode) \<Rightarrow> rfs \<Rightarrow> rfs option" where
  "upd_inode v g s = do {
     i \<leftarrow> VNODE_TO_RAMFSINODE v s;
     vn \<leftarrow> vnodes s v;
     Some (set_inode (vn_vno vn) (Some (g i)) s)
   }"

text \<open>The position of the first element with a property, the length if there is none.\<close>

fun find_index :: "('a \<Rightarrow> bool) \<Rightarrow> 'a list \<Rightarrow> nat" where
  "find_index P [] = 0"
| "find_index P (x # xs) = (if P x then 0 else Suc (find_index P xs))"

definition new_mem :: "ramfs_env \<Rightarrow> ramfs_type \<Rightarrow> nat \<Rightarrow> rf_mem" where
  "new_mem e ty devid =
     (case ty of RAMFS_TYPE_DATA \<Rightarrow> Rf_data (replicate (PAGE_SIZE e) 0)
      | RAMFS_TYPE_DIR \<Rightarrow> Rf_dirents (replicate (RAMFS_MAX_DIRENT e) \<lparr>rd_ino = 0, rd_name = []\<rparr>)
      | _ \<Rightarrow> Rf_devid devid)"

definition ramfs_alloc_inode :: "ramfs_env \<Rightarrow> ramfs_type \<Rightarrow> nat \<Rightarrow> rfs \<Rightarrow> (errno + nat) \<times> rfs" where
  "ramfs_alloc_inode e ty devid s =
     (let i = find_index (\<lambda>n. n = None) (rfs_inodes (fsx s)) in
      if i = length (rfs_inodes (fsx s)) \<or> \<not> inode_memory e (fsx s) then (Inl ENOSPC, s)
      else (Inr i, set_inode i (Some \<lparr>rf_size = 0, rf_ino = i, rf_mem = new_mem e ty devid, rf_mode = ty, rf_linkcount = 1\<rparr>) s))"

section \<open>The file system operations\<close>

definition ramfs_read_vnode :: "addr \<Rightarrow> rfs \<Rightarrow> rfs option" where
  "ramfs_read_vnode v s = do {
     vn \<leftarrow> vnodes s v;
     i \<leftarrow> inode_at (vn_vno vn) s;
     if rf_ino i \<noteq> vn_vno vn then None
     else do {
       s \<leftarrow> upd_inode v (\<lambda>i. i\<lparr>rf_linkcount := rf_linkcount i + 1\<rparr>) s;
       upd_vn v (\<lambda>vn. vn\<lparr>vn_len := rf_size i,
         vn_mode := (case rf_mode i of RAMFS_TYPE_DATA \<Rightarrow> S_IFREG | RAMFS_TYPE_DIR \<Rightarrow> S_IFDIR | RAMFS_TYPE_CHR \<Rightarrow> S_IFCHR | RAMFS_TYPE_BLK \<Rightarrow> S_IFBLK),
         vn_devid := (case rf_mem i of Rf_devid d \<Rightarrow> d | _ \<Rightarrow> vn_devid vn)\<rparr>) s
     }
   }"

definition ramfs_delete_vnode :: "addr \<Rightarrow> rfs \<Rightarrow> rfs option" where
  "ramfs_delete_vnode v s = do {
     vn \<leftarrow> vnodes s v;
     s \<leftarrow> upd_inode v (\<lambda>i. i\<lparr>rf_linkcount := rf_linkcount i - 1\<rparr>) s;
     i \<leftarrow> VNODE_TO_RAMFSINODE v s;
     Some (if rf_linkcount i = 0 then set_inode (vn_vno vn) None s else s)
   }"

definition ramfs_query_vnode :: "addr \<Rightarrow> rfs \<Rightarrow> bool" where
  "ramfs_query_vnode v s = (case VNODE_TO_RAMFSINODE v s of None \<Rightarrow> False | Some i \<Rightarrow> 1 < rf_linkcount i)"

text \<open>
  The part of the table of operations that \<open>vget\<close> and \<open>vput\<close> use; the operations on vnodes
  are added below.
\<close>

definition ramfs_fs_ops :: "ramfs_env \<Rightarrow> ramfs fs_ops" where
  "ramfs_fs_ops e = \<lparr>read_vnode = ramfs_read_vnode, delete_vnode = ramfs_delete_vnode, query_vnode = ramfs_query_vnode,
     vop_read = (\<lambda>_ _. None), vop_write = (\<lambda>_ _. None), vop_create = (\<lambda>_ _. None), vop_mknod = (\<lambda>_ _. None), vop_lookup = (\<lambda>_ _. None),
     vop_link = (\<lambda>_ _. None), vop_unlink = (\<lambda>_ _. None), vop_mkdir = (\<lambda>_ _. None), vop_rmdir = (\<lambda>_ _. None), vop_readdir = (\<lambda>_ _. None),
     vop_stat = (\<lambda>_ _. None), vnode_alloc = vnode_memory e, file_alloc = file_memory e\<rparr>"

section \<open>Directories\<close>

definition ramfs_lookup :: "ramfs_env \<Rightarrow> addr \<Rightarrow> string \<Rightarrow> nat \<Rightarrow> rfs \<Rightarrow> ((errno + addr) \<times> rfs) option" where
  "ramfs_lookup e dir name len s = do {
     es \<leftarrow> VNODE_TO_DIRENT dir s;
     let i = find_index (\<lambda>en. name_match e (rd_name en) name len) es;
     if i < length es then do { (v, s) \<leftarrow> vget (ramfs_fs_ops e) (rd_ino (es ! i)) s; Some (Inr v, s) }
     else Some (Inl ENOENT, s)
   }"

text \<open>
  What \<open>ramfs_create\<close>, \<open>ramfs_mknod\<close>, \<open>ramfs_link\<close> and \<open>ramfs_mkdir\<close> begin with: the name must not be there, and the
  position of a free entry is sought.
\<close>

definition free_entry :: "ramfs_env \<Rightarrow> addr \<Rightarrow> string \<Rightarrow> nat \<Rightarrow> rfs \<Rightarrow> ((errno + nat) \<times> rfs) option" where
  "free_entry e dir name len s = do {
     (r, s) \<leftarrow> ramfs_lookup e dir name len s;
     if (case r of Inr _ \<Rightarrow> True | Inl _ \<Rightarrow> False) then None
     else do {
       es \<leftarrow> VNODE_TO_DIRENT dir s;
       let i = find_index (\<lambda>en. rd_name en = []) es;
       Some (if i = length es then Inl ENOSPC else Inr i, s)
     }
   }"

text \<open>What they end with: the entry is stored and the directory grows by an entry.\<close>

definition set_entry :: "ramfs_env \<Rightarrow> addr \<Rightarrow> nat \<Rightarrow> nat \<Rightarrow> string \<Rightarrow> nat \<Rightarrow> rfs \<Rightarrow> rfs option" where
  "set_entry e dir i ino name len s = do {
     es \<leftarrow> VNODE_TO_DIRENT dir s;
     upd_inode dir (\<lambda>n. n\<lparr>rf_mem := Rf_dirents (es[i := \<lparr>rd_ino = ino, rd_name = take (min len (NAME_LEN (limits e) - 1)) name\<rparr>]),
                          rf_size := rf_size n + int (sizeof_ramfs_dirent e)\<rparr>) s
   }"

definition ramfs_create :: "ramfs_env \<Rightarrow> addr \<Rightarrow> string \<Rightarrow> nat \<Rightarrow> rfs \<Rightarrow> ((errno + addr) \<times> rfs) option" where
  "ramfs_create e dir name len s = do {
     (r, s) \<leftarrow> free_entry e dir name len s;
     (case r of Inl er \<Rightarrow> Some (Inl er, s)
      | Inr i \<Rightarrow>
          (case ramfs_alloc_inode e RAMFS_TYPE_DATA 0 s of
             (Inl er, s) \<Rightarrow> Some (Inl er, s)
           | (Inr ino, s) \<Rightarrow> do {
               (v, s) \<leftarrow> vget (ramfs_fs_ops e) ino s;
               vn \<leftarrow> vnodes s v;
               s \<leftarrow> set_entry e dir i (vn_vno vn) name len s;
               Some (Inr v, s)
             }))
   }"

definition ramfs_mknod :: "ramfs_env \<Rightarrow> addr \<Rightarrow> string \<Rightarrow> nat \<Rightarrow> mode \<Rightarrow> nat \<Rightarrow> rfs \<Rightarrow> ramfs result" where
  "ramfs_mknod e dir name len m devid s = do {
     (r, s) \<leftarrow> free_entry e dir name len s;
     (case r of Inl er \<Rightarrow> Some (Inl er, s)
      | Inr i \<Rightarrow>
          if \<not> S_ISCHR m \<and> \<not> S_ISBLK m then None
          else (case ramfs_alloc_inode e (if S_ISCHR m then RAMFS_TYPE_CHR else RAMFS_TYPE_BLK) devid s of
             (Inl er, s) \<Rightarrow> Some (Inl er, s)
           | (Inr ino, s) \<Rightarrow> do {
               s \<leftarrow> set_entry e dir i ino name len s;
               Some (Inr 0, s)
             }))
   }"

definition ramfs_link :: "ramfs_env \<Rightarrow> addr \<Rightarrow> addr \<Rightarrow> string \<Rightarrow> nat \<Rightarrow> rfs \<Rightarrow> ramfs result" where
  "ramfs_link e oldvnode dir name len s = do {
     (r, s) \<leftarrow> free_entry e dir name len s;
     (case r of Inl er \<Rightarrow> Some (Inl er, s)
      | Inr i \<Rightarrow> do {
          ovn \<leftarrow> vnodes s oldvnode;
          s \<leftarrow> set_entry e dir i (vn_vno ovn) name len s;
          s \<leftarrow> upd_inode oldvnode (\<lambda>n. n\<lparr>rf_linkcount := rf_linkcount n + 1\<rparr>) s;
          Some (Inr 0, s)
        })
   }"

text \<open>What \<open>ramfs_unlink\<close> and \<open>ramfs_rmdir\<close> end with: the entry is cleared and the link to \<open>v\<close> dropped.\<close>

definition clear_entry :: "ramfs_env \<Rightarrow> addr \<Rightarrow> addr \<Rightarrow> string \<Rightarrow> nat \<Rightarrow> rfs \<Rightarrow> rfs option" where
  "clear_entry e dir v name len s = do {
     es \<leftarrow> VNODE_TO_DIRENT dir s;
     let i = find_index (\<lambda>en. name_match e (rd_name en) name len) es;
     s \<leftarrow> upd_inode dir (\<lambda>n. n\<lparr>rf_mem := Rf_dirents (if i < length es then es[i := (es ! i)\<lparr>rd_name := []\<rparr>] else es),
                               rf_size := rf_size n - int (sizeof_ramfs_dirent e)\<rparr>) s;
     s \<leftarrow> upd_inode v (\<lambda>n. n\<lparr>rf_linkcount := rf_linkcount n - 1\<rparr>) s;
     vput (ramfs_fs_ops e) v s
   }"

definition ramfs_unlink :: "ramfs_env \<Rightarrow> addr \<Rightarrow> string \<Rightarrow> nat \<Rightarrow> rfs \<Rightarrow> ramfs result" where
  "ramfs_unlink e dir name len s = do {
     (r, s) \<leftarrow> ramfs_lookup e dir name len s;
     (case r of Inl er \<Rightarrow> None
      | Inr v \<Rightarrow> do {
          vn \<leftarrow> vnodes s v;
          if S_ISDIR (vn_mode vn) then None
          else do { s \<leftarrow> clear_entry e dir v name len s; Some (Inr 0, s) }
        })
   }"

definition ramfs_mkdir :: "ramfs_env \<Rightarrow> addr \<Rightarrow> string \<Rightarrow> nat \<Rightarrow> rfs \<Rightarrow> ramfs result" where
  "ramfs_mkdir e dir name len s = do {
     (r, s) \<leftarrow> free_entry e dir name len s;
     (case r of Inl er \<Rightarrow> Some (Inl er, s)
      | Inr i \<Rightarrow>
          (case ramfs_alloc_inode e RAMFS_TYPE_DIR 0 s of
             (Inl er, s) \<Rightarrow> Some (Inl er, s)
           | (Inr ino, s) \<Rightarrow> do {
               s \<leftarrow> set_entry e dir i ino name len s;
               vn \<leftarrow> vnodes s dir;
               n \<leftarrow> inode_at ino s;
               (case rf_mem n of Rf_dirents es \<Rightarrow>
                  Some (Inr 0, set_inode ino (Some (n\<lparr>rf_mem := Rf_dirents (es[0 := \<lparr>rd_ino = ino, rd_name = ''.''\<rparr>, 1 := \<lparr>rd_ino = vn_vno vn, rd_name = ''..''\<rparr>]),
                                                      rf_size := 2 * int (sizeof_ramfs_dirent e)\<rparr>)) s)
                | _ \<Rightarrow> None)
             }))
   }"

definition ramfs_rmdir :: "ramfs_env \<Rightarrow> addr \<Rightarrow> string \<Rightarrow> nat \<Rightarrow> rfs \<Rightarrow> ramfs result" where
  "ramfs_rmdir e dir name len s =
     (if name_match e ''.'' name len \<or> name_match e ''..'' name len then None
      else do {
        (r, s) \<leftarrow> ramfs_lookup e dir name len s;
        (case r of Inl er \<Rightarrow> Some (Inl er, s)
         | Inr v \<Rightarrow> do {
             vn \<leftarrow> vnodes s v;
             if \<not> S_ISDIR (vn_mode vn) then do { s \<leftarrow> vput (ramfs_fs_ops e) v s; Some (Inl ENOTDIR, s) }
             else do {
               es \<leftarrow> VNODE_TO_DIRENT v s;
               if list_ex (\<lambda>en. rd_name en \<noteq> ''.'' \<and> rd_name en \<noteq> ''..'' \<and> rd_name en \<noteq> []) es
               then do { s \<leftarrow> vput (ramfs_fs_ops e) v s; Some (Inl ENOTEMPTY, s) }
               else do { s \<leftarrow> clear_entry e dir v name len s; Some (Inr 0, s) }
             }
           })
      })"

section \<open>Files\<close>

definition ramfs_read :: "addr \<Rightarrow> int \<Rightarrow> nat \<Rightarrow> rfs \<Rightarrow> ((errno + int) \<times> byte list \<times> rfs) option" where
  "ramfs_read v offset cnt s = do {
     vn \<leftarrow> vnodes s v;
     i \<leftarrow> VNODE_TO_RAMFSINODE v s;
     if S_ISDIR (vn_mode vn) then None
     else (case rf_mem i of
         Rf_data mem \<Rightarrow>
           (let ret = max 0 (min (off_t (int cnt)) (rf_size i - offset)) in
            if ret = 0 then Some (Inr 0, [], s)
            else if offset < 0 \<or> int (length mem) < offset + ret then None
            else Some (Inr ret, take (nat ret) (drop (nat offset) mem), s))
       | _ \<Rightarrow> None)
   }"

definition ramfs_write :: "ramfs_env \<Rightarrow> addr \<Rightarrow> int \<Rightarrow> byte list \<Rightarrow> rfs \<Rightarrow> ramfs result" where
  "ramfs_write e v offset buf s = do {
     vn \<leftarrow> vnodes s v;
     i \<leftarrow> VNODE_TO_RAMFSINODE v s;
     if S_ISDIR (vn_mode vn) then None
     else (case rf_mem i of
         Rf_data mem \<Rightarrow>
           (let ret = min (off_t (int (length buf))) (int (PAGE_SIZE e) - offset) in
            if offset < 0 \<or> ret < 0 then None
            else if vn_len vn \<noteq> rf_size i then None
            else do {
              let len = max (vn_len vn) (offset + ret);
              s \<leftarrow> upd_inode v (\<lambda>n. n\<lparr>rf_mem := Rf_data (take (nat offset) mem @ take (nat ret) buf @ drop (nat (offset + ret)) mem), rf_size := len\<rparr>) s;
              s \<leftarrow> upd_vn v (\<lambda>vn. vn\<lparr>vn_len := len\<rparr>) s;
              Some (Inr ret, s)
            })
       | _ \<Rightarrow> None)
   }"

definition ramfs_readdir :: "ramfs_env \<Rightarrow> addr \<Rightarrow> int \<Rightarrow> rfs \<Rightarrow> ((errno + int) \<times> dirent option \<times> rfs) option" where
  "ramfs_readdir e v offset s = do {
     vn \<leftarrow> vnodes s v;
     if \<not> S_ISDIR (vn_mode vn) \<or> offset mod int (sizeof_ramfs_dirent e) \<noteq> 0 \<or> offset < 0 then None
     else do {
       es \<leftarrow> VNODE_TO_DIRENT v s;
       let first = nat (offset div int (sizeof_ramfs_dirent e));
       let targ = first + find_index (\<lambda>en. rd_name en \<noteq> []) (drop first es);
       if length es \<le> targ then Some (Inr 0, None, s)
       else Some (Inr (int (sizeof_ramfs_dirent e) + int ((targ - first) * sizeof_ramfs_dirent e)),
                  Some \<lparr>d_ino = rd_ino (es ! targ), d_off = 0, d_name = take (NAME_LEN (limits e) - 1) (rd_name (es ! targ))\<rparr>, s)
     }
   }"

definition ramfs_stat :: "ramfs_env \<Rightarrow> addr \<Rightarrow> rfs \<Rightarrow> ((errno + int) \<times> stat \<times> rfs) option" where
  "ramfs_stat e v s = do {
     vn \<leftarrow> vnodes s v;
     i \<leftarrow> VNODE_TO_RAMFSINODE v s;
     Some (Inr 0,
       \<lparr>st_mode = vn_mode vn, st_ino = vn_vno vn, st_dev = 0,
        st_rdev = (if vn_mode vn = S_IFCHR \<or> vn_mode vn = S_IFBLK then (case rf_mem i of Rf_devid d \<Rightarrow> int d | _ \<Rightarrow> 0) else 0),
        st_nlink = rf_linkcount i - 1, st_size = rf_size i, st_blksize = int (PAGE_SIZE e), st_blocks = 1\<rparr>, s)
   }"

section \<open>The tables of operations\<close>

text \<open>An entry of \<open>ramfs_dir_vops\<close>, \<open>ramfs_file_vops\<close>, \<open>bytedev_spec_vops\<close> or \<open>blockdev_spec_vops\<close>, by the mode of the vnode.\<close>

definition by_mode :: "rfs \<Rightarrow> addr \<Rightarrow> 'f option \<Rightarrow> 'f option \<Rightarrow> 'f option \<Rightarrow> 'f option \<Rightarrow> 'f option" where
  "by_mode s v dir reg chr blk = do {
     vn \<leftarrow> vnodes s v;
     (case vn_mode vn of S_IFDIR \<Rightarrow> dir | S_IFREG \<Rightarrow> reg | S_IFCHR \<Rightarrow> chr | S_IFBLK \<Rightarrow> blk | _ \<Rightarrow> None)
   }"

definition ramfs_ops :: "ramfs_env \<Rightarrow> ramfs fs_ops" where
  "ramfs_ops e = (ramfs_fs_ops e)\<lparr>
     vop_read := \<lambda>s v. by_mode s v None (Some (ramfs_read v)) (Some (special_file_read (devs e) v)) None,
     vop_write := \<lambda>s v. by_mode s v None (Some (ramfs_write e v)) (Some (special_file_write (devs e) v)) None,
     vop_create := \<lambda>s v. by_mode s v (Some (ramfs_create e v)) None None None,
     vop_mknod := \<lambda>s v. by_mode s v (Some (ramfs_mknod e v)) None None None,
     vop_lookup := \<lambda>s v. by_mode s v (Some (ramfs_lookup e v)) None None None,
     vop_link := \<lambda>s v. by_mode s v (Some (\<lambda>old. ramfs_link e old v)) None None None,
     vop_unlink := \<lambda>s v. by_mode s v (Some (ramfs_unlink e v)) None None None,
     vop_mkdir := \<lambda>s v. by_mode s v (Some (ramfs_mkdir e v)) None None None,
     vop_rmdir := \<lambda>s v. by_mode s v (Some (ramfs_rmdir e v)) None None None,
     vop_readdir := \<lambda>s v. by_mode s v (Some (ramfs_readdir e v)) None None None,
     vop_stat := \<lambda>s v. by_mode s v (Some (ramfs_stat e v)) (Some (ramfs_stat e v))
       (Some (special_file_stat (by_mode s (vfs_root_vn s) (Some (ramfs_stat e)) (Some (ramfs_stat e)) None None) v))
       (Some (special_file_stat (by_mode s (vfs_root_vn s) (Some (ramfs_stat e)) (Some (ramfs_stat e)) None None) v))\<rparr>"

section \<open>Mounting\<close>

definition ramfs_mount :: "ramfs_env \<Rightarrow> rfs \<Rightarrow> ramfs result" where
  "ramfs_mount e s =
     (if \<not> fs_memory e then Some (Inl ENOMEM, s)
      else
        (case ramfs_alloc_inode e RAMFS_TYPE_DIR 0 (s\<lparr>fsx := \<lparr>rfs_inodes = replicate RAMFS_MAX_FILES None\<rparr>\<rparr>) of
           (Inl er, s) \<Rightarrow> Some (Inl er, s)
         | (Inr root_ino, s) \<Rightarrow>
             if root_ino \<noteq> 0 then None
             else do {
               root \<leftarrow> inode_at root_ino s;
               (case rf_mem root of Rf_dirents es \<Rightarrow> do {
                    let s = set_inode 0 (Some (root\<lparr>rf_mem := Rf_dirents (es[0 := \<lparr>rd_ino = 0, rd_name = ''.''\<rparr>, 1 := \<lparr>rd_ino = 0, rd_name = ''..''\<rparr>]),
                                                    rf_size := 2 * int (sizeof_ramfs_dirent e)\<rparr>)) s;
                    (v, s) \<leftarrow> vget (ramfs_ops e) 0 s;
                    Some (Inr 0, s\<lparr>vfs_root_vn := v\<rparr>)
                  }
                | _ \<Rightarrow> None)
             }))"

definition ramfs_umount :: "ramfs_env \<Rightarrow> rfs \<Rightarrow> ramfs result" where
  "ramfs_umount e s = do {
     s \<leftarrow> vput (ramfs_ops e) (vfs_root_vn s) s;
     Some (Inr 0, s\<lparr>fsx := \<lparr>rfs_inodes = map (\<lambda>_. None) (rfs_inodes (fsx s))\<rparr>\<rparr>)
   }"

end
