(* ===== verification/Ramfs_Inv.thy ===== *)
theory Ramfs_Inv
  imports Ramfs
begin

text \<open>
  The file system in memory keeps the contract of the system calls.
\<close>

section \<open>The inode table\<close>

lemma inode_at_set:
  "inode_at j (set_inode i x s) = (if j = i \<and> i < length (rfs_inodes (fsx s)) then x else inode_at j s)"
  by (auto simp: inode_at_def set_inode_def)

lemma set_inode_other [simp]:
  "vnodes (set_inode i x s) = vnodes s" "vnode_inuse_list (set_inode i x s) = vnode_inuse_list s" "refs (set_inode i x s) = refs s"
  "vn_ok (set_inode i x s) = vn_ok s" "same_files t (set_inode i x s) = same_files t s" "files (set_inode i x s) = files s"
  by (simp_all add: set_inode_def same_files_def)

lemma set_inode_twice [simp]: "set_inode i x (set_inode i y s) = set_inode i x s"
  by (simp add: set_inode_def)

lemma inode_at_less: "inode_at i s = Some n \<Longrightarrow> i < length (rfs_inodes (fsx s))"
  by (simp add: inode_at_def split: if_splits)

lemma inode_at_other [simp]:
  "inode_at i (s\<lparr>vnodes := a\<rparr>) = inode_at i s" "inode_at i (s\<lparr>vnode_inuse_list := b\<rparr>) = inode_at i s"
  "inode_at i (s\<lparr>files := c\<rparr>) = inode_at i s" "inode_at i (s\<lparr>cur_files := d\<rparr>) = inode_at i s" "inode_at i (s\<lparr>cur_cwd := v\<rparr>) = inode_at i s"
  by (simp_all add: inode_at_def)

lemma find_index_le: "find_index P xs \<le> length xs"
  by (induction xs) auto

lemma find_index_nth: "find_index P xs < length xs \<Longrightarrow> P (xs ! find_index P xs)"
  by (induction xs) auto

lemma find_index_before: "i < find_index P xs \<Longrightarrow> \<not> P (xs ! i)"
  by (induction xs arbitrary: i) (auto simp: nth_Cons split: if_splits nat.splits)

definition mem_ok :: "ramfs_env \<Rightarrow> ramfs_inode \<Rightarrow> bool" where
  "mem_ok e n \<longleftrightarrow> (case rf_mem n of
     Rf_data b \<Rightarrow> rf_mode n = RAMFS_TYPE_DATA \<and> length b = PAGE_SIZE e
   | Rf_dirents es \<Rightarrow> rf_mode n = RAMFS_TYPE_DIR \<and> length es = RAMFS_MAX_DIRENT e
   | Rf_devid d \<Rightarrow> rf_mode n = RAMFS_TYPE_CHR \<or> rf_mode n = RAMFS_TYPE_BLK)"

definition mode_of :: "ramfs_type \<Rightarrow> mode" where
  "mode_of ty = (case ty of RAMFS_TYPE_DATA \<Rightarrow> S_IFREG | RAMFS_TYPE_DIR \<Rightarrow> S_IFDIR | RAMFS_TYPE_CHR \<Rightarrow> S_IFCHR | RAMFS_TYPE_BLK \<Rightarrow> S_IFBLK)"

text \<open>What is relied on of the allocators: they give an address that is not in use, or none.\<close>

definition env_ok :: "ramfs_env \<Rightarrow> bool" where
  "env_ok e \<longleftrightarrow> (\<forall>s. vn_ok s \<longrightarrow> vnode_memory e s \<noteq> NULL \<and> vnodes s (vnode_memory e s) = None) \<and>
     (\<forall>s. file_memory e s = NULL \<or> files s (file_memory e s) = None)"

text \<open>
  The invariant: an inode has the number of its place and a page of its type, and each vnode in use belongs to an
  inode of its mode.
\<close>

definition rok :: "ramfs_env \<Rightarrow> rfs \<Rightarrow> bool" where
  "rok e s \<longleftrightarrow> env_ok e \<and> vn_ok s \<and> (\<forall>i n. inode_at i s = Some n \<longrightarrow> rf_ino n = i \<and> mem_ok e n) \<and>
     (\<forall>v vn. vnodes s v = Some vn \<longrightarrow> (\<exists>n. inode_at (vn_vno vn) s = Some n \<and> vn_mode vn = mode_of (rf_mode n)))"

lemma rokD:
  assumes "rok e s"
  shows "env_ok e" "vn_ok s" "inode_at i s = Some n \<Longrightarrow> rf_ino n = i \<and> mem_ok e n"
    "vnodes s v = Some vn \<Longrightarrow> \<exists>n. inode_at (vn_vno vn) s = Some n \<and> vn_mode vn = mode_of (rf_mode n)"
  using assms by (auto simp: rok_def)

lemma rok_set_inode:
  assumes "rok e s" "inode_at i s = Some n" "rf_ino n' = rf_ino n" "rf_mode n' = rf_mode n" "mem_ok e n'"
  shows "rok e (set_inode i (Some n') s)"
proof -
  have "\<exists>m. inode_at (vn_vno vn) (set_inode i (Some n') s) = Some m \<and> vn_mode vn = mode_of (rf_mode m)" if "vnodes s v = Some vn" for v vn
    using assms(2,4) rokD(4) [OF assms(1) that] inode_at_less [OF assms(2)] by (cases "vn_vno vn = i") (auto simp: inode_at_set)
  then show ?thesis using assms rokD(3) [OF assms(1)] unfolding rok_def by (auto simp: inode_at_set)
qed

lemma rok_new_inode:
  assumes "rok e s" "inode_at i s = None" "rf_ino n = i" "mem_ok e n"
  shows "rok e (set_inode i (Some n) s)"
proof -
  have "\<forall>v vn. vnodes s v = Some vn \<longrightarrow> (\<exists>n'. inode_at (vn_vno vn) (set_inode i (Some n) s) = Some n' \<and> vn_mode vn = mode_of (rf_mode n'))"
    using assms(2) rokD(4) [OF assms(1)] by (fastforce simp: inode_at_set)
  then show ?thesis using assms rokD(3) [OF assms(1)] unfolding rok_def by (auto simp: inode_at_set)
qed

lemma rok_upd_vn:
  assumes "rok e s" "vnodes s v = Some vn" "vnode_ok vn'" "vn_vno vn' = vn_vno vn" "vn_mode vn' = vn_mode vn"
  shows "rok e (s\<lparr>vnodes := (vnodes s)(v \<mapsto> vn')\<rparr>)"
  using assms vn_ok_upd [OF rokD(2) [OF assms(1)] assms(2-4)] unfolding rok_def by auto

lemma rok_other [simp]:
  "rok e (s\<lparr>files := a\<rparr>) = rok e s" "rok e (s\<lparr>cur_files := b\<rparr>) = rok e s" "rok e (s\<lparr>cur_cwd := c\<rparr>) = rok e s"
  by (simp_all add: rok_def)

lemma upd_inode_some:
  assumes "upd_inode v g s = Some s'"
  obtains vn n where "vnodes s v = Some vn" "inode_at (vn_vno vn) s = Some n" "s' = set_inode (vn_vno vn) (Some (g n)) s"
  using assms by (auto simp: upd_inode_def VNODE_TO_RAMFSINODE_def bind_eq_Some_conv)

lemma find_vnode_some:
  "find_vnode vs l vno = Some (Some v) \<Longrightarrow> v \<in> set l \<and> (\<exists>vn. vs v = Some vn \<and> vn_vno vn = vno)"
  "find_vnode vs l vno = Some None \<Longrightarrow> \<forall>v \<in> set l. \<exists>vn. vs v = Some vn \<and> vn_vno vn \<noteq> vno"
  by (induction l) (auto simp: bind_eq_Some_conv split: if_splits)

section \<open>Taking and dropping vnodes\<close>

lemma ramfs_ops_sel [simp]:
  "read_vnode (ramfs_ops e) = ramfs_read_vnode" "delete_vnode (ramfs_ops e) = ramfs_delete_vnode" "query_vnode (ramfs_ops e) = ramfs_query_vnode"
  "vnode_alloc (ramfs_ops e) = vnode_memory e" "file_alloc (ramfs_ops e) = file_memory e"
  "read_vnode (ramfs_fs_ops e) = ramfs_read_vnode" "delete_vnode (ramfs_fs_ops e) = ramfs_delete_vnode" "query_vnode (ramfs_fs_ops e) = ramfs_query_vnode"
  "vnode_alloc (ramfs_fs_ops e) = vnode_memory e"
  by (simp_all add: ramfs_ops_def ramfs_fs_ops_def)

lemma same_ops [simp]: "vget (ramfs_ops e) = vget (ramfs_fs_ops e)" "vput (ramfs_ops e) = vput (ramfs_fs_ops e)"
  by (intro ext, simp only: vget_def vput_def ramfs_ops_sel)+

lemma ramfs_delete:
  assumes "rok e s" "vnodes s v = Some vn" "vn_vno vn' = vn_vno vn"
  obtains t n where "ramfs_delete_vnode v (s\<lparr>vnodes := (vnodes s)(v \<mapsto> vn')\<rparr>) = Some t" "inode_at (vn_vno vn) s = Some n"
    "t = set_inode (vn_vno vn) (if rf_linkcount n = 1 then None else Some (n\<lparr>rf_linkcount := rf_linkcount n - 1\<rparr>)) (s\<lparr>vnodes := (vnodes s)(v \<mapsto> vn')\<rparr>)"
proof -
  obtain n where n: "inode_at (vn_vno vn) s = Some n" using rokD(4) [OF assms(1,2)] by blast
  show thesis
    by (rule that [OF _ n refl]) (use n inode_at_less [OF n] in \<open>simp add: ramfs_delete_vnode_def upd_inode_def VNODE_TO_RAMFSINODE_def assms(3) inode_at_set\<close>)
qed

lemma rok_deleted:
  assumes ok: "rok e s" and vn: "vnodes s v = Some vn" and n: "inode_at (vn_vno vn) s = Some n"
    and t: "t = s\<lparr>vnodes := (vnodes s)(v := None), vnode_inuse_list := remove1 v (vnode_inuse_list s)\<rparr>"
    and n': "\<And>m. x = Some m \<Longrightarrow> rf_ino m = rf_ino n \<and> mem_ok e m"
  shows "rok e (set_inode (vn_vno vn) x t)"
proof -
  have uniq: "\<forall>w wn. vnodes s w = Some wn \<and> vn_vno wn = vn_vno vn \<longrightarrow> w = v" using rokD(2) [OF ok] vn unfolding vn_ok_def by metis
  have "vn_ok t" unfolding t by (rule remove_vnode_ok [OF rokD(2) [OF ok]])
  moreover have "\<forall>i m. inode_at i (set_inode (vn_vno vn) x t) = Some m \<longrightarrow> rf_ino m = i \<and> mem_ok e m"
    using rokD(3) [OF ok] n n' by (auto simp: inode_at_set t split: if_splits)
  moreover have "\<forall>w wn. vnodes t w = Some wn \<longrightarrow> (\<exists>m. inode_at (vn_vno wn) (set_inode (vn_vno vn) x t) = Some m \<and> vn_mode wn = mode_of (rf_mode m))"
    using rokD(4) [OF ok] uniq by (auto simp: inode_at_set t split: if_splits)
  ultimately show ?thesis using rokD(1) [OF ok] by (simp add: rok_def)
qed

lemma ramfs_vput:
  assumes ok: "rok e s" and pos: "0 < refs s v"
  shows "\<exists>s'. vput (ramfs_fs_ops e) v s = Some s' \<and> after (rok e) s ((refs s)(v := refs s v - 1)) s'"
  using rokD(2) [OF ok] pos
proof (cases rule: vput_cases [where ops = "ramfs_fs_ops e"])
  case (keep vn vn')
  have "vn_vno vn' = vn_vno vn" "vn_mode vn' = vn_mode vn" using keep(4) by (metis vnode.select_convs vnode.surjective vnode.update_convs)+
  then show ?thesis using keep rok_upd_vn [OF ok keep(1,3)] by (simp add: after_def same_files_def refs_upd)
next
  case (last vn vn')
  have vno: "vn_vno vn' = vn_vno vn" by (simp add: last(3))
  obtain t n where t: "ramfs_delete_vnode v (s\<lparr>vnodes := (vnodes s)(v \<mapsto> vn')\<rparr>) = Some t" "inode_at (vn_vno vn) s = Some n"
    "t = set_inode (vn_vno vn) (if rf_linkcount n = 1 then None else Some (n\<lparr>rf_linkcount := rf_linkcount n - 1\<rparr>)) (s\<lparr>vnodes := (vnodes s)(v \<mapsto> vn')\<rparr>)"
    by (rule ramfs_delete [OF ok last(1) vno])
  define x where "x = (if rf_linkcount n = 1 then None else Some (n\<lparr>rf_linkcount := rf_linkcount n - 1\<rparr>))"
  define u where "u = s\<lparr>vnodes := (vnodes s)(v := None), vnode_inuse_list := remove1 v (vnode_inuse_list s)\<rparr>"
  have mem: "mem_ok e (n\<lparr>rf_linkcount := k\<rparr>)" for k using rokD(3) [OF ok t(2)] by (auto simp: mem_ok_def split: rf_mem.splits)
  have run: "vput (ramfs_fs_ops e) v s = Some (set_inode (vn_vno vn) x u)"
    using last(4) t(1,3) by (simp add: u_def x_def set_inode_def)
  have "rok e (set_inode (vn_vno vn) x u)"
    by (rule rok_deleted [OF ok last(1) t(2) u_def]) (use mem in \<open>auto simp: x_def split: if_splits\<close>)
  moreover have "refs u = (refs s)(v := refs s v - 1)" using last(2) by (auto simp: u_def refs_def fun_eq_iff)
  ultimately show ?thesis using run by (simp add: after_def same_files_def u_def set_inode_def)
qed

text \<open>The vnode that \<open>vget\<close> makes for an inode.\<close>

definition new_vnode :: "ramfs_inode \<Rightarrow> vnode" where
  "new_vnode n = \<lparr>vn_vno = rf_ino n, vn_mode = mode_of (rf_mode n), vn_len = rf_size n, vn_refcount = 1, vn_nrespages = 0,
     vn_devid = (case rf_mem n of Rf_devid d \<Rightarrow> d | _ \<Rightarrow> 0), vn_busy = False\<rparr>"

lemma ramfs_vget_cases:
  assumes ok: "rok e s" and run: "vget (ramfs_fs_ops e) vno s = Some (v, s')"
  obtains (found) vn where "vnodes s v = Some vn" "vn_vno vn = vno" "vref v s = Some s'"
  | (fresh) n where "inode_at vno s = Some n" "vnodes s v = None" "v \<noteq> NULL" "\<forall>w wn. vnodes s w = Some wn \<longrightarrow> vn_vno wn \<noteq> vno"
      "s' = set_inode vno (Some (n\<lparr>rf_linkcount := rf_linkcount n + 1\<rparr>))
        (s\<lparr>vnodes := (vnodes s)(v \<mapsto> new_vnode n), vnode_inuse_list := v # vnode_inuse_list s\<rparr>)"
proof -
  obtain r where r: "find_vnode (vnodes s) (vnode_inuse_list s) vno = Some r" using run by (auto simp: vget_def bind_eq_Some_conv)
  show thesis
  proof (cases r)
    case (Some w)
    then show thesis using found run r find_vnode_some(1) [of "vnodes s" "vnode_inuse_list s" vno w]
      by (auto simp: vget_def bind_eq_Some_conv split: if_splits)
  next
    case None
    define u where "u = s\<lparr>vnodes := (vnodes s)(v \<mapsto> \<lparr>vn_vno = vno, vn_mode = Mode_other 0, vn_len = 0, vn_refcount = 0, vn_nrespages = 0, vn_devid = 0, vn_busy = True\<rparr>),
                    vnode_inuse_list := v # vnode_inuse_list s\<rparr>"
    have v: "v = vnode_memory e s" and u: "do { s \<leftarrow> ramfs_read_vnode v u; upd_vn v (\<lambda>vn. vn\<lparr>vn_refcount := 1, vn_busy := False\<rparr>) s } = Some s'"
      using run r None by (auto simp: vget_def bind_eq_Some_conv Let_def u_def)
    have new: "v \<noteq> NULL" "vnodes s v = None" using rokD(1,2) [OF ok] v by (auto simp: env_ok_def)
    have "\<forall>w \<in> dom (vnodes s). \<exists>wn. vnodes s w = Some wn \<and> vn_vno wn \<noteq> vno"
      using find_vnode_some(2) r None rokD(2) [OF ok] unfolding vn_ok_def by metis
    then have none: "\<forall>w wn. vnodes s w = Some wn \<longrightarrow> vn_vno wn \<noteq> vno" by force
    obtain n where n: "inode_at vno s = Some n" using u by (auto simp: ramfs_read_vnode_def bind_eq_Some_conv u_def)
    have ino: "rf_ino n = vno" using rokD(3) [OF ok n] by simp
    have "s' = set_inode vno (Some (n\<lparr>rf_linkcount := rf_linkcount n + 1\<rparr>)) (s\<lparr>vnodes := (vnodes s)(v \<mapsto> new_vnode n), vnode_inuse_list := v # vnode_inuse_list s\<rparr>)"
      using u n ino by (auto simp: ramfs_read_vnode_def upd_inode_def VNODE_TO_RAMFSINODE_def upd_vn_def u_def new_vnode_def mode_of_def set_inode_def
        cong: rf_mem.case_cong ramfs_type.case_cong split: rf_mem.splits)
    then show thesis using fresh n new none by blast
  qed
qed

lemma ramfs_vref:
  assumes "rok e s" "vref v s = Some s'"
  shows "rok e s'"
proof -
  obtain vn where vn: "vnodes s v = Some vn" "s' = s\<lparr>vnodes := (vnodes s)(v \<mapsto> vn\<lparr>vn_refcount := vn_refcount vn + 1\<rparr>)\<rparr>"
    using assms(2) by (auto simp: vref_def bind_eq_Some_conv split: if_splits)
  then show ?thesis using rok_upd_vn [OF assms(1) vn(1), of "vn\<lparr>vn_refcount := vn_refcount vn + 1\<rparr>"] vn_ok_vnode [OF rokD(2) [OF assms(1)] vn(1)]
    by (simp add: vnode_ok_def)
qed

lemma mem_ok_linkcount [simp]: "mem_ok e (n\<lparr>rf_linkcount := k\<rparr>) = mem_ok e n"
  by (simp add: mem_ok_def cong: rf_mem.case_cong)

lemma rok_fresh:
  assumes ok: "rok e s" and n: "inode_at vno s = Some n" and v: "vnodes s v = None" "v \<noteq> NULL" "\<forall>w wn. vnodes s w = Some wn \<longrightarrow> vn_vno wn \<noteq> vno"
  shows "rok e (s\<lparr>vnodes := (vnodes s)(v \<mapsto> new_vnode n), vnode_inuse_list := v # vnode_inuse_list s\<rparr>)"
proof -
  let ?s = "s\<lparr>vnodes := (vnodes s)(v \<mapsto> new_vnode n), vnode_inuse_list := v # vnode_inuse_list s\<rparr>"
  have ino: "rf_ino n = vno" using rokD(3) [OF ok n] by simp
  have nv: "vnode_ok (new_vnode n)" "vn_vno (new_vnode n) = vno" "vn_mode (new_vnode n) = mode_of (rf_mode n)"
    by (simp_all add: vnode_ok_def new_vnode_def ino)
  have old: "vnodes ?s w = (if w = v then Some (new_vnode n) else vnodes s w)" for w by simp
  have "vn_ok ?s" unfolding vn_ok_def
  proof (intro conjI allI impI, goal_cases)
    case (5 w wn w' wn')
    then show ?case using rokD(2) [OF ok] v(3) nv(2) unfolding vn_ok_def old by (metis option.inject)
  next
    case (4 w wn)
    then show ?case using rokD(2) [OF ok] nv(1) unfolding vn_ok_def old by (metis option.inject)
  qed (use rokD(2) [OF ok] v(1,2) in \<open>auto simp: vn_ok_def\<close>)
  moreover have "\<exists>m. inode_at (vn_vno wn) ?s = Some m \<and> vn_mode wn = mode_of (rf_mode m)" if "vnodes ?s w = Some wn" for w wn
    using that rokD(4) [OF ok, of w wn] n nv(2,3) by (auto simp: old split: if_splits)
  ultimately show ?thesis using rokD(1,3) [OF ok] unfolding rok_def inode_at_other by blast
qed

lemma ramfs_vget:
  assumes ok: "rok e s" and run: "vget (ramfs_fs_ops e) vno s = Some (v, s')"
  shows "after (rok e) s (gain (Inr v) (refs s)) s' \<and> (\<exists>vn. vnodes s' v = Some vn \<and> vn_vno vn = vno) \<and>
    (\<forall>w wn. vnodes s w = Some wn \<longrightarrow> (\<exists>wn'. vnodes s' w = Some wn' \<and> vn_vno wn' = vn_vno wn \<and> vn_mode wn' = vn_mode wn))"
  using ok run
proof (cases rule: ramfs_vget_cases)
  case (found vn)
  then have "s' = s\<lparr>vnodes := (vnodes s)(v \<mapsto> vn\<lparr>vn_refcount := vn_refcount vn + 1\<rparr>)\<rparr>" by (auto simp: vref_def split: if_splits)
  then show ?thesis using found vref_refs [OF rokD(2) [OF ok] found(3)] ramfs_vref [OF ok found(3)] by (auto simp: after_def gain_def)
next
  case (fresh n)
  let ?u = "s\<lparr>vnodes := (vnodes s)(v \<mapsto> new_vnode n), vnode_inuse_list := v # vnode_inuse_list s\<rparr>"
  have u: "rok e ?u" by (rule rok_fresh [OF ok fresh(1-4)])
  have "rok e s'" unfolding fresh(5)
    by (rule rok_set_inode [OF u, of vno n]) (use fresh(1) rokD(3) [OF ok fresh(1)] in auto)
  moreover have "refs s' = (refs s)(v := refs s v + 1)" using fresh(2) by (auto simp: fresh(5) refs_def new_vnode_def fun_eq_iff)
  moreover have "same_files s s'" by (simp add: fresh(5) same_files_def set_inode_def)
  ultimately show ?thesis using fresh rokD(3) [OF ok fresh(1)] by (auto simp: after_def gain_def new_vnode_def)
qed

section \<open>The operations\<close>

lemma afterD: "after ok s0 R s \<Longrightarrow> ok s" "after ok s0 R s \<Longrightarrow> refs s = R"
  by (simp_all add: after_def)

lemma after_trans: "after ok s0 R s \<Longrightarrow> after ok s R' s' \<Longrightarrow> after ok s0 R' s'"
  using same_files_trans by (auto simp: after_def)

lemma after_set_inode: "after ok s0 R s \<Longrightarrow> ok (set_inode i x s) \<Longrightarrow> after ok s0 R (set_inode i x s)"
  by (simp add: after_def)

lemma vget_r:
  assumes "after (rok e) s0 R s" "\<And>v s'. after (rok e) s0 (gain (Inr v) R) s' \<Longrightarrow> Q (v, s')"
  shows "yields (vget (ramfs_fs_ops e) vno s) Q"
proof (rule yieldsI)
  fix x assume x: "vget (ramfs_fs_ops e) vno s = Some x"
  obtain v s' where vs: "x = (v, s')" by (cases x)
  from ramfs_vget [OF afterD(1) [OF assms(1)] x [unfolded vs]] have "after (rok e) s (gain (Inr v) R) s'" using afterD(2) [OF assms(1)] by simp
  then show "Q x" using assms after_trans vs by blast
qed

lemma vput_r:
  assumes "after (rok e) s0 R s" "0 < R v" "\<And>s'. after (rok e) s0 (R(v := R v - 1)) s' \<Longrightarrow> Q s'"
  shows "yields (vput (ramfs_fs_ops e) v s) Q"
  using ramfs_vput [OF afterD(1) [OF assms(1)], of v] assms afterD(2) [OF assms(1)] after_trans [OF assms(1)] by (auto simp: yields_def)

lemma VNODE_TO_DIRENT_some:
  assumes "VNODE_TO_DIRENT d s = Some es"
  obtains vn n where "vnodes s d = Some vn" "inode_at (vn_vno vn) s = Some n" "rf_mem n = Rf_dirents es"
proof -
  obtain vn n where n: "vnodes s d = Some vn" "inode_at (vn_vno vn) s = Some n" "(case rf_mem n of Rf_dirents es \<Rightarrow> Some es | _ \<Rightarrow> None) = Some es"
    using assms unfolding VNODE_TO_DIRENT_def VNODE_TO_RAMFSINODE_def bind_eq_Some_conv by blast
  then show thesis using that by (cases "rf_mem n") auto
qed

lemma dirents_y: "(\<And>es. VNODE_TO_DIRENT d s = Some es \<Longrightarrow> Q es) \<Longrightarrow> yields (VNODE_TO_DIRENT d s) Q"
  by (rule yieldsI)

lemma vnodes_r: "(\<And>vn. vnodes s v = Some vn \<Longrightarrow> Q vn) \<Longrightarrow> yields (vnodes s v) Q"
  by (rule yieldsI)

lemma inode_r: "(\<And>n. inode_at i s = Some n \<Longrightarrow> Q n) \<Longrightarrow> yields (inode_at i s) Q" "(\<And>n. VNODE_TO_RAMFSINODE v s = Some n \<Longrightarrow> P n) \<Longrightarrow> yields (VNODE_TO_RAMFSINODE v s) P"
  by (rule yieldsI, blast)+

lemma lookup_r:
  assumes "after (rok e) s0 R s" "\<And>r s'. after (rok e) s0 (gain r R) s' \<Longrightarrow> Q (r, s')"
  shows "yields (ramfs_lookup e d n l s) Q"
  using assms by (auto simp: ramfs_lookup_def Let_def gain_def intro!: yields_ifI dirents_y elim!: vget_r)

lemma free_entry_r:
  assumes "after (rok e) s0 R s" "\<And>r s'. after (rok e) s0 R s' \<Longrightarrow> Q (r, s')"
  shows "yields (free_entry e d n l s) Q"
  using assms by (auto simp: free_entry_def Let_def gain_def split: sum.splits intro!: yields_ifI dirents_y elim!: lookup_r)

lemma after_inode:
  assumes "after (rok e) s0 R s" "inode_at i s = Some n" "rf_ino n' = rf_ino n" "rf_mode n' = rf_mode n" "mem_ok e n'"
  shows "after (rok e) s0 R (set_inode i (Some n') s)"
  by (rule after_set_inode [OF assms(1) rok_set_inode [OF afterD(1) [OF assms(1)] assms(2-5)]])

lemma upd_links_r:
  assumes "after (rok e) s0 R s" "\<And>s'. after (rok e) s0 R s' \<Longrightarrow> Q s'"
  shows "yields (upd_inode v (\<lambda>n. n\<lparr>rf_linkcount := p n\<rparr>) s) Q"
proof (rule yieldsI)
  fix s' assume "upd_inode v (\<lambda>n. n\<lparr>rf_linkcount := p n\<rparr>) s = Some s'"
  then obtain vn n where "vnodes s v = Some vn" "inode_at (vn_vno vn) s = Some n" "s' = set_inode (vn_vno vn) (Some (n\<lparr>rf_linkcount := p n\<rparr>)) s"
    by (rule upd_inode_some)
  then show "Q s'" using assms(2) after_inode [OF assms(1), of "vn_vno vn" n] rokD(3) [OF afterD(1) [OF assms(1)]] by simp
qed

text \<open>A directory whose entries are changed.\<close>

lemma upd_dirents_r:
  assumes "after (rok e) s0 R s" "VNODE_TO_DIRENT d s = Some es" "length es' = length es" "\<And>s'. after (rok e) s0 R s' \<Longrightarrow> Q s'"
  shows "yields (upd_inode d (\<lambda>n. n\<lparr>rf_mem := Rf_dirents es', rf_size := p n\<rparr>) s) Q"
proof (rule yieldsI)
  fix s' assume "upd_inode d (\<lambda>n. n\<lparr>rf_mem := Rf_dirents es', rf_size := p n\<rparr>) s = Some s'"
  then obtain vn n where n: "vnodes s d = Some vn" "inode_at (vn_vno vn) s = Some n" "s' = set_inode (vn_vno vn) (Some (n\<lparr>rf_mem := Rf_dirents es', rf_size := p n\<rparr>)) s"
    by (rule upd_inode_some)
  then have "rf_mem n = Rf_dirents es" using assms(2) by (auto elim!: VNODE_TO_DIRENT_some)
  then have "mem_ok e (n\<lparr>rf_mem := Rf_dirents es', rf_size := p n\<rparr>)" using rokD(3) [OF afterD(1) [OF assms(1)] n(2)] assms(3) by (simp add: mem_ok_def)
  then show "Q s'" using assms(4) after_inode [OF assms(1) n(2)] n(3) by simp
qed

lemma set_entry_r:
  assumes "after (rok e) s0 R s" "\<And>s'. after (rok e) s0 R s' \<Longrightarrow> Q s'"
  shows "yields (set_entry e d i ino n l s) Q"
  unfolding set_entry_def yields_simps
  by (rule dirents_y, rule upd_dirents_r [OF assms(1)], assumption) (use assms(2) in auto)

lemma clear_entry_r:
  assumes "after (rok e) s0 R s" "0 < R v" "\<And>s'. after (rok e) s0 (R(v := R v - 1)) s' \<Longrightarrow> Q s'"
  shows "yields (clear_entry e d v n l s) Q"
  unfolding clear_entry_def yields_simps Let_def
  by (rule dirents_y, rule upd_dirents_r [OF assms(1)], assumption) (use assms(2,3) in \<open>auto elim!: upd_links_r vput_r\<close>)

lemma alloc_r:
  assumes "after (rok e) s0 R s" "ramfs_alloc_inode e ty dev s = (r, s')"
  shows "after (rok e) s0 R s'" "r = Inr i \<Longrightarrow> \<exists>n. inode_at i s' = Some n \<and> rf_mem n = new_mem e ty dev \<and> rf_mode n = ty"
proof -
  let ?j = "find_index (\<lambda>n. n = None) (rfs_inodes (fsx s))"
  let ?n = "\<lparr>rf_size = 0, rf_ino = ?j, rf_mem = new_mem e ty dev, rf_mode = ty, rf_linkcount = 1\<rparr>"
  have "r = Inl ENOSPC \<and> s' = s \<or> r = Inr ?j \<and> s' = set_inode ?j (Some ?n) s \<and> ?j < length (rfs_inodes (fsx s))"
    using assms(2) find_index_le [of "\<lambda>n. n = None" "rfs_inodes (fsx s)"] by (auto simp: ramfs_alloc_inode_def Let_def split: if_splits)
  then consider "r = Inl ENOSPC" "s' = s" | "r = Inr ?j" "s' = set_inode ?j (Some ?n) s" "?j < length (rfs_inodes (fsx s))" by blast
  note cases = this
  show "after (rok e) s0 R s'"
  proof (cases rule: cases)
    case 2
    have "inode_at ?j s = None" using find_index_nth [of "\<lambda>n. n = None" "rfs_inodes (fsx s)"] 2 by (simp add: inode_at_def)
    moreover have "mem_ok e ?n" by (simp add: mem_ok_def new_mem_def split: ramfs_type.split)
    ultimately have "rok e (set_inode ?j (Some ?n) s)" by (intro rok_new_inode [OF afterD(1) [OF assms(1)]]) simp_all
    then show ?thesis unfolding 2(2) by (rule after_set_inode [OF assms(1)])
  qed (use assms(1) in simp)
  show "r = Inr i \<Longrightarrow> \<exists>n. inode_at i s' = Some n \<and> rf_mem n = new_mem e ty dev \<and> rf_mode n = ty"
    by (cases rule: cases) (simp_all add: inode_at_set)
qed

lemma refs_nonneg: "vn_ok s \<Longrightarrow> 0 \<le> refs s v"
  using vn_ok_vnode [of s v] by (auto simp: refs_def vnode_ok_def split: option.split)

lemma alloc_case_r:
  assumes "after (rok e) s0 R s" "\<And>er s'. after (rok e) s0 R s' \<Longrightarrow> yields (f er s') Q" "\<And>i s'. after (rok e) s0 R s' \<Longrightarrow> yields (g i s') Q"
  shows "yields (case ramfs_alloc_inode e ty dev s of (a, s) \<Rightarrow> (case a of Inl er \<Rightarrow> f er s | Inr i \<Rightarrow> g i s)) Q"
proof -
  obtain a s' where a: "ramfs_alloc_inode e ty dev s = (a, s')" by force
  show ?thesis using alloc_r(1) [OF assms(1) a] assms(2,3) by (simp add: a split: sum.split)
qed

lemma create_r:
  assumes "rok e s"
  shows "yields (ramfs_create e d n l s) (\<lambda>(r, s'). after (rok e) s (gain r (refs s)) s')"
proof -
  have start: "after (rok e) s (refs s) s" using assms by (simp add: after_def)
  show ?thesis unfolding ramfs_create_def yields_simps
    by (rule free_entry_r [OF start]) (auto simp: gain_def split: sum.split intro!: vnodes_r elim!: alloc_case_r vget_r set_entry_r)
qed

lemma mknod_r:
  assumes "rok e s"
  shows "yields (ramfs_mknod e d n l m i s) (\<lambda>(r, s'). after (rok e) s (refs s) s')"
proof -
  have start: "after (rok e) s (refs s) s" using assms by (simp add: after_def)
  show ?thesis unfolding ramfs_mknod_def yields_simps
    by (rule free_entry_r [OF start]) (auto split: sum.split intro!: yields_ifI elim!: alloc_case_r set_entry_r)
qed

lemma link_r:
  assumes "rok e s"
  shows "yields (ramfs_link e v d n l s) (\<lambda>(r, s'). after (rok e) s (refs s) s')"
proof -
  have start: "after (rok e) s (refs s) s" using assms by (simp add: after_def)
  show ?thesis unfolding ramfs_link_def yields_simps
    by (rule free_entry_r [OF start]) (auto split: sum.split intro!: vnodes_r elim!: set_entry_r upd_links_r)
qed

lemma unlink_r:
  assumes "rok e s"
  shows "yields (ramfs_unlink e d n l s) (\<lambda>(r, s'). after (rok e) s (refs s) s')"
proof -
  have start: "after (rok e) s (refs s) s" using assms by (simp add: after_def)
  have nn: "0 \<le> refs s v" for v by (rule refs_nonneg [OF rokD(2) [OF assms]])
  show ?thesis unfolding ramfs_unlink_def yields_simps
    by (rule lookup_r [OF start]) (auto simp: gain_def nn split: sum.split intro!: vnodes_r yields_ifI elim!: clear_entry_r)
qed

lemma rmdir_r:
  assumes "rok e s"
  shows "yields (ramfs_rmdir e d n l s) (\<lambda>(r, s'). after (rok e) s (refs s) s')"
proof -
  have start: "after (rok e) s (refs s) s" using assms by (simp add: after_def)
  have nn: "0 \<le> refs s v" for v by (rule refs_nonneg [OF rokD(2) [OF assms]])
  show ?thesis unfolding ramfs_rmdir_def
    by (rule yields_ifI, simp, unfold yields_simps, rule lookup_r [OF start])
      (auto simp: gain_def nn split: sum.split intro!: vnodes_r dirents_y yields_ifI elim!: clear_entry_r vput_r)
qed

lemma mkdir_r:
  assumes "rok e s"
  shows "yields (ramfs_mkdir e d n l s) (\<lambda>(r, s'). after (rok e) s (refs s) s')"
proof -
  have start: "after (rok e) s (refs s) s" using assms by (simp add: after_def)
  have dots: "after (rok e) s (refs s) (set_inode i (Some (m\<lparr>rf_mem := Rf_dirents (es[0 := x, Suc 0 := y]), rf_size := p\<rparr>)) t)"
    if t: "after (rok e) s (refs s) t" and m: "inode_at i t = Some m" "rf_mem m = Rf_dirents es" for i m es x y p t
    using after_inode [OF t m(1), of "m\<lparr>rf_mem := Rf_dirents (es[0 := x, Suc 0 := y]), rf_size := p\<rparr>"] rokD(3) [OF afterD(1) [OF t] m(1)] m(2)
    by (simp add: mem_ok_def)
  show ?thesis unfolding ramfs_mkdir_def yields_simps
    by (rule free_entry_r [OF start])
      (auto split: sum.split rf_mem.split intro!: vnodes_r inode_r dots elim!: alloc_case_r set_entry_r)
qed

lemma read_r: "rok e s \<Longrightarrow> yields (ramfs_read v p l s) (\<lambda>(r, b, s'). after (rok e) s (refs s) s')"
  by (auto simp: ramfs_read_def Let_def after_def split: rf_mem.split intro!: vnodes_r inode_r yields_ifI)

lemma readdir_r: "rok e s \<Longrightarrow> yields (ramfs_readdir e v p s) (\<lambda>(r, d, s'). after (rok e) s (refs s) s')"
  by (auto simp: ramfs_readdir_def Let_def after_def intro!: vnodes_r dirents_y yields_ifI)

lemma stat_r: "rok e s \<Longrightarrow> yields (ramfs_stat e v s) (\<lambda>(r, st, s'). after (rok e) s (refs s) s')"
  by (auto simp: ramfs_stat_def after_def intro!: vnodes_r inode_r)

lemma write_mem_ok:
  assumes "mem_ok e n" "rf_mem n = Rf_data mem" "0 \<le> p" "0 \<le> k" "k \<le> int (length buf)" "k \<le> int (PAGE_SIZE e) - p"
  shows "mem_ok e (n\<lparr>rf_mem := Rf_data (take (nat p) mem @ take (nat k) buf @ drop (nat (p + k)) mem), rf_size := z\<rparr>)"
  using assms by (auto simp: mem_ok_def min_def nat_le_iff nat_add_distrib)

lemma off_t_le: "0 \<le> x \<Longrightarrow> off_t x \<le> x"
  by (simp add: off_t_def signed_take_bit_int_less_eq_self_iff) 

lemma write_r:
  assumes ok: "rok e s"
  shows "yields (ramfs_write e v p buf s) (\<lambda>(r, s'). after (rok e) s (refs s) s')"
proof (rule yieldsI)
  fix x assume x: "ramfs_write e v p buf s = Some x"
  define k where "k = min (off_t (int (length buf))) (int (PAGE_SIZE e) - p)"
  obtain vn where vn: "vnodes s v = Some vn" using x by (cases "vnodes s v") (auto simp: ramfs_write_def)
  obtain n where n: "inode_at (vn_vno vn) s = Some n" using rokD(4) [OF ok vn] by blast
  obtain mem where mem: "rf_mem n = Rf_data mem" using x by (cases "rf_mem n") (auto simp: ramfs_write_def VNODE_TO_RAMFSINODE_def vn n split: if_splits)
  have pk: "0 \<le> p" "0 \<le> k"
    and run: "x = (Inr k, (set_inode (vn_vno vn) (Some (n\<lparr>rf_mem := Rf_data (take (nat p) mem @ take (nat k) buf @ drop (nat (p + k)) mem), rf_size := max (vn_len vn) (p + k)\<rparr>)) s)
      \<lparr>vnodes := (vnodes s)(v \<mapsto> vn\<lparr>vn_len := max (vn_len vn) (p + k)\<rparr>)\<rparr>)"
    using x unfolding ramfs_write_def Let_def k_def [symmetric]
    by (auto simp: VNODE_TO_RAMFSINODE_def upd_inode_def upd_vn_def vn n mem split: if_splits)
  let ?n = "n\<lparr>rf_mem := Rf_data (take (nat p) mem @ take (nat k) buf @ drop (nat (p + k)) mem), rf_size := max (vn_len vn) (p + k)\<rparr>"
  let ?s = "set_inode (vn_vno vn) (Some ?n) s"
  have "k \<le> int (length buf)" "k \<le> int (PAGE_SIZE e) - p" using off_t_le [of "int (length buf)"] by (auto simp: k_def)
  then have "mem_ok e ?n" using write_mem_ok [OF _ mem pk] rokD(3) [OF ok n] by simp
  then have "rok e ?s" using rok_set_inode [OF ok n] by simp
  then have "rok e (?s\<lparr>vnodes := (vnodes ?s)(v \<mapsto> vn\<lparr>vn_len := max (vn_len vn) (p + k)\<rparr>)\<rparr>)"
    by (rule rok_upd_vn) (use vn vn_ok_vnode [OF rokD(2) [OF ok] vn] in \<open>auto simp: vnode_ok_def\<close>)
  moreover have "refs (?s\<lparr>vnodes := (vnodes ?s)(v \<mapsto> vn\<lparr>vn_len := z\<rparr>)\<rparr>) = refs s" for z
    using vn by (auto simp: refs_def fun_eq_iff)
  moreover have "same_files s (?s\<lparr>vnodes := (vnodes ?s)(v \<mapsto> vn\<lparr>vn_len := z\<rparr>)\<rparr>)" for z by (simp add: same_files_def set_inode_def)
  ultimately show "case x of (r, s') \<Rightarrow> after (rok e) s (refs s) s'" by (simp add: run after_def)
qed

lemma special_r:
  "rok e s \<Longrightarrow> yields (special_file_read dev v p l s) (\<lambda>(r, b, s'). after (rok e) s (refs s) s')"
  "rok e s \<Longrightarrow> yields (special_file_write dev v p buf s) (\<lambda>(r, s'). after (rok e) s (refs s) s')"
  by (auto simp: special_file_read_def special_file_write_def after_def split: prod.split intro!: vnodes_r yields_ifI yieldsI)

lemma by_mode_some:
  "by_mode s v a b c d = Some f \<Longrightarrow> a = Some f \<or> b = Some f \<or> c = Some f \<or> d = Some f"
  by (cases "vnodes s v"; cases "vn_mode (the (vnodes s v))") (auto simp: by_mode_def)

lemma special_stat_r:
  "rok e s \<Longrightarrow> yields (special_file_stat (by_mode s w (Some (ramfs_stat e)) (Some (ramfs_stat e)) None None) v s) (\<lambda>(r, st, s'). after (rok e) s (refs s) s')"
  by (cases "by_mode s w (Some (ramfs_stat e)) (Some (ramfs_stat e)) None None")
    (auto simp: special_file_stat_def dest!: by_mode_some intro: stat_r)

section \<open>The contract of the file system\<close>

lemma ramfs_vops:
  "vop_lookup (ramfs_ops e) s d = Some f1 \<Longrightarrow> f1 = ramfs_lookup e d"
  "vop_create (ramfs_ops e) s d = Some f1 \<Longrightarrow> f1 = ramfs_create e d"
  "vop_mknod (ramfs_ops e) s d = Some f2 \<Longrightarrow> f2 = ramfs_mknod e d"
  "vop_link (ramfs_ops e) s d = Some f3 \<Longrightarrow> f3 = (\<lambda>v. ramfs_link e v d)"
  "vop_unlink (ramfs_ops e) s d = Some f4 \<Longrightarrow> f4 = ramfs_unlink e d"
  "vop_mkdir (ramfs_ops e) s d = Some f4 \<Longrightarrow> f4 = ramfs_mkdir e d"
  "vop_rmdir (ramfs_ops e) s d = Some f4 \<Longrightarrow> f4 = ramfs_rmdir e d"
  "vop_readdir (ramfs_ops e) s d = Some f5 \<Longrightarrow> f5 = ramfs_readdir e d"
  "vop_read (ramfs_ops e) s d = Some f6 \<Longrightarrow> f6 = ramfs_read d \<or> f6 = special_file_read (devs e) d"
  "vop_write (ramfs_ops e) s d = Some f7 \<Longrightarrow> f7 = ramfs_write e d \<or> f7 = special_file_write (devs e) d"
  "vop_stat (ramfs_ops e) s d = Some f8 \<Longrightarrow> f8 = ramfs_stat e d \<or>
     f8 = special_file_stat (by_mode s (vfs_root_vn s) (Some (ramfs_stat e)) (Some (ramfs_stat e)) None None) d"
  by (simp_all add: ramfs_ops_def) (drule by_mode_some, blast)+

interpretation rf: file_system "ramfs_ops e" "rok e" for e
proof (unfold_locales, goal_cases)
  case (6 s v)
  then show ?case using ramfs_vput by simp
next
  case (7 s)
  then show ?case using rokD(1) by (simp add: env_ok_def)
next
  case (8 s d f n l)
  have "after (rok e) s (refs s) s" using 8(1) by (simp add: after_def)
  then show ?case unfolding ramfs_vops(1) [OF 8(2)] by (rule lookup_r) simp
qed (auto dest!: ramfs_vops intro: rokD(2) ramfs_vref
  intro!: create_r mknod_r link_r unlink_r mkdir_r rmdir_r read_r write_r readdir_r stat_r special_r special_stat_r)

end
