(* ===== verification/Ramfs_Path.thy ===== *)
theory Ramfs_Path
  imports Ramfs_Inv
begin

text \<open>
  Paths on the file system in memory: \<open>dir_namev\<close> finds what walking the tree of directories finds.

  The tree is what does not depend on which vnodes are in use: for each inode its page, its type, and its links
  without the one that a vnode in use holds.
\<close>

section \<open>The tree of directories\<close>

definition in_use :: "rfs \<Rightarrow> nat \<Rightarrow> bool" where
  "in_use s i \<longleftrightarrow> (\<exists>v vn. vnodes s v = Some vn \<and> vn_vno vn = i)"

type_synonym fs_tree = "nat \<Rightarrow> (rf_mem \<times> ramfs_type \<times> int) option"

definition fs_tree :: "rfs \<Rightarrow> fs_tree" where
  "fs_tree s i = map_option (\<lambda>n. (rf_mem n, rf_mode n, rf_linkcount n - of_bool (in_use s i))) (inode_at i s)"

fun split_path :: "string \<Rightarrow> string list" where
  "split_path [] = [[]]"
| "split_path (c # cs) = (if c = CHR ''/'' then [] # split_path cs else (c # hd (split_path cs)) # tl (split_path cs))"

definition components :: "string \<Rightarrow> string list" where
  "components p = filter (\<lambda>w. w \<noteq> []) (split_path p)"

definition is_dir :: "fs_tree \<Rightarrow> nat \<Rightarrow> bool" where
  "is_dir t i = (case t i of Some (_, ty, _) \<Rightarrow> ty = RAMFS_TYPE_DIR | None \<Rightarrow> False)"

definition entry :: "fs_tree \<Rightarrow> nat \<Rightarrow> string \<Rightarrow> nat option" where
  "entry t i w = (case t i of Some (Rf_dirents es, _) \<Rightarrow> map_option rd_ino (find (\<lambda>en. rd_name en = w) es) | _ \<Rightarrow> None)"

text \<open>The inode of the directory of the last component, and the last component.\<close>

fun walk_to :: "vfs_config \<Rightarrow> fs_tree \<Rightarrow> nat \<Rightarrow> string list \<Rightarrow> errno + nat \<times> string" where
  "walk_to cfg t i [] = Inr (i, [])"
| "walk_to cfg t i [w] = (if NAME_LEN cfg < length w then Inl ENAMETOOLONG else Inr (i, w))"
| "walk_to cfg t i (w # w' # ws) =
     (if NAME_LEN cfg < length w then Inl ENAMETOOLONG
      else if \<not> is_dir t i then Inl ENOTDIR
      else (case entry t i w of None \<Rightarrow> Inl ENOENT | Some j \<Rightarrow> walk_to cfg t j (w' # ws)))"

definition resolve :: "vfs_config \<Rightarrow> fs_tree \<Rightarrow> nat \<Rightarrow> string \<Rightarrow> errno + nat \<times> string" where
  "resolve cfg t i path =
     (if path = [] then Inl EINVAL
      else if MAXPATHLEN cfg < length path then Inl ENAMETOOLONG
      else (case walk_to cfg t i (components path) of
          Inl er \<Rightarrow> Inl er
        | Inr (j, w) \<Rightarrow> if is_dir t j then Inr (j, w) else Inl ENOTDIR))"

text \<open>
  A tree is well formed if every entry names an inode, and directories and inodes that are named have a link of their own.
\<close>

definition named :: "fs_tree \<Rightarrow> nat \<Rightarrow> bool" where
  "named t i \<longleftrightarrow> (\<exists>j w. w \<noteq> [] \<and> entry t j w = Some i)"

definition linked :: "fs_tree \<Rightarrow> nat \<Rightarrow> bool" where
  "linked t i \<longleftrightarrow> (case t i of Some (_, _, k) \<Rightarrow> 1 \<le> k | None \<Rightarrow> False)"

definition tree_ok :: "fs_tree \<Rightarrow> bool" where
  "tree_ok t \<longleftrightarrow> (\<forall>i. named t i \<or> is_dir t i \<longrightarrow> linked t i)"

text \<open>What is relied on of \<open>name_match\<close>: it compares a name with the first characters of a string.\<close>

definition match_ok :: "ramfs_env \<Rightarrow> bool" where
  "match_ok e \<longleftrightarrow> (\<forall>f n l. l \<le> length n \<longrightarrow> name_match e f n l = (f = take l n))"

section \<open>Splitting paths\<close>

lemma split_path_takeWhile:
  "split_path p = takeWhile (\<lambda>c. c \<noteq> CHR ''/'') p # (case dropWhile (\<lambda>c. c \<noteq> CHR ''/'') p of [] \<Rightarrow> [] | _ # q \<Rightarrow> split_path q)"
proof (induction p)
  case (Cons c p)
  show ?case
  proof (cases "c = CHR ''/''")
    case False
    then show ?thesis by (simp only: split_path.simps if_False takeWhile.simps dropWhile.simps) (subst Cons.IH, subst Cons.IH, simp)
  qed simp
qed simp

lemma components_slashes: "components (dropWhile (\<lambda>c. c = CHR ''/'') p) = components p"
  by (induction p) (simp_all add: components_def)

lemma components_cons:
  assumes "p \<noteq> []" "hd p \<noteq> CHR ''/''" "j = length (takeWhile (\<lambda>c. c \<noteq> CHR ''/'') p)" "k = length (takeWhile (\<lambda>c. c = CHR ''/'') (drop j p))"
  shows "components p = take j p # components (drop (j + k) p)" "0 < j" "drop (j + k) p = [] \<or> hd (drop (j + k) p) \<noteq> CHR ''/''"
proof -
  have j: "take j p = takeWhile (\<lambda>c. c \<noteq> CHR ''/'') p" "drop j p = dropWhile (\<lambda>c. c \<noteq> CHR ''/'') p"
    unfolding assms(3) by (rule takeWhile_eq_take [symmetric], rule dropWhile_eq_drop [symmetric])
  have k: "drop (j + k) p = dropWhile (\<lambda>c. c = CHR ''/'') (drop j p)"
    unfolding assms(4) dropWhile_eq_drop by (simp add: add.commute)
  show "0 < j" using assms(1-3) by (cases p) auto
  show "drop (j + k) p = [] \<or> hd (drop (j + k) p) \<noteq> CHR ''/''" unfolding k using hd_dropWhile by blast
  have "take j p \<noteq> []" using \<open>0 < j\<close> assms(1) by simp
  then have "components p = take j p # filter (\<lambda>w. w \<noteq> []) (case drop j p of [] \<Rightarrow> [] | _ # q \<Rightarrow> split_path q)"
    unfolding components_def j by (subst split_path_takeWhile) simp
  also have "filter (\<lambda>w. w \<noteq> []) (case drop j p of [] \<Rightarrow> [] | _ # q \<Rightarrow> split_path q) = components (drop j p)"
  proof (cases "drop j p")
    case (Cons c q)
    then have "c = CHR ''/''" using j(2) hd_dropWhile [of "\<lambda>c. c \<noteq> CHR ''/''" p] by (metis list.sel(1) list.distinct(1))
    then show ?thesis using Cons by (simp add: components_def)
  qed (simp add: components_def)
  finally show "components p = take j p # components (drop (j + k) p)" unfolding k components_slashes .
qed

section \<open>What taking and dropping vnodes leaves of the tree\<close>

lemma fs_tree_upd_vn:
  assumes "vnodes s v = Some vn" "vn_vno vn' = vn_vno vn"
  shows "fs_tree (s\<lparr>vnodes := (vnodes s)(v \<mapsto> vn')\<rparr>) = fs_tree s"
proof -
  have "in_use (s\<lparr>vnodes := (vnodes s)(v \<mapsto> vn')\<rparr>) i = in_use s i" for i
    using assms unfolding in_use_def by (auto split: if_splits) (metis option.inject)
  then show ?thesis by (simp add: fs_tree_def fun_eq_iff)
qed

lemma vref_tree:
  assumes "vref v s = Some s'"
  shows "fs_tree s' = fs_tree s"
  using assms fs_tree_upd_vn by (auto simp: vref_def bind_eq_Some_conv split: if_splits)

lemma vget_tree:
  assumes ok: "rok e s" and run: "vget (ramfs_fs_ops e) vno s = Some (v, s')"
  shows "fs_tree s' = fs_tree s"
  using ok run
proof (cases rule: ramfs_vget_cases)
  case (found vn)
  then show ?thesis by (simp add: vref_tree)
next
  case (fresh n)
  have ino: "rf_ino n = vno" using rokD(3) [OF ok fresh(1)] by simp
  have "vnodes s' = (vnodes s)(v \<mapsto> new_vnode n)" "vn_vno (new_vnode n) = vno" by (simp_all add: fresh(5) new_vnode_def ino)
  then have "in_use s' i \<longleftrightarrow> in_use s i \<or> i = vno" for i
    using fresh(2) unfolding in_use_def by (metis fun_upd_apply option.distinct(1) option.inject)
  moreover have "\<not> in_use s vno" using fresh(4) by (auto simp: in_use_def)
  ultimately show ?thesis using fresh(1) inode_at_less [OF fresh(1)]
    by (auto simp: fs_tree_def fun_eq_iff fresh(5) inode_at_set)
qed

lemma find_vnode_returns: "set l \<subseteq> dom vs \<Longrightarrow> \<exists>r. find_vnode vs l vno = Some r"
  by (induction l) auto

lemma vget_returns:
  assumes ok: "rok e s" and n: "inode_at vno s = Some n"
  shows "\<exists>v s'. vget (ramfs_fs_ops e) vno s = Some (v, s')"
proof -
  obtain r where r: "find_vnode (vnodes s) (vnode_inuse_list s) vno = Some r"
    using find_vnode_returns [of "vnode_inuse_list s" "vnodes s" vno] rokD(2) [OF ok] by (auto simp: vn_ok_def)
  show ?thesis
  proof (cases r)
    case None
    have "rf_ino n = vno" using rokD(3) [OF ok n] by simp
    then show ?thesis using r None n
      by (auto simp: vget_def Let_def ramfs_read_vnode_def upd_inode_def VNODE_TO_RAMFSINODE_def upd_vn_def)
  next
    case (Some v)
    then obtain vn where vn: "vnodes s v = Some vn" using find_vnode_some(1) r by metis
    then show ?thesis using r Some vn_ok_vnode [OF rokD(2) [OF ok] vn] by (auto simp: vget_def vref_def vnode_ok_def)
  qed
qed

lemma vput_tree:
  assumes ok: "rok e s" and pos: "0 < refs s v" and vn: "vnodes s v = Some vn" and t: "fs_tree s (vn_vno vn) = Some (m, ty, k)" "1 \<le> k"
    and run: "vput (ramfs_fs_ops e) v s = Some s'"
  shows "fs_tree s' = fs_tree s"
  using rokD(2) [OF ok] pos
proof (cases rule: vput_cases [where ops = "ramfs_fs_ops e"])
  case (keep wn wn')
  have "vn_vno wn' = vn_vno wn" using keep(4) by (metis vnode.select_convs(1) vnode.surjective vnode.update_convs(4,5))
  then show ?thesis using keep(1,2) run fs_tree_upd_vn [of s v wn wn'] by simp
next
  case (last wn wn')
  have vno: "vn_vno wn' = vn_vno wn" "wn = vn" using last(1,3) vn by simp_all
  obtain u n where u: "ramfs_delete_vnode v (s\<lparr>vnodes := (vnodes s)(v \<mapsto> wn')\<rparr>) = Some u" and n: "inode_at (vn_vno wn) s = Some n"
    and eq: "u = set_inode (vn_vno wn) (if rf_linkcount n = 1 then None else Some (n\<lparr>rf_linkcount := rf_linkcount n - 1\<rparr>)) (s\<lparr>vnodes := (vnodes s)(v \<mapsto> wn')\<rparr>)"
    by (rule ramfs_delete [OF ok last(1) vno(1)])
  have use: "in_use s (vn_vno vn)" using vn by (auto simp: in_use_def)
  then have links: "2 \<le> rf_linkcount n" using t n vno(2) by (auto simp: fs_tree_def)
  have s': "s' = (set_inode (vn_vno vn) (Some (n\<lparr>rf_linkcount := rf_linkcount n - 1\<rparr>)) s)\<lparr>vnodes := (vnodes s)(v := None), vnode_inuse_list := remove1 v (vnode_inuse_list s)\<rparr>"
    using run last(4) u eq links vno(2) by (simp add: set_inode_def)
  have uniq: "w = v" if "vnodes s w = Some x" "vn_vno x = vn_vno vn" for w x
    using rokD(2) [OF ok] vn that unfolding vn_ok_def by metis
  have "vnodes s' = (vnodes s)(v := None)" by (simp add: s')
  then have "in_use s' i \<longleftrightarrow> in_use s i \<and> i \<noteq> vn_vno vn" for i
    using uniq vn unfolding in_use_def by (metis fun_upd_apply option.distinct(1) option.inject)
  then show ?thesis using use n vno(2) inode_at_less [OF n] by (auto simp: fs_tree_def fun_eq_iff s' inode_at_set)
qed

section \<open>Walking\<close>

declare namev_loop.simps [simp del]

lemma find_find_index: "find P xs = (if find_index P xs < length xs then Some (xs ! find_index P xs) else None)"
  by (induction xs) auto

lemma find_index_cong: "(\<And>x. x \<in> set xs \<Longrightarrow> P x = Q x) \<Longrightarrow> find_index P xs = find_index Q xs"
  by (induction xs) auto

lemma vnode_inode:
  assumes "rok e s" "vnodes s d = Some vn"
  obtains n where "inode_at (vn_vno vn) s = Some n" "fs_tree s (vn_vno vn) = Some (rf_mem n, rf_mode n, rf_linkcount n - of_bool (in_use s (vn_vno vn)))"
    "mem_ok e n" "S_ISDIR (vn_mode vn) \<longleftrightarrow> is_dir (fs_tree s) (vn_vno vn)"
proof -
  obtain n where n: "inode_at (vn_vno vn) s = Some n" "vn_mode vn = mode_of (rf_mode n)" using rokD(4) [OF assms] by blast
  show thesis by (rule that [of n]) (use n rokD(3) [OF assms(1) n(1)] in \<open>auto simp: fs_tree_def is_dir_def S_ISDIR_def mode_of_def split: ramfs_type.split\<close>)
qed

lemma lookup_tree:
  assumes ok: "rok e s" and vn: "vnodes s d = Some vn" and m: "match_ok e" and t: "tree_ok (fs_tree s)" and j: "0 < j" "j < length rest"
  shows "\<not> is_dir (fs_tree s) (vn_vno vn) \<Longrightarrow> lookup (ramfs_ops e) d rest j s = Some (Inl ENOTDIR, s)"
    and "is_dir (fs_tree s) (vn_vno vn) \<Longrightarrow> entry (fs_tree s) (vn_vno vn) (take j rest) = None \<Longrightarrow> lookup (ramfs_ops e) d rest j s = Some (Inl ENOENT, s)"
    and "is_dir (fs_tree s) (vn_vno vn) \<Longrightarrow> entry (fs_tree s) (vn_vno vn) (take j rest) = Some i \<Longrightarrow>
      \<exists>v s' wn vn'. lookup (ramfs_ops e) d rest j s = Some (Inr v, s') \<and> vnodes s' v = Some wn \<and> vn_vno wn = i \<and> fs_tree s' = fs_tree s \<and>
        vnodes s' d = Some vn' \<and> vn_vno vn' = vn_vno vn"
proof -
  obtain n where n: "inode_at (vn_vno vn) s = Some n" "fs_tree s (vn_vno vn) = Some (rf_mem n, rf_mode n, rf_linkcount n - of_bool (in_use s (vn_vno vn)))"
    "mem_ok e n" "S_ISDIR (vn_mode vn) \<longleftrightarrow> is_dir (fs_tree s) (vn_vno vn)"
    by (rule vnode_inode [OF ok vn])
  have d: "d \<noteq> NULL" using vn_ok_vnode [OF rokD(2) [OF ok] vn] by simp
  show "\<not> is_dir (fs_tree s) (vn_vno vn) \<Longrightarrow> lookup (ramfs_ops e) d rest j s = Some (Inl ENOTDIR, s)"
    using n(4) d by (simp add: lookup_def vn)
  assume dir: "is_dir (fs_tree s) (vn_vno vn)"
  then have mode: "vn_mode vn = S_IFDIR" and ty: "rf_mode n = RAMFS_TYPE_DIR" using n(2,4) by (auto simp: S_ISDIR_def is_dir_def)
  obtain es where es: "rf_mem n = Rf_dirents es" using n(3) ty by (cases "rf_mem n") (auto simp: mem_ok_def)
  have "rest \<noteq> ''.''" using j by auto
  then have run: "lookup (ramfs_ops e) d rest j s = ramfs_lookup e d rest j s"
    using d j(1) mode by (simp add: lookup_def vn S_ISDIR_def ramfs_ops_def by_mode_def)
  have ent: "VNODE_TO_DIRENT d s = Some es" using n(1) by (simp add: VNODE_TO_DIRENT_def VNODE_TO_RAMFSINODE_def vn es)
  have idx: "find_index (\<lambda>en. name_match e (rd_name en) rest j) es = find_index (\<lambda>en. rd_name en = take j rest) es"
    by (rule find_index_cong) (use m j(2) in \<open>auto simp: match_ok_def\<close>)
  have look: "entry (fs_tree s) (vn_vno vn) (take j rest) =
      (let k = find_index (\<lambda>en. rd_name en = take j rest) es in if k < length es then Some (rd_ino (es ! k)) else None)"
    by (simp add: entry_def n(2) es find_find_index Let_def)
  show "entry (fs_tree s) (vn_vno vn) (take j rest) = None \<Longrightarrow> lookup (ramfs_ops e) d rest j s = Some (Inl ENOENT, s)"
    using look by (simp add: run ramfs_lookup_def ent idx Let_def split: if_splits)
  assume i: "entry (fs_tree s) (vn_vno vn) (take j rest) = Some i"
  have "take j rest \<noteq> []" using j by auto
  then have "linked (fs_tree s) i" using t i unfolding tree_ok_def named_def by blast
  then obtain ni where "inode_at i s = Some ni" by (auto simp: linked_def fs_tree_def split: option.splits)
  then obtain v s' where v: "vget (ramfs_fs_ops e) i s = Some (v, s')" using vget_returns [OF ok] by blast
  have "lookup (ramfs_ops e) d rest j s = Some (Inr v, s')"
    using look i v by (simp add: run ramfs_lookup_def ent idx Let_def split: if_splits)
  then show "\<exists>v s' wn vn'. lookup (ramfs_ops e) d rest j s = Some (Inr v, s') \<and> vnodes s' v = Some wn \<and> vn_vno wn = i \<and> fs_tree s' = fs_tree s \<and>
        vnodes s' d = Some vn' \<and> vn_vno vn' = vn_vno vn"
    using ramfs_vget [OF ok v] vn vget_tree [OF ok v] by metis
qed

lemma vput_vnodes:
  assumes ok: "rok e s" and pos: "0 < refs s v" and run: "vput (ramfs_fs_ops e) v s = Some s'" and w: "vnodes s w = Some wn" "0 < refs s' w"
  shows "\<exists>wn'. vnodes s' w = Some wn' \<and> vn_vno wn' = vn_vno wn"
  using rokD(2) [OF ok] pos
proof (cases rule: vput_cases [where ops = "ramfs_fs_ops e"])
  case (keep vn vn')
  have "vn_vno vn' = vn_vno vn" using keep(4) by (metis vnode.select_convs(1) vnode.surjective vnode.update_convs(4,5))
  then show ?thesis using keep(1,2) run w(1) by (cases "w = v") auto
next
  case (last vn vn')
  have vno: "vn_vno vn' = vn_vno vn" using last(3) by simp
  obtain u n where u: "ramfs_delete_vnode v (s\<lparr>vnodes := (vnodes s)(v \<mapsto> vn')\<rparr>) = Some u"
    and eq: "u = set_inode (vn_vno vn) (if rf_linkcount n = 1 then None else Some (n\<lparr>rf_linkcount := rf_linkcount n - 1\<rparr>)) (s\<lparr>vnodes := (vnodes s)(v \<mapsto> vn')\<rparr>)"
    by (rule ramfs_delete [OF ok last(1) vno])
  have s': "vnodes s' = (vnodes s)(v := None)" using run last(4) u eq by auto
  then have "w \<noteq> v" using w(2) by (auto simp: refs_def)
  then show ?thesis using w(1) s' by simp
qed

text \<open>Dropping a directory that the walk leaves.\<close>

lemma leave:
  assumes inv: "finv (rok e) T (add_mset d W) s" and vn: "vnodes s d = Some vn" and l: "linked (fs_tree s) (vn_vno vn)"
  obtains s' where "vput (ramfs_ops e) d s = Some s'" "finv (rok e) T W s'" "fs_tree s' = fs_tree s"
    "\<And>w wn. w \<in># W \<Longrightarrow> vnodes s w = Some wn \<Longrightarrow> \<exists>wn'. vnodes s' w = Some wn' \<and> vn_vno wn' = vn_vno wn"
proof -
  have ok: "rok e s" by (rule finvD(1) [OF inv])
  have pos: "0 < refs s d" by (rule finv_refs_pos [OF inv]) simp
  obtain s' where s': "vput (ramfs_ops e) d s = Some s'" "finv (rok e) T W s'" using rf.vput_inv [OF inv, of d] by auto
  obtain m ty k where t: "fs_tree s (vn_vno vn) = Some (m, ty, k)" "1 \<le> k" using l by (auto simp: linked_def split: option.splits)
  show thesis
    by (rule that [OF s' vput_tree [OF ok pos vn t s'(1) [unfolded same_ops]] vput_vnodes [OF ok pos s'(1) [unfolded same_ops] _ finv_refs_pos [OF s'(2)]]])
qed

text \<open>One step of the walk, when there is more of the path to come.\<close>

lemma walk_step:
  assumes m: "match_ok e" and t: "tree_ok t" "fs_tree s = t" and inv: "finv (rok e) T (add_mset d W) s" and vn: "vnodes s d = Some vn"
    and l: "linked t (vn_vno vn)" and j: "0 < j" "j < length rest"
  shows "case (if \<not> is_dir t (vn_vno vn) then Inl ENOTDIR else case entry t (vn_vno vn) (take j rest) of None \<Rightarrow> Inl ENOENT | Some i \<Rightarrow> Inr i) of
      Inl er \<Rightarrow> \<exists>s'. do { (r, s) \<leftarrow> lookup (ramfs_ops e) d rest j s; s \<leftarrow> vput (ramfs_ops e) d s; (case r of Inl e \<Rightarrow> Some (Inl e, s) | Inr v \<Rightarrow> f v s) } =
        Some (Inl er, s') \<and> fs_tree s' = t
    | Inr i \<Rightarrow> \<exists>v wn s'. do { (r, s) \<leftarrow> lookup (ramfs_ops e) d rest j s; s \<leftarrow> vput (ramfs_ops e) d s; (case r of Inl e \<Rightarrow> Some (Inl e, s) | Inr v \<Rightarrow> f v s) } =
        f v s' \<and> finv (rok e) T (add_mset v W) s' \<and> vnodes s' v = Some wn \<and> vn_vno wn = i \<and> fs_tree s' = t \<and> linked t i"
proof -
  have ok: "rok e s" by (rule finvD(1) [OF inv])
  note look = lookup_tree [OF ok vn m, unfolded t(2), OF t(1) j]
  obtain s1 where s1: "vput (ramfs_ops e) d s = Some s1" "fs_tree s1 = t" using leave [OF inv vn] l t(2) by metis
  show ?thesis
  proof (cases "is_dir t (vn_vno vn)")
    case False
    then show ?thesis using look(1) s1 by simp
  next
    case dir: True
    show ?thesis
    proof (cases "entry t (vn_vno vn) (take j rest)")
      case None
      then show ?thesis using look(2) [OF dir] dir s1 by simp
    next
      case (Some i)
      obtain v s2 wn vn' where s2: "lookup (ramfs_ops e) d rest j s = Some (Inr v, s2)" "vnodes s2 v = Some wn" "vn_vno wn = i" "fs_tree s2 = t"
        "vnodes s2 d = Some vn'" "vn_vno vn' = vn_vno vn"
        using look(3) [OF dir Some] by blast
      have "finv (rok e) T (add_mset v (add_mset d W)) s2"
        using yieldsD [OF rf.lookup_y [OF inv, of "\<lambda>(r, s'). finv (rok e) T (gained r + add_mset d W) s'"] s2(1)] by (simp add: add_mset_commute)
      then have inv2: "finv (rok e) T (add_mset d (add_mset v W)) s2" by (simp add: add_mset_commute)
      obtain s3 where s3: "vput (ramfs_ops e) d s2 = Some s3" "finv (rok e) T (add_mset v W) s3" "fs_tree s3 = fs_tree s2"
        "\<And>w wn. w \<in># add_mset v W \<Longrightarrow> vnodes s2 w = Some wn \<Longrightarrow> \<exists>wn'. vnodes s3 w = Some wn' \<and> vn_vno wn' = vn_vno wn"
        using leave [OF inv2 s2(5)] l s2(4,6) by metis
      obtain wn' where wn': "vnodes s3 v = Some wn'" "vn_vno wn' = i" using s3(4) [of v wn] s2(2,3) by auto
      have "take j rest \<noteq> []" using j by auto
      then have "linked t i" using t(1) Some unfolding tree_ok_def named_def by blast
      moreover have "do { (r, s) \<leftarrow> lookup (ramfs_ops e) d rest j s; s \<leftarrow> vput (ramfs_ops e) d s; (case r of Inl e \<Rightarrow> Some (Inl e, s) | Inr v \<Rightarrow> f v s) } = f v s3"
        using s2(1) s3(1) by simp
      ultimately show ?thesis using dir Some wn' s3(2,3) s2(4) by auto
    qed
  qed
qed

lemma walk_loop:
  assumes "match_ok e" "tree_ok t" "rest = [] \<or> hd rest \<noteq> CHR ''/''"
    and "finv (rok e) T (add_mset d W) s" "vnodes s d = Some vn" "fs_tree s = t" "linked t (vn_vno vn)"
  shows "case walk_to cfg t (vn_vno vn) (components rest) of
      Inl er \<Rightarrow> \<exists>s'. namev_loop (ramfs_ops e) cfg d rest s = Some (Inl er, s') \<and> fs_tree s' = t
    | Inr (i, w) \<Rightarrow> \<exists>d' dn name s'. namev_loop (ramfs_ops e) cfg d rest s = Some (Inr (d', name, length w), s') \<and> take (length w) name = w \<and>
        vnodes s' d' = Some dn \<and> vn_vno dn = i \<and> fs_tree s' = t \<and> linked t i"
  using assms(3-)
proof (induction rest arbitrary: d s vn rule: measure_induct_rule [of length])
  case (less rest)
  note inv = less.prems(2) and vn = less.prems(3) and t = less.prems(4) and l = less.prems(5)
  define j where "j = length (takeWhile (\<lambda>c. c \<noteq> CHR ''/'') rest)"
  define k where "k = length (takeWhile (\<lambda>c. c = CHR ''/'') (drop j rest))"
  note run = namev_loop_eq [OF j_def k_def, of "ramfs_ops e" cfg d s]
  show ?case
  proof (cases "rest = []")
    case True
    then show ?thesis using vn t l run by (simp add: components_def j_def k_def)
  next
    case ne: False
    note c = components_cons [OF ne _ j_def k_def]
    have hd: "hd rest \<noteq> CHR ''/''" using less.prems(1) ne by simp
    have jl: "j \<le> length rest" by (simp add: j_def length_takeWhile_le)
    then have lt: "length (take j rest) = j" by simp
    show ?thesis
    proof (cases "NAME_LEN cfg < j")
      case True
      obtain s' where "vput (ramfs_ops e) d s = Some s'" "fs_tree s' = fs_tree s" using leave [OF inv vn] l t by metis
      moreover have "walk_to cfg t (vn_vno vn) (components rest) = Inl ENAMETOOLONG"
        unfolding c(1) [OF hd] using True lt by (cases "components (drop (j + k) rest)") simp_all
      ultimately show ?thesis using True run t by simp
    next
      case fits: False
      show ?thesis
      proof (cases "drop (j + k) rest = []")
        case True
        have "components rest = [take j rest]" unfolding c(1) [OF hd] True by (simp add: components_def)
        then show ?thesis using True fits run vn t l lt by simp
      next
        case more: False
        have jless: "j < length rest" using more by simp
        obtain w ws where ws: "components (drop (j + k) rest) = w # ws"
          using components_cons(1) [OF more _ refl refl] c(3) [OF hd] more by metis
        have len: "length (drop (j + k) rest) < length rest" using c(2) [OF hd] ne by simp
        have next_hd: "drop (j + k) rest = [] \<or> hd (drop (j + k) rest) \<noteq> CHR ''/''" using c(3) [OF hd] .
        note step = walk_step [OF assms(1,2) t inv vn l c(2) [OF hd] jless, of "\<lambda>v s. namev_loop (ramfs_ops e) cfg v (drop (j + k) rest) s"]
        have eq: "walk_to cfg t (vn_vno vn) (components rest) =
            (case (if \<not> is_dir t (vn_vno vn) then Inl ENOTDIR else case entry t (vn_vno vn) (take j rest) of None \<Rightarrow> Inl ENOENT | Some i \<Rightarrow> Inr i) of
               Inl er \<Rightarrow> Inl er | Inr i \<Rightarrow> walk_to cfg t i (components (drop (j + k) rest)))"
          unfolding c(1) [OF hd] ws using fits lt by (simp split: option.split)
        show ?thesis
        proof (cases "if \<not> is_dir t (vn_vno vn) then Inl ENOTDIR else case entry t (vn_vno vn) (take j rest) of None \<Rightarrow> Inl ENOENT | Some i \<Rightarrow> Inr i")
          case (Inl er)
          then show ?thesis using step run fits more unfolding eq by simp
        next
          case (Inr i)
          then obtain v wn s' where s': "namev_loop (ramfs_ops e) cfg d rest s = namev_loop (ramfs_ops e) cfg v (drop (j + k) rest) s'"
            "finv (rok e) T (add_mset v W) s'" "vnodes s' v = Some wn" "vn_vno wn = i" "fs_tree s' = t" "linked t i"
            using step run fits more by auto
          from less.IH [OF len next_hd s'(2,3,5)] show ?thesis unfolding eq Inr sum.case s'(1) using s'(4,6) by simp
        qed
      qed
    qed
  qed
qed

text \<open>The references after \<open>dir_namev\<close>.\<close>

lemma dir_namev_refs:
  assumes inv: "vfs_inv cfg (rok e) E V s" and run: "dir_namev (ramfs_ops e) cfg path NULL s = Some (r, s')"
  shows "vfs_inv cfg (rok e) E (dir_gained r + V) s'"
proof -
  have root: "cur_cwd s \<in># add_mset (cur_cwd s) V" "vfs_root_vn s \<in># add_mset (cur_cwd s) V" using vfs_invD(3) [OF inv] by auto
  let ?Q = "\<lambda>(r, s'). finv (rok e) (E + opens s) (dir_gained r + add_mset (cur_cwd s) V) s' \<and> same_files s s'"
  have "?Q (r, s')" by (rule yieldsD [OF rf.dir_namev_y [OF vfs_invD(1) [OF inv] root] run]) simp
  then show ?thesis using inv by (simp add: vfs_inv_def same_files_def opens_def)
qed

lemma dir_namev_run:
  assumes "path \<noteq> []" "length path \<le> MAXPATHLEN cfg" "vref (if hd path = CHR ''/'' then vfs_root_vn s else cur_cwd s) s = Some s1"
  shows "dir_namev ops cfg path NULL s = do {
    (r, s) \<leftarrow> namev_loop ops cfg (if hd path = CHR ''/'' then vfs_root_vn s else cur_cwd s)
      (if hd path = CHR ''/'' then dropWhile (\<lambda>c. c = CHR ''/'') path else path) s1;
    (case r of Inl e \<Rightarrow> Some (Inl e, s)
     | Inr (base, name, namelen) \<Rightarrow> do {
         vn \<leftarrow> vnodes s base;
         if \<not> S_ISDIR (vn_mode vn) then do { s \<leftarrow> vput ops base s; Some (Inl ENOTDIR, s) }
         else Some (Inr (base, name, namelen), s)
       })
  }"
  using assms by (cases "hd path = CHR ''/''") (simp_all add: dir_namev_def)

lemma dir_namev_walk:
  assumes inv: "vfs_inv cfg (rok e) E V s" and m: "match_ok e" and t: "tree_ok (fs_tree s)"
    and vn: "vnodes s (if path \<noteq> [] \<and> hd path = CHR ''/'' then vfs_root_vn s else cur_cwd s) = Some vn" "is_dir (fs_tree s) (vn_vno vn)"
  shows "case resolve cfg (fs_tree s) (vn_vno vn) path of
      Inl er \<Rightarrow> \<exists>s'. dir_namev (ramfs_ops e) cfg path NULL s = Some (Inl er, s') \<and> fs_tree s' = fs_tree s
    | Inr (i, w) \<Rightarrow> \<exists>d dn name s'. dir_namev (ramfs_ops e) cfg path NULL s = Some (Inr (d, name, length w), s') \<and> take (length w) name = w \<and>
        vnodes s' d = Some dn \<and> vn_vno dn = i \<and> fs_tree s' = fs_tree s"
proof (cases "path = [] \<or> MAXPATHLEN cfg < length path")
  case True
  then show ?thesis by (auto simp: resolve_def dir_namev_def)
next
  case False
  define d where "d = (if hd path = CHR ''/'' then vfs_root_vn s else cur_cwd s)"
  define rest where "rest = (if hd path = CHR ''/'' then dropWhile (\<lambda>c. c = CHR ''/'') path else path)"
  let ?T = "E + opens s" and ?W = "add_mset (cur_cwd s) V"
  have dW: "d \<in># ?W" using vfs_invD(3) [OF inv] by (simp add: d_def)
  have d: "vnodes s d = Some vn" using vn(1) False by (simp add: d_def)
  obtain s1 where s1: "vref d s = Some s1" "finv (rok e) ?T (add_mset d ?W) s1" using rf.vref_inv [OF vfs_invD(1) [OF inv] dW] by blast
  have d1: "\<exists>vn1. vnodes s1 d = Some vn1 \<and> vn_vno vn1 = vn_vno vn" using s1(1) d by (auto simp: vref_def split: if_splits)
  have t1: "fs_tree s1 = fs_tree s" by (rule vref_tree [OF s1(1)])
  have hd: "rest = [] \<or> hd rest \<noteq> CHR ''/''" using hd_dropWhile [of "\<lambda>c. c = CHR ''/''" path] by (auto simp: rest_def)
  have comps: "components rest = components path" by (simp add: rest_def components_slashes)
  have l: "linked (fs_tree s) (vn_vno vn)" using t vn(2) unfolding tree_ok_def by blast
  obtain vn1 where vn1: "vnodes s1 d = Some vn1" "vn_vno vn1 = vn_vno vn" using d1 by blast
  note loop = walk_loop [OF m t hd s1(2) vn1(1) t1, unfolded vn1(2), OF l, of cfg, unfolded comps]
  note run = dir_namev_run [of path cfg s s1 "ramfs_ops e", folded d_def rest_def]
  show ?thesis
  proof (cases "walk_to cfg (fs_tree s) (vn_vno vn) (components path)")
    case (Inl er)
    then show ?thesis using loop run s1(1) False by (auto simp: resolve_def)
  next
    case (Inr iw)
    obtain i w where iw: "iw = (i, w)" by force
    obtain d' dn name s2 where s2: "namev_loop (ramfs_ops e) cfg d rest s1 = Some (Inr (d', name, length w), s2)" "take (length w) name = w"
      "vnodes s2 d' = Some dn" "vn_vno dn = i" "fs_tree s2 = fs_tree s" "linked (fs_tree s) i"
      using loop Inr iw by auto
    have inv2: "finv (rok e) ?T (add_mset d' ?W) s2" using yieldsD [OF rf.namev_loop_y [OF s1(2)] s2(1)] by (simp add: add_mset_commute)
    have mode: "S_ISDIR (vn_mode dn) \<longleftrightarrow> is_dir (fs_tree s) i" using vnode_inode [OF finvD(1) [OF inv2] s2(3)] s2(4,5) by metis
    obtain s3 where "vput (ramfs_ops e) d' s2 = Some s3" "fs_tree s3 = fs_tree s2" using leave [OF inv2 s2(3)] s2(4-6) by metis
    then show ?thesis using s2 mode run s1(1) False Inr iw by (auto simp: resolve_def)
  qed
qed

end
