(* ===== verification/Ramfs_Files.thy ===== *)
theory Ramfs_Files
  imports Ramfs_Path
begin

text \<open>
  Writing a file of the file system in memory and reading it again, through descriptors.
\<close>

section \<open>An open file\<close>

definition file_open :: "rfs \<Rightarrow> addr \<Rightarrow> file_t \<Rightarrow> bool" where
  "file_open s f fl \<longleftrightarrow> files s f = Some fl \<and> f \<noteq> NULL \<and> file_ok fl \<and> 0 < f_refcount fl"

abbreviation put_file :: "addr \<Rightarrow> file_t \<Rightarrow> rfs \<Rightarrow> rfs" where
  "put_file f fl s \<equiv> s\<lparr>files := (files s)(f \<mapsto> fl)\<rparr>"

lemma fget_open:
  assumes "\<not> bad_fd cfg fd s" "cur_files s ! nat fd = f" "file_open s f fl"
  shows "fget ops cfg fd s = Some (f, put_file f (fl\<lparr>f_refcount := f_refcount fl + 1\<rparr>) s)"
  using assms by (auto simp: fget_def bad_fd_def fref_def upd_file_def file_open_def file_ok_def)

lemma fput_open:
  assumes "file_open s f fl" "1 < f_refcount fl"
  shows "fput ops f s = Some (put_file f (fl\<lparr>f_refcount := f_refcount fl - 1\<rparr>) s)"
  using assms by (auto simp: fput_def upd_file_def file_open_def file_ok_def)

lemma lseek_open:
  assumes "\<not> bad_fd cfg fd s" "cur_files s ! nat fd = f" "file_open s f fl" "0 \<le> pos"
    and "wh = SEEK_CUR \<and> pos = off_t (f_pos fl + offset) \<or> wh = SEEK_SET \<and> pos = offset"
  shows "do_lseek ops cfg fd offset wh s = Some (Inr pos, put_file f (fl\<lparr>f_pos := pos\<rparr>) s)"
proof -
  let ?g = "fl\<lparr>f_refcount := f_refcount fl + 1\<rparr>"
  let ?h = "?g\<lparr>f_pos := pos\<rparr>"
  have "file_open (put_file f ?h s) f ?h" using assms(3,4) by (simp add: file_open_def file_ok_def)
  then have "fput ops f (put_file f ?h s) = Some (put_file f (fl\<lparr>f_pos := pos\<rparr>) s)" using fput_open [of "put_file f ?h s" f ?h ops] assms(3)
    by (simp add: file_open_def)
  then show ?thesis using assms(1,4,5) fget_open [OF assms(1-3), of ops] by (auto simp: do_lseek_def upd_file_def)
qed

section \<open>The page of a file\<close>

lemma ramfs_write_run:
  assumes "vnodes s v = Some vn" "inode_at (vn_vno vn) s = Some n" "vn_mode vn = S_IFREG" "rf_mem n = Rf_data mem" "vn_len vn = rf_size n"
    and "0 \<le> p" "p + int (length buf) \<le> int (PAGE_SIZE e)" "int (length buf) < 2 ^ 31"
  shows "ramfs_write e v p buf s = Some (Inr (int (length buf)),
    (set_inode (vn_vno vn) (Some (n\<lparr>rf_mem := Rf_data (take (nat p) mem @ buf @ drop (nat p + length buf) mem), rf_size := max (rf_size n) (p + int (length buf))\<rparr>)) s)
      \<lparr>vnodes := (vnodes s)(v \<mapsto> vn\<lparr>vn_len := max (rf_size n) (p + int (length buf))\<rparr>)\<rparr>)"
proof -
  have o: "off_t (int (length buf)) = int (length buf)" using assms(8) by (simp add: off_t_def signed_take_bit_int_eq_self_iff)
  have k: "min (off_t (int (length buf))) (int (PAGE_SIZE e) - p) = int (length buf)" unfolding o using assms(7) by simp
  have "nat (p + int (length buf)) = nat p + length buf" using assms(6) by (simp add: nat_add_distrib)
  then show ?thesis using assms unfolding ramfs_write_def Let_def k
    by (simp add: VNODE_TO_RAMFSINODE_def upd_inode_def upd_vn_def S_ISDIR_def)
qed

lemma ramfs_read_run:
  assumes "vnodes s v = Some vn" "inode_at (vn_vno vn) s = Some n" "vn_mode vn = S_IFREG" "rf_mem n = Rf_data mem"
    and "0 \<le> p" "p + int l \<le> rf_size n" "rf_size n \<le> int (length mem)" "int l < 2 ^ 31"
  shows "ramfs_read v p l s = Some (Inr (int l), take l (drop (nat p) mem), s)"
proof -
  have o: "off_t (int l) = int l" using assms(8) by (simp add: off_t_def signed_take_bit_int_eq_self_iff)
  have k: "max 0 (min (off_t (int l)) (rf_size n - p)) = int l" unfolding o using assms(6) by simp
  show ?thesis using assms unfolding ramfs_read_def Let_def
    by (auto simp: VNODE_TO_RAMFSINODE_def S_ISDIR_def k)
qed

section \<open>The system calls\<close>

text \<open>A regular file that is open at a descriptor, its vnode, its inode, and its page.\<close>

definition regular :: "ramfs_env \<Rightarrow> vfs_config \<Rightarrow> int \<Rightarrow> addr \<Rightarrow> file_t \<Rightarrow> vnode \<Rightarrow> ramfs_inode \<Rightarrow> byte list \<Rightarrow> rfs \<Rightarrow> bool" where
  "regular e cfg fd f fl vn n mem s \<longleftrightarrow> \<not> bad_fd cfg fd s \<and> cur_files s ! nat fd = f \<and> file_open s f fl \<and>
     vnodes s (f_vnode fl) = Some vn \<and> vn_mode vn = S_IFREG \<and> inode_at (vn_vno vn) s = Some n \<and> rf_mem n = Rf_data mem \<and>
     length mem = PAGE_SIZE e \<and> vn_len vn = rf_size n \<and> rf_size n \<le> int (PAGE_SIZE e) \<and> int (PAGE_SIZE e) < 2 ^ 31"

lemma regularD:
  assumes "regular e cfg fd f fl vn n mem s"
  shows "\<not> bad_fd cfg fd s" "cur_files s ! nat fd = f" "file_open s f fl" "vnodes s (f_vnode fl) = Some vn" "vn_mode vn = S_IFREG"
    "inode_at (vn_vno vn) s = Some n" "rf_mem n = Rf_data mem" "length mem = PAGE_SIZE e" "vn_len vn = rf_size n" "rf_size n \<le> int (PAGE_SIZE e)" "int (PAGE_SIZE e) < 2 ^ 31"
  using assms by (simp_all add: regular_def)

lemma off_t_id: "0 \<le> x \<Longrightarrow> x < 2 ^ 31 \<Longrightarrow> off_t x = x"
  by (simp add: off_t_def signed_take_bit_int_eq_self_iff)

definition written :: "ramfs_inode \<Rightarrow> int \<Rightarrow> byte list \<Rightarrow> byte list \<Rightarrow> ramfs_inode" where
  "written n p mem buf = n\<lparr>rf_mem := Rf_data (take (nat p) mem @ buf @ drop (nat p + length buf) mem), rf_size := max (rf_size n) (p + int (length buf))\<rparr>"

lemma do_write_run:
  assumes r: "regular e cfg fd f fl vn n mem s" and m: "f_mode fl AND FMODE_APPEND cfg = 0" "f_mode fl AND FMODE_WRITE cfg \<noteq> 0"
    and p: "0 \<le> f_pos fl" "f_pos fl + int (length buf) \<le> int (PAGE_SIZE e)"
  shows "do_write (ramfs_ops e) cfg fd buf s = Some (Inr (int (length buf)),
    put_file f (fl\<lparr>f_pos := f_pos fl + int (length buf)\<rparr>)
      ((set_inode (vn_vno vn) (Some (written n (f_pos fl) mem buf)) s)
        \<lparr>vnodes := (vnodes s)(f_vnode fl \<mapsto> vn\<lparr>vn_len := max (rf_size n) (f_pos fl + int (length buf))\<rparr>)\<rparr>))"
proof -
  note rD = regularD [OF r]
  let ?p = "f_pos fl" and ?v = "f_vnode fl" and ?n = "written n (f_pos fl) mem buf"
  let ?vn = "vn\<lparr>vn_len := max (rf_size n) (f_pos fl + int (length buf))\<rparr>"
  define g where "g = fl\<lparr>f_refcount := f_refcount fl + 1\<rparr>"
  define s1 where "s1 = put_file f g s"
  define s2 where "s2 = (set_inode (vn_vno vn) (Some ?n) s1)\<lparr>vnodes := (vnodes s1)(?v \<mapsto> ?vn)\<rparr>"
  define h where "h = g\<lparr>f_pos := ?p + int (length buf)\<rparr>"
  have rc: "0 < f_refcount fl" "f \<noteq> NULL" "file_ok fl" using rD(3) by (simp_all add: file_open_def)
  have get: "fget (ramfs_ops e) cfg fd s = Some (f, s1)" using fget_open [OF rD(1-3)] by (simp add: s1_def g_def)
  have open1: "file_open s1 f g" using rc by (simp add: file_open_def file_ok_def s1_def g_def)
  have "off_t (f_pos g + 0) = ?p" using off_t_id [of ?p] p rD(11) by (simp add: g_def)
  then have seek: "do_lseek (ramfs_ops e) cfg fd 0 SEEK_CUR s1 = Some (Inr ?p, s1)"
    using lseek_open [of cfg fd s1 f g ?p SEEK_CUR 0 "ramfs_ops e"] open1 rD(1,2) p(1) by (simp add: s1_def g_def bad_fd_def)
  have op: "vop_write (ramfs_ops e) s1 ?v = Some (ramfs_write e ?v)" using rD(4,5) by (simp add: ramfs_ops_def by_mode_def s1_def)
  have wr: "ramfs_write e ?v ?p buf s1 = Some (Inr (int (length buf)), s2)"
    using ramfs_write_run [of s1 ?v vn n mem ?p buf e] rD(4-11) p by (simp add: s1_def s2_def written_def)
  have upd: "upd_file f (\<lambda>fl. fl\<lparr>f_pos := off_t (f_pos fl + int (length buf))\<rparr>) s2 = Some (put_file f h s2)"
    using off_t_id [of "?p + int (length buf)"] p rD(11) by (simp add: upd_file_def s2_def s1_def set_inode_def h_def g_def)
  have "file_open (put_file f h s2) f h" using rc p(1) by (simp add: file_open_def file_ok_def h_def g_def)
  then have put: "fput (ramfs_ops e) f (put_file f h s2) = Some (put_file f (fl\<lparr>f_pos := ?p + int (length buf)\<rparr>) s2)"
    using fput_open [of "put_file f h s2" f h "ramfs_ops e"] rc(1) by (simp add: h_def g_def)
  have f2: "files s1 f = Some g" "files s2 f = Some g" "vnodes s2 ?v = Some ?vn" by (simp_all add: s1_def s2_def set_inode_def)
  have fd: "0 \<le> fd" "fd < int (NFILES cfg)" "cur_files s ! nat fd \<noteq> NULL" using rD(1) by (auto simp: bad_fd_def)
  have g: "f_mode g = f_mode fl" "f_vnode g = ?v" "f_pos g = ?p" by (simp_all add: g_def)
  have fin: "put_file f (fl\<lparr>f_pos := ?p + int (length buf)\<rparr>) s2 = put_file f (fl\<lparr>f_pos := ?p + int (length buf)\<rparr>)
      ((set_inode (vn_vno vn) (Some ?n) s)\<lparr>vnodes := (vnodes s)(?v \<mapsto> ?vn)\<rparr>)"
    by (simp add: s2_def s1_def set_inode_def)
  show ?thesis unfolding do_write_def using get seek op wr upd put f2 fd g fin rc(2) m rD(5) p(1)
    by (simp add: c_int_def S_ISREG_def le_max_iff_disj)
qed

lemma do_read_run:
  assumes r: "regular e cfg fd f fl vn n mem s" and m: "f_mode fl AND FMODE_READ cfg \<noteq> 0" and p: "0 \<le> f_pos fl" "f_pos fl + int l \<le> rf_size n"
  shows "do_read (ramfs_ops e) cfg fd l s =
    Some (Inr (int l), take l (drop (nat (f_pos fl)) mem), put_file f (fl\<lparr>f_pos := f_pos fl + int l\<rparr>) s)"
proof -
  note rD = regularD [OF r]
  let ?p = "f_pos fl" and ?v = "f_vnode fl"
  define g where "g = fl\<lparr>f_refcount := f_refcount fl + 1\<rparr>"
  define s1 where "s1 = put_file f g s"
  define h where "h = g\<lparr>f_pos := ?p + int l\<rparr>"
  have rc: "0 < f_refcount fl" "f \<noteq> NULL" "file_ok fl" using rD(3) by (simp_all add: file_open_def)
  have get: "fget (ramfs_ops e) cfg fd s = Some (f, s1)" using fget_open [OF rD(1-3)] by (simp add: s1_def g_def)
  have op: "vop_read (ramfs_ops e) s1 ?v = Some (ramfs_read ?v)" using rD(4,5) by (simp add: ramfs_ops_def by_mode_def s1_def)
  have rd: "ramfs_read ?v ?p l s1 = Some (Inr (int l), take l (drop (nat ?p) mem), s1)"
    using ramfs_read_run [of s1 ?v vn n mem ?p l] rD p by (simp add: s1_def)
  have upd: "upd_file f (\<lambda>fl. fl\<lparr>f_pos := off_t (f_pos fl + int l)\<rparr>) s1 = Some (put_file f h s1)"
    using off_t_id [of "?p + int l"] p rD(10,11) by (simp add: upd_file_def s1_def h_def g_def)
  have "file_open (put_file f h s1) f h" using rc p(1) by (simp add: file_open_def file_ok_def h_def g_def)
  then have put: "fput (ramfs_ops e) f (put_file f h s1) = Some (put_file f (fl\<lparr>f_pos := ?p + int l\<rparr>) s)"
    using fput_open [of "put_file f h s1" f h "ramfs_ops e"] rc(1) by (simp add: h_def g_def s1_def)
  have f1: "files s1 f = Some g" "vnodes s1 ?v = Some vn" "f_mode g = f_mode fl" "f_vnode g = ?v" "f_pos g = ?p"
    using rD(4) by (simp_all add: s1_def g_def)
  show ?thesis unfolding do_read_def using get op rd upd put f1 rD(1,5) rc(2) m by (simp add: S_ISDIR_def)
qed

end
