(* ===== verification/Ramfs_Calls.thy ===== *)
theory Ramfs_Calls
  imports Ramfs_Files
begin

text \<open>
  Properties of the system calls on the file system in memory, from mounting on.
\<close>

section \<open>Mounting\<close>

text \<open>
  What \<open>idleproc_run\<close> does: the file system is mounted, and the idle process and the init process work in the root.  The state is
  that of init.
\<close>

definition start :: "ramfs_env \<Rightarrow> rfs \<Rightarrow> rfs option" where
  "start e s = do {
     (_, s) \<leftarrow> ramfs_mount e s;
     s \<leftarrow> vref (vfs_root_vn s) s;
     s \<leftarrow> vref (vfs_root_vn s) s;
     Some (s\<lparr>cur_cwd := vfs_root_vn s\<rparr>)
   }"

definition nothing_open :: "vfs_config \<Rightarrow> rfs \<Rightarrow> bool" where
  "nothing_open cfg s \<longleftrightarrow> vnodes s = Map.empty \<and> vnode_inuse_list s = [] \<and> cur_files s = replicate (NFILES cfg) NULL"

definition root_inode :: "ramfs_env \<Rightarrow> ramfs_inode" where
  "root_inode e = \<lparr>rf_size = 2 * int (sizeof_ramfs_dirent e), rf_ino = 0,
     rf_mem = Rf_dirents ((replicate (RAMFS_MAX_DIRENT e) \<lparr>rd_ino = 0, rd_name = []\<rparr>)[0 := \<lparr>rd_ino = 0, rd_name = ''.''\<rparr>, 1 := \<lparr>rd_ino = 0, rd_name = ''..''\<rparr>]),
     rf_mode = RAMFS_TYPE_DIR, rf_linkcount = 1\<rparr>"

definition formatted :: "ramfs_env \<Rightarrow> rfs \<Rightarrow> rfs" where
  "formatted e s = s\<lparr>fsx := \<lparr>rfs_inodes = (replicate RAMFS_MAX_FILES None)[0 := Some (root_inode e)]\<rparr>\<rparr>"

lemma ramfs_mount_run:
  assumes "fs_memory e" "inode_memory e \<lparr>rfs_inodes = replicate RAMFS_MAX_FILES None\<rparr>"
  shows "ramfs_mount e s = do { (v, s) \<leftarrow> vget (ramfs_fs_ops e) 0 (formatted e s); Some (Inr 0, s\<lparr>vfs_root_vn := v\<rparr>) }"
proof -
  have "find_index (\<lambda>n. n = None) (replicate RAMFS_MAX_FILES (None :: ramfs_inode option)) = 0" by (simp add: RAMFS_MAX_FILES_def eval_nat_numeral)
  then show ?thesis using assms
    by (simp add: ramfs_mount_def ramfs_alloc_inode_def Let_def inode_at_set set_inode_def inode_at_def new_mem_def formatted_def root_inode_def RAMFS_MAX_FILES_def)
qed

lemma formatted_sel [simp]:
  "vnodes (formatted e s) = vnodes s" "vnode_inuse_list (formatted e s) = vnode_inuse_list s" "cur_files (formatted e s) = cur_files s"
  by (simp_all add: formatted_def)

lemma formatted_inode: "inode_at i (formatted e s) = (if i = 0 then Some (root_inode e) else None)"
  by (simp add: inode_at_def formatted_def RAMFS_MAX_FILES_def nth_list_update)

lemma formatted_ok:
  assumes "env_ok e" "nothing_open cfg s"
  shows "rok e (formatted e s)"
  using assms by (auto simp: rok_def formatted_inode vn_ok_def nothing_open_def root_inode_def mem_ok_def split: if_splits)

lemma formatted_tree: "tree_ok (fs_tree (formatted e s)) \<and> is_dir (fs_tree (formatted e s)) 0" if "nothing_open cfg s"
proof -
  have "\<not> in_use (formatted e s) 0" using that by (simp add: in_use_def nothing_open_def formatted_def)
  then have t: "fs_tree (formatted e s) i = (if i = 0 then Some (rf_mem (root_inode e), RAMFS_TYPE_DIR, 1) else None)" for i
    by (simp add: fs_tree_def formatted_inode root_inode_def)
  have "rd_ino en = 0" if "rf_mem (root_inode e) = Rf_dirents es" "en \<in> set es" for es en
    using that by (auto simp: root_inode_def dest!: set_update_subset_insert [THEN subsetD])
  then have "i = 0" if "entry (fs_tree (formatted e s)) j w = Some i" for i j w
    using that by (auto simp: entry_def t find_Some_iff split: if_splits rf_mem.splits)
  then show ?thesis by (auto simp: tree_ok_def named_def linked_def is_dir_def t)
qed

lemma rok_root [simp]: "rok e (s\<lparr>vfs_root_vn := v\<rparr>) = rok e s"
  by (simp add: rok_def inode_at_def)

lemma fs_tree_other [simp]: "fs_tree (s\<lparr>vfs_root_vn := v\<rparr>) = fs_tree s" "fs_tree (s\<lparr>cur_cwd := v\<rparr>) = fs_tree s"
  by (simp_all add: fs_tree_def fun_eq_iff in_use_def inode_at_def)

lemma vref_fields:
  assumes "vref v s = Some s'"
  shows "same_files s s'" "\<And>w wn. vnodes s w = Some wn \<Longrightarrow> \<exists>wn'. vnodes s' w = Some wn' \<and> vn_vno wn' = vn_vno wn"
  using assms by (auto simp: vref_def bind_eq_Some_conv same_files_def split: if_splits)

lemma started:
  assumes env: "env_ok e" "fs_memory e" "inode_memory e \<lparr>rfs_inodes = replicate RAMFS_MAX_FILES None\<rparr>" and s: "nothing_open cfg s"
  obtains s' vn where "start e s = Some s'" "vfs_inv cfg (rok e) {#} {#vfs_root_vn s', vfs_root_vn s'#} s'" "tree_ok (fs_tree s')"
    "vnodes s' (vfs_root_vn s') = Some vn" "vn_vno vn = 0" "is_dir (fs_tree s') 0" "cur_cwd s' = vfs_root_vn s'"
proof -
  let ?f = "formatted e s"
  have ok: "rok e ?f" by (rule formatted_ok [OF env(1) s])
  obtain v s1 where g: "vget (ramfs_fs_ops e) 0 ?f = Some (v, s1)" using vget_returns [OF ok] formatted_inode by fastforce
  note g' = ramfs_vget [OF ok g]
  have refs0: "refs ?f = (\<lambda>_. 0)" using s by (auto simp: refs_def nothing_open_def)
  define s2 where "s2 = s1\<lparr>vfs_root_vn := v\<rparr>"
  have s2: "rok e s2" "refs s2 = (\<lambda>w. if w = v then 1 else 0)" "cur_files s2 = replicate (NFILES cfg) NULL"
    using g' refs0 s by (auto simp: s2_def after_def gain_def same_files_def nothing_open_def)
  have t2: "fs_tree s2 = fs_tree ?f" using vget_tree [OF ok g] by (simp add: s2_def)
  obtain s3 where s3: "vref v s2 = Some s3" using vref_returns [OF rokD(2) [OF s2(1)], of v] s2(2) by auto
  note r3 = vref_refs [OF rokD(2) [OF s2(1)] s3] and ok3 = ramfs_vref [OF s2(1) s3]
  have root3: "vfs_root_vn s3 = v" using r3(2) by (simp add: same_files_def s2_def)
  obtain s4 where s4: "vref v s3 = Some s4" using vref_returns [OF rokD(2) [OF ok3], of v] r3(3) s2(2) by auto
  note r4 = vref_refs [OF rokD(2) [OF ok3] s4]
  let ?s = "s4\<lparr>cur_cwd := v\<rparr>"
  have root: "vfs_root_vn s4 = v" using r4(2) root3 by (simp add: same_files_def)
  have run: "start e s = Some ?s" using g s3 root3 s4 root by (simp add: start_def ramfs_mount_run [OF env(2,3)] s2_def)
  have "opens ?s = {#}" using r3(2) r4(2) s2(3) by (simp add: opens_def same_files_def)
  moreover have "refs ?s = (\<lambda>w. int (count {#v, v, v#} w))" using r3(3) r4(3) s2(2) by (auto simp: fun_eq_iff)
  moreover have "rok e ?s" using ramfs_vref [OF ok3 s4] by simp
  moreover have "length (cur_files ?s) = NFILES cfg" using r3(2) r4(2) s2(3) by (simp add: same_files_def)
  ultimately have inv: "vfs_inv cfg (rok e) {#} {#v, v#} ?s" using root by (simp add: vfs_inv_def finv_def file_refs_def)
  have t: "fs_tree ?s = fs_tree ?f" using vref_tree [OF s3] vref_tree [OF s4] t2 by simp
  obtain vn where "vnodes s2 v = Some vn" "vn_vno vn = 0" using g' by (auto simp: s2_def)
  then obtain vn' where "vnodes ?s v = Some vn'" "vn_vno vn' = 0" using vref_fields(2) [OF s3] vref_fields(2) [OF s4] by fastforce
  then show thesis using that [OF run] inv formatted_tree [OF s, of e] t root by simp
qed

section \<open>Example\<close>

definition demo_limits :: vfs_config where
  "demo_limits = \<lparr>NFILES = 4, NAME_LEN = 8, MAXPATHLEN = 16, FMODE_READ = 1, FMODE_WRITE = 2, FMODE_APPEND = 4,
     O_RDONLY = 0, O_WRONLY = 1, O_RDWR = 2, O_CREAT = 256, O_TRUNC = 512, O_APPEND = 1024, sizeof_dirent = 12, error_number = (\<lambda>_. 1)\<rparr>"

definition demo_env :: ramfs_env where
  "demo_env = \<lparr>limits = demo_limits, PAGE_SIZE = 32, sizeof_ramfs_dirent = 8, name_match = (\<lambda>f n l. f = take l n), fs_memory = True,
     inode_memory = (\<lambda>_. True), vnode_memory = (\<lambda>s. Suc (foldr max (vnode_inuse_list s) 0)),
     file_memory = (\<lambda>s. if files s 1 = None then 1 else if files s 2 = None then 2 else NULL),
     devs = \<lparr>cd_read = (\<lambda>_. None), cd_write = (\<lambda>_. None)\<rparr>\<rparr>"

definition demo_blank :: rfs where
  "demo_blank = \<lparr>vnodes = Map.empty, vnode_inuse_list = [], files = Map.empty, cur_files = replicate 4 NULL, cur_cwd = NULL,
     vfs_root_vn = NULL, fsx = \<lparr>rfs_inodes = []\<rparr>\<rparr>"

lemma foldr_max: "x \<in> set l \<Longrightarrow> x \<le> foldr max l (0 :: nat)"
  by (induction l) auto

lemma demo_env_ok: "env_ok demo_env"
proof -
  have "vnodes s (Suc (foldr max (vnode_inuse_list s) 0)) = None" if "vn_ok s" for s
  proof (rule ccontr)
    assume "vnodes s (Suc (foldr max (vnode_inuse_list s) 0)) \<noteq> None"
    then have "Suc (foldr max (vnode_inuse_list s) 0) \<in> set (vnode_inuse_list s)" using that unfolding vn_ok_def by blast
    then show False using foldr_max by fastforce
  qed
  then show ?thesis by (auto simp: env_ok_def demo_env_def)
qed

lemma demo_match_ok: "match_ok demo_env"
  by (simp add: match_ok_def demo_env_def)

lemma demo_modes_ok: "modes_ok demo_limits"
  by (simp add: modes_ok_def demo_limits_def)

lemma demo_started:
  obtains s vn where "start demo_env demo_blank = Some s" "vfs_inv demo_limits (rok demo_env) {#} {#vfs_root_vn s, vfs_root_vn s#} s" "tree_ok (fs_tree s)"
    "vnodes s (vfs_root_vn s) = Some vn" "vn_vno vn = 0" "is_dir (fs_tree s) 0" "cur_cwd s = vfs_root_vn s"
  by (rule started [OF demo_env_ok, of demo_limits demo_blank])
    (auto simp: demo_env_def demo_blank_def demo_limits_def nothing_open_def)


text \<open>A file created in the root, opened for reading and writing at descriptor 0.\<close>

definition demo_started_state :: rfs where
  "demo_started_state = (case start demo_env demo_blank of Some s \<Rightarrow> s | None \<Rightarrow> demo_blank)"

definition demo_opened :: rfs where
  "demo_opened = (case do_open (ramfs_ops demo_env) demo_limits ''/a'' 258 demo_started_state of Some (r, s) \<Rightarrow> s | None \<Rightarrow> demo_blank)"

definition demo_file :: file_t where
  "demo_file = the (files demo_opened 1)"

definition demo_vnode :: vnode where
  "demo_vnode = the (vnodes demo_opened (f_vnode demo_file))"

definition demo_inode :: ramfs_inode where
  "demo_inode = the (inode_at (vn_vno demo_vnode) demo_opened)"

lemma demo_root_inv:
  "start demo_env demo_blank = Some demo_started_state"
  "vfs_inv demo_limits (rok demo_env) {#} {#vfs_root_vn demo_started_state, vfs_root_vn demo_started_state#} demo_started_state" "tree_ok (fs_tree demo_started_state)"
  by (rule demo_started; simp add: demo_started_state_def)+

lemma demo_open: "do_open (ramfs_ops demo_env) demo_limits ''/a'' 258 demo_started_state = Some (Inr 0, demo_opened)"
proof -
  have "map_option fst (do_open (ramfs_ops demo_env) demo_limits ''/a'' 258 demo_started_state) = Some (Inr 0)" by code_simp
  then show ?thesis by (auto simp: demo_opened_def)
qed

lemma demo_calls: "(vfs_call (ramfs_ops demo_env) demo_limits)\<^sup>*\<^sup>* demo_started_state demo_opened"
  using call_open [OF demo_open] by simp

section \<open>What the calls get wrong\<close>

text \<open>Opening a path that is not found leaves a file that no descriptor has.\<close>

lemma open_fails_leaks:
  "map_option (\<lambda>(r, s). (r, map_option f_refcount (files s 1), cur_files s)) (do_open (ramfs_ops demo_env) demo_limits ''/x'' 0 demo_started_state) =
    Some (Inl ENOENT, Some 1, [NULL, NULL, NULL, NULL])"
  by code_simp

text \<open>A file that is open with \<open>O_RDONLY | O_APPEND\<close> can be written.\<close>

lemma read_only_append_writes:
  "do { (_, s) \<leftarrow> do_open (ramfs_ops demo_env) demo_limits ''/a'' 1024 demo_opened; (r, _) \<leftarrow> do_write (ramfs_ops demo_env) demo_limits 1 [1, 2] s; Some r } = Some (Inr 2)"
  by code_simp

text \<open>A slash behind the name hides \<open>..\<close> from the test of \<open>do_rmdir\<close>: the assertion of the file system fails.\<close>

lemma rmdir_slash_panics: "do_rmdir (ramfs_ops demo_env) demo_limits ''../'' demo_started_state = None"
  by code_simp

text \<open>The root itself can be removed.\<close>

lemma rmdir_root: "map_option fst (do_rmdir (ramfs_ops demo_env) demo_limits ''/'' demo_started_state) = Some (Inr 0)"
  by code_simp

text \<open>A directory that is removed while it is the working directory still names its parent: when that is removed too, looking up \<open>..\<close> panics.\<close>

lemma removed_parent_panics:
  "do {
     (_, s) \<leftarrow> do_mkdir (ramfs_ops demo_env) demo_limits ''/a'' demo_started_state;
     (_, s) \<leftarrow> do_mkdir (ramfs_ops demo_env) demo_limits ''/a/b'' s;
     (_, s) \<leftarrow> do_chdir (ramfs_ops demo_env) demo_limits ''/a/b'' s;
     (_, s) \<leftarrow> do_rmdir (ramfs_ops demo_env) demo_limits ''/a/b'' s;
     (r, s) \<leftarrow> do_rmdir (ramfs_ops demo_env) demo_limits ''/a'' s;
     Some (r, do_chdir (ramfs_ops demo_env) demo_limits ''..'' s = None)
   } = Some (Inr 0, True)"
  by code_simp

text \<open>A link to a path whose directory is not found fails and keeps its reference to the file.\<close>

lemma link_leaks:
  assumes inv: "vfs_inv cfg (rok e) E V s" and len: "length from \<le> NAME_LEN cfg" "length to \<le> NAME_LEN cfg"
    and found: "open_namev (ramfs_ops e) cfg from 0 NULL s = Some (Inr v, s1)" "vnodes s1 v = Some vn" "\<not> S_ISDIR (vn_mode vn)"
    and err: "dir_namev (ramfs_ops e) cfg to NULL s1 = Some (Inl er, s2)"
  shows "do_link (ramfs_ops e) cfg junk from to s = Some (Inl er, s2)" "vfs_inv cfg (rok e) E (add_mset v V) s2"
proof -
  show "do_link (ramfs_ops e) cfg junk from to s = Some (Inl er, s2)" using len found err by (simp add: do_link_def Let_def)
  have root: "cur_cwd s \<in># add_mset (cur_cwd s) V" "vfs_root_vn s \<in># add_mset (cur_cwd s) V" using vfs_invD(3) [OF inv] by auto
  let ?Q = "\<lambda>(r, s'). finv (rok e) (E + opens s) (gained r + add_mset (cur_cwd s) V) s' \<and> same_files s s'"
  have "?Q (Inr v, s1)" by (rule yieldsD [OF rf.open_namev_y [OF vfs_invD(1) [OF inv] root] found(1)]) simp
  then have "vfs_inv cfg (rok e) E (add_mset v V) s1" using inv by (simp add: vfs_inv_def same_files_def opens_def add_mset_commute)
  from dir_namev_refs [OF this err] show "vfs_inv cfg (rok e) E (add_mset v V) s2" by (simp add: dir_gained_def)
qed

lemma demo_link_leaks:
  "map_option (\<lambda>(r, s'). (r, refs s' 2 - refs demo_opened 2)) (do_link (ramfs_ops demo_env) demo_limits NULL ''/a'' ''/x/y'' demo_opened) = Some (Inl ENOENT, 1)"
  by code_simp

section \<open>Properties\<close>

text \<open>
  C30. Mounting an empty file system when nothing is open returns, and so does taking the root as the working directory of the idle
  and the init process.  Then the counts are right (one reference for the root and one for each working directory), inode 0 is a directory with a vnode in use,
  and the tree is well formed.
\<close>

theorem start_ok:
  assumes "env_ok e" "fs_memory e" "inode_memory e \<lparr>rfs_inodes = replicate RAMFS_MAX_FILES None\<rparr>" "nothing_open cfg s"
  shows "\<exists>s' vn. start e s = Some s' \<and> vfs_inv cfg (rok e) {#} {#vfs_root_vn s', vfs_root_vn s'#} s' \<and> tree_ok (fs_tree s') \<and>
    cur_cwd s' = vfs_root_vn s' \<and> vnodes s' (vfs_root_vn s') = Some vn \<and> vn_vno vn = 0 \<and> is_dir (fs_tree s') 0"
  by (rule started [OF assms]) blast

theorem start_ok_witness:
  "\<exists>s vn. start demo_env demo_blank = Some s \<and> vfs_inv demo_limits (rok demo_env) {#} {#vfs_root_vn s, vfs_root_vn s#} s \<and> vnodes s (vfs_root_vn s) = Some vn"
  using start_ok [OF demo_env_ok, of demo_limits demo_blank]
  by (auto simp: demo_env_def demo_blank_def demo_limits_def nothing_open_def)

lemma vfs_inv_counts:
  assumes "vfs_inv cfg ok {#} {#r, r#} s"
  shows "vfs_root_vn s = r" "refs s v = int (count ({#cur_cwd s, r, r#} + image_mset (vnode_of s) (mset_set (set_mset (opens s)))) v)"
    "f \<in># opens s \<Longrightarrow> \<exists>fl. files s f = Some fl \<and> f_refcount fl = int (count (opens s) f)"
  using assms by (auto simp: vfs_inv_def finv_def file_refs_def)





text \<open>
  C8. Resolving a path: \<open>dir_namev\<close> finds what a walk over the tree of directories finds along the components of the path, from
  the root or the working directory: the inode of the last directory and the last component, or the error.  It changes nothing in the
  tree, and keeps exactly one new reference, to the directory it returns, and none when it fails.
\<close>

theorem dir_namev_resolves:
  assumes "vfs_inv cfg (rok e) E V s" "match_ok e" "tree_ok (fs_tree s)"
    and "vnodes s (if path \<noteq> [] \<and> hd path = CHR ''/'' then vfs_root_vn s else cur_cwd s) = Some vn" "is_dir (fs_tree s) (vn_vno vn)"
  shows "\<exists>r s'. dir_namev (ramfs_ops e) cfg path NULL s = Some (r, s') \<and> fs_tree s' = fs_tree s \<and>
    (case resolve cfg (fs_tree s) (vn_vno vn) path of
      Inl er \<Rightarrow> r = Inl er \<and> vfs_inv cfg (rok e) E V s'
    | Inr (i, w) \<Rightarrow> \<exists>d dn name. r = Inr (d, name, length w) \<and> take (length w) name = w \<and> vnodes s' d = Some dn \<and> vn_vno dn = i \<and>
        vfs_inv cfg (rok e) E (add_mset d V) s')"
  using dir_namev_walk [OF assms] dir_namev_refs [OF assms(1)]
  by (cases "resolve cfg (fs_tree s) (vn_vno vn) path") (fastforce simp: dir_gained_def)+

theorem dir_namev_resolves_witness:
  "\<exists>d name s'. dir_namev (ramfs_ops demo_env) demo_limits ''/./a'' NULL demo_started_state = Some (Inr (d, name, 1), s') \<and> take 1 name = ''a'' \<and>
    fs_tree s' = fs_tree demo_started_state"
proof -
  obtain vn where vn: "vnodes demo_started_state (vfs_root_vn demo_started_state) = Some vn" "vn_vno vn = 0" "is_dir (fs_tree demo_started_state) 0"
    by (rule demo_started) (use demo_root_inv(1) in simp)
  have i: "inode_at 0 demo_started_state = Some (root_inode demo_env\<lparr>rf_linkcount := 2\<rparr>)" by code_simp
  have "components ''/./a'' = [''.'', ''a'']" by code_simp
  moreover have "entry (fs_tree demo_started_state) 0 ''.'' = Some 0" by (simp add: entry_def fs_tree_def i) code_simp
  ultimately have "resolve demo_limits (fs_tree demo_started_state) 0 ''/./a'' = Inr (0, ''a'')" using vn(3) by (simp add: resolve_def demo_limits_def)
  with dir_namev_resolves [OF demo_root_inv(2) demo_match_ok demo_root_inv(3), of "''/./a''" vn] vn show ?thesis by fastforce
qed

text \<open>
  C11. What is written to a regular file is read back: writing \<open>buf\<close> at the position of the descriptor, seeking back and
  reading as many bytes returns \<open>buf\<close>; the file has grown to the end of what was written if that was past its end, the position is
  behind what was read, and no other inode has changed.
\<close>

theorem write_then_read:
  assumes "regular e cfg fd f fl vn n mem s" "f_mode fl AND FMODE_APPEND cfg = 0" "f_mode fl AND FMODE_WRITE cfg \<noteq> 0" "f_mode fl AND FMODE_READ cfg \<noteq> 0"
    and "0 \<le> f_pos fl" "f_pos fl + int (length buf) \<le> int (PAGE_SIZE e)"
  shows "\<exists>s1 s2 s3. do_write (ramfs_ops e) cfg fd buf s = Some (Inr (int (length buf)), s1) \<and>
    do_lseek (ramfs_ops e) cfg fd (f_pos fl) SEEK_SET s1 = Some (Inr (f_pos fl), s2) \<and>
    do_read (ramfs_ops e) cfg fd (length buf) s2 = Some (Inr (int (length buf)), buf, s3) \<and>
    map_option rf_size (inode_at (vn_vno vn) s3) = Some (max (rf_size n) (f_pos fl + int (length buf))) \<and>
    map_option f_pos (files s3 f) = Some (f_pos fl + int (length buf)) \<and>
    (i \<noteq> vn_vno vn \<longrightarrow> inode_at i s3 = inode_at i s)"
proof -
  note r = regularD [OF assms(1)]
  let ?l = "int (length buf)" and ?p = "f_pos fl" and ?n = "written n (f_pos fl) mem buf"
  let ?mem = "take (nat ?p) mem @ buf @ drop (nat ?p + length buf) mem"
  let ?vn = "vn\<lparr>vn_len := max (rf_size n) (?p + ?l)\<rparr>"
  let ?g = "fl\<lparr>f_pos := ?p + ?l\<rparr>"
  define s1 where "s1 = put_file f ?g ((set_inode (vn_vno vn) (Some ?n) s)\<lparr>vnodes := (vnodes s)(f_vnode fl \<mapsto> ?vn)\<rparr>)"
  define s2 where "s2 = put_file f fl s1"
  have wr: "do_write (ramfs_ops e) cfg fd buf s = Some (Inr ?l, s1)" unfolding s1_def by (rule do_write_run [OF assms(1-3,5,6)])
  have fd: "\<not> bad_fd cfg fd s1" "cur_files s1 ! nat fd = f" "\<not> bad_fd cfg fd s2" "cur_files s2 ! nat fd = f"
    using r(1,2) by (simp_all add: s1_def s2_def bad_fd_def set_inode_def)
  have op: "file_open s1 f ?g" using r(3) assms(5) by (simp add: s1_def file_open_def file_ok_def)
  have seek: "do_lseek (ramfs_ops e) cfg fd ?p SEEK_SET s1 = Some (Inr ?p, s2)"
    using lseek_open [OF fd(1,2) op assms(5), of SEEK_SET ?p "ramfs_ops e"] by (simp add: s2_def)
  have inodes: "inode_at i s2 = (if i = vn_vno vn then Some ?n else inode_at i s)" for i
    using inode_at_less [OF r(6)] by (simp add: s1_def s2_def inode_at_set)
  have "nat ?p \<le> length mem" "length buf \<le> length mem - nat ?p" using assms(5,6) r(8) by linarith+
  then have "length ?mem = length mem" "take (length buf) (drop (nat ?p) ?mem) = buf" by simp_all
  moreover have "regular e cfg fd f fl ?vn ?n ?mem s2"
    unfolding regular_def using r(3-11) fd inodes assms(6) calculation(1) by (simp add: s1_def s2_def file_open_def written_def)
  note rd = do_read_run [OF this assms(4,5), of "length buf"]
  ultimately have "do_read (ramfs_ops e) cfg fd (length buf) s2 = Some (Inr ?l, buf, put_file f ?g s2)" using rd by (simp add: written_def)
  then show ?thesis using wr seek inodes by (auto simp: written_def)
qed

theorem write_then_read_witness:
  "\<exists>s1 s2 s3. do_write (ramfs_ops demo_env) demo_limits 0 [1, 2, 3] demo_opened = Some (Inr 3, s1) \<and>
    do_lseek (ramfs_ops demo_env) demo_limits 0 0 SEEK_SET s1 = Some (Inr 0, s2) \<and> do_read (ramfs_ops demo_env) demo_limits 0 3 s2 = Some (Inr 3, [1, 2, 3], s3)"
proof -
  have r: "regular demo_env demo_limits 0 1 demo_file demo_vnode demo_inode (case rf_mem demo_inode of Rf_data b \<Rightarrow> b | _ \<Rightarrow> []) demo_opened" by code_simp
  have m: "f_mode demo_file AND FMODE_APPEND demo_limits = 0" "f_mode demo_file AND FMODE_WRITE demo_limits \<noteq> 0" "f_mode demo_file AND FMODE_READ demo_limits \<noteq> 0"
    "f_pos demo_file = 0" "PAGE_SIZE demo_env = 32"
    by code_simp+
  from write_then_read [OF r m(1-3), of "[1, 2, 3]" 0] m show ?thesis by (auto simp: eval_nat_numeral)
qed

text \<open>
  C28. \<open>do_dup2\<close> always returns.  For good descriptors the new one is a second descriptor for the open file of the old one, whether
  it was in use or not and also if it is the old one itself; for bad ones the call is refused and nothing has changed.  The counts stay
  right, so that a file that had been open only at the new descriptor is closed.
\<close>

theorem dup2_shares:
  assumes "vfs_inv cfg (rok e) E V s"
  shows "\<exists>r s'. do_dup2 (ramfs_ops e) cfg ofd nfd s = Some (r, s') \<and> vfs_inv cfg (rok e) E V s' \<and>
    (if bad_fd cfg ofd s \<or> nfd < 0 \<or> int (NFILES cfg) \<le> nfd then r = Inl EBADF \<and> s' = s
     else r = Inr nfd \<and> cur_files s' = (cur_files s)[nat nfd := cur_files s ! nat ofd])"
  using rf.do_dup2_vfs [OF assms, of ofd nfd] by auto

theorem dup2_shares_witness:
  "\<exists>s. do_dup2 (ramfs_ops demo_env) demo_limits 0 2 demo_opened = Some (Inr 2, s) \<and> cur_files s = [1, NULL, 1, NULL]"
proof -
  have d: "cur_files demo_opened = [1, NULL, NULL, NULL]" "\<not> bad_fd demo_limits 0 demo_opened" "NFILES demo_limits = 4" by code_simp+
  show ?thesis using dup2_shares [OF rf.calls_inv [OF demo_calls demo_root_inv(2) demo_modes_ok], of 0 2] d by auto
qed

end
