(* ===== verification/Spec2Isabelle.thy ===== *)
theory Spec2Isabelle
  imports Warmup2_Run Vmmap Pages_Use Kmutex Wait Ramfs_Calls
begin

text \<open>
  A verification of the programs of the operating systems course under \<^verbatim>\<open>src/\<close>: the bank statement program
  \<^verbatim>\<open>warmup1\<close>, the doubly linked lists it and the token bucket emulation \<^verbatim>\<open>Threading\<close> use, and the kernel
  \<^verbatim>\<open>kernel\<close> with its processes, address spaces and file system.

  \<^bold>\<open>How C is translated.\<close>  A struct is a record with the field names of the source, a pointer is an address (a number, 0 is
  \<open>NULL\<close>), memory that is shared and changed is a map from addresses.  A function takes the state and returns the new one.
  The result \<open>None\<close> stands for a run without a result: a failed \<open>KASSERT\<close>, a panic, an access through a bad pointer, a loop that does
  not end.  A returned negative error number is \<open>Inl\<close>, a result \<open>Inr\<close>.  Integers are words where they wrap around.  Debug output is
  left out.  Code that is not under \<^verbatim>\<open>src/\<close> (the C library's allocator and clock, headers with constants, drivers, assembly) is a
  parameter of the definitions that use it, and what is relied on of it is a named hypothesis of the theorems.

  \<^bold>\<open>The parts and their theories.\<close>
  \<^item> \<open>OS_Prelude\<close>: addresses, error numbers, walks along a pointer field, and \<open>yields\<close>, which says that a result, if there is one,
    has a property; the proofs about system calls are compositions of rules for it.
  \<^item> \<open>Heap402\<close>, \<open>List402\<close>, \<open>List402T\<close>: the two copies of \<^verbatim>\<open>my402list.c\<close>.  A heap represents a sequence (\<open>repr\<close>);
    every operation of both copies refines the operation on sequences (locales \<open>elem_queue\<close> and \<open>elem_list\<close>, interpreted as
    \<open>w1\<close> and \<open>wt\<close>), the loops end, and the copies agree.
  \<^item> \<open>Warmup1\<close>: \<^verbatim>\<open>warmup1.c\<close> from reading the file to printing the table, on the list of \<open>List402\<close>.  The report is the
    table of the sorted transactions with running balances; what is printed can be read back; duplicate times are refused.
  \<^item> \<open>Warmup2\<close>, \<open>Warmup2_Steps\<close>, \<open>Warmup2_Inv\<close>, \<open>Warmup2_Lock\<close>, \<open>Warmup2_Run\<close>: \<^verbatim>\<open>warmup2.c\<close>, six threads as one
    step relation over the shared variables.  The bucket keeps its bounds and loses no token; no packet is lost or served twice, the
    queues keep their order, and the only way not to end is a wake-up that is lost, which can happen.
  \<^item> \<open>Kstate\<close>, \<open>Sched\<close>, \<open>Kmutex\<close>: the state of the process subsystem, \<^verbatim>\<open>sched.c\<close> and \<^verbatim>\<open>kmutex.c\<close>.  The step relation
    of \<open>Sched\<close> is one call of the running thread; each thread is on exactly the queue its state says, no thread starves, and the
    assertions of the code cannot fail.  A mutex has one holder (locale \<open>mutex_contract\<close>, interpreted as \<open>km\<close>).
  \<^item> \<open>Kthread\<close>, \<open>Proc\<close>, \<open>Wait\<close>: \<^verbatim>\<open>kthread.c\<close> and \<^verbatim>\<open>proc.c\<close>.  Processes form a tree; creating, ending and waiting
    change it as they should, and a parent that waits gets the status of a child that ends.
  \<^item> \<open>Vmmap\<close>: \<^verbatim>\<open>vm/vmmap.c\<close>.  The abstract view of an address space is what backs each page; mapping, removing, finding a
    free range and cloning are refinements of operations on that view (locale \<open>address_space\<close>, interpreted as \<open>vm\<close>).
  \<^item> \<open>Pages\<close>, \<open>Pages_Inv\<close>, \<open>Pages_Alloc\<close>, \<open>Pages_Use\<close>: \<^verbatim>\<open>mm/page.c\<close>, the buddy allocator.  The abstract view
    is the multiset of free pages: splitting and joining keep it, allocating takes a block out and freeing puts it back, no page is handed out twice, and
    buddies are always joined (locale \<open>block_allocator\<close>, interpreted as \<open>buddy\<close>).
  \<^item> \<open>Vnode\<close>, \<open>Vfs\<close>: \<^verbatim>\<open>vnode.c\<close>, \<^verbatim>\<open>file.c\<close>, \<^verbatim>\<open>namev.c\<close>, \<^verbatim>\<open>open.c\<close> and \<^verbatim>\<open>vfs_syscall.c\<close>, over a
    file system that is a record of operations, as in the code.
  \<^item> \<open>Vfs_Refs\<close>, \<open>Vfs_Inv\<close>: what the calls rely on of a file system (locale \<open>file_system\<close>), and that then no call loses or
    invents a reference to a vnode or an open file.
  \<^item> \<open>Ramfs\<close>, \<open>Ramfs_Inv\<close>, \<open>Ramfs_Path\<close>, \<open>Ramfs_Files\<close>, \<open>Ramfs_Calls\<close>: \<^verbatim>\<open>ramfs.c\<close> as such a file system
    (interpretation \<open>rf\<close>), path resolution as a walk over the tree of directories, writing and reading, mounting, and the properties of
    the calls on the mounted file system.

  \<^bold>\<open>Bounds.\<close>  There is no fuel: loops over lists recurse over the list, loops over pointers are partial functions that are proved to
  return, and the search for a process number and the walk along a path come with termination proofs.

  \<^bold>\<open>Not modelled.\<close>  Assembly and hardware (contexts, interrupts, the page tables), the slab allocator, the page cache
  and the memory objects, the disk file system, loading and system call dispatch, the times and statistics of the emulation, and test programs.  They are
  parameters where the modelled code calls them.
\<close>

end
